(* ===== verification/Prelude.thy ===== *)
theory Prelude
  imports Main "HOL-Library.Multiset" "HOL-Library.Sublist" "HOL-Library.AList"
begin

text \<open>
  The shared layer of the development: the part of the JavaScript runtime that the webmail
  code uses (strings, optional values, ordered maps, the stable array sort) and the generic
  lemmas about it.

  Strings are lists of code units. The model covers code units 0 to 255, so a HOL
  \<^typ>\<open>char\<close> is one code unit, and case folding and white space are those of that range:
  \<open>toLowerCase\<close> is closed there, and \<open>toUpperCase\<close> expands the sharp s as the language does
  and leaves the two characters whose upper case lies outside the range (U+00B5, U+00FF) alone.
  A value that may be \<open>undefined\<close> or \<open>null\<close> is an \<open>option\<close>; a \<open>Date\<close> is its time value in
  milliseconds; an insertion-ordered \<open>Map\<close> is an association list updated by
  \<open>AList.update\<close>, which keeps the position of an existing key and appends a new one.
\<close>

named_theorems js_simps \<open>defining equations of the string and array operations\<close>

type_synonym date = int
type_synonym ('k, 'v) js_map = "('k \<times> 'v) list"
type_synonym validation = "bool \<times> string list"

subsection \<open>Code units\<close>

definition code_unit :: "char \<Rightarrow> nat" where
  "code_unit c = of_char c"

definition is_ws :: "char \<Rightarrow> bool" where
  "is_ws c = (let n = code_unit c in (9 \<le> n \<and> n \<le> 13) \<or> n = 32 \<or> n = 160)"

definition is_digit :: "char \<Rightarrow> bool" where
  "is_digit c = (48 \<le> code_unit c \<and> code_unit c \<le> 57)"

definition is_upper_ascii :: "char \<Rightarrow> bool" where
  "is_upper_ascii c = (65 \<le> code_unit c \<and> code_unit c \<le> 90)"

definition is_lower_ascii :: "char \<Rightarrow> bool" where
  "is_lower_ascii c = (97 \<le> code_unit c \<and> code_unit c \<le> 122)"

definition is_alpha :: "char \<Rightarrow> bool" where
  "is_alpha c = (is_upper_ascii c \<or> is_lower_ascii c)"

definition is_word_char :: "char \<Rightarrow> bool" where
  "is_word_char c = (is_alpha c \<or> is_digit c \<or> c = CHR ''_'')"

definition lower_char :: "char \<Rightarrow> char" where
  "lower_char c = (let n = code_unit c in
     if (65 \<le> n \<and> n \<le> 90) \<or> (192 \<le> n \<and> n \<le> 222 \<and> n \<noteq> 215) then char_of (n + 32) else c)"

definition upper_char :: "char \<Rightarrow> string" where
  "upper_char c = (let n = code_unit c in
     if n = 223 then ''SS''
     else if (97 \<le> n \<and> n \<le> 122) \<or> (224 \<le> n \<and> n \<le> 254 \<and> n \<noteq> 247) then [char_of (n - 32)]
     else [c])"

definition newline :: char where "newline = CHR 0x0A"
definition carriage :: char where "carriage = CHR 0x0D"
definition dquote :: char where "dquote = CHR 0x22"
definition backslash :: char where "backslash = CHR 0x5C"

subsection \<open>Strings\<close>

definition toLowerCase :: "string \<Rightarrow> string" where
  "toLowerCase s = map lower_char s"

definition toUpperCase :: "string \<Rightarrow> string" where
  "toUpperCase s = concat (map upper_char s)"

definition trim :: "string \<Rightarrow> string" where
  "trim s = rev (dropWhile is_ws (rev (dropWhile is_ws s)))"

definition str_includes :: "string \<Rightarrow> string \<Rightarrow> bool" where
  "str_includes s t = sublist t s"

definition startsWith :: "string \<Rightarrow> string \<Rightarrow> bool" where
  "startsWith s t = prefix t s"

definition endsWith :: "string \<Rightarrow> string \<Rightarrow> bool" where
  "endsWith s t = suffix t s"

fun join :: "string \<Rightarrow> string list \<Rightarrow> string" where
  "join sep [] = []"
| "join sep [x] = x"
| "join sep (x # y # ys) = x @ sep @ join sep (y # ys)"

text \<open>\<open>s.split(c)\<close> for a one-character separator: never empty, the separators removed.\<close>

fun split_on :: "char \<Rightarrow> string \<Rightarrow> string list" where
  "split_on sep [] = [[]]"
| "split_on sep (c # cs) =
     (if c = sep then [] # split_on sep cs
      else case split_on sep cs of [] \<Rightarrow> [[c]] | w # ws \<Rightarrow> (c # w) # ws)"

text \<open>\<open>s.indexOf(c)\<close>, with \<open>-1\<close> as \<open>None\<close>, and \<open>s.lastIndexOf(c)\<close>.\<close>

fun index_of :: "char \<Rightarrow> string \<Rightarrow> nat option" where
  "index_of c [] = None"
| "index_of c (x # xs) = (if x = c then Some 0 else map_option Suc (index_of c xs))"

fun last_index_of :: "char \<Rightarrow> string \<Rightarrow> nat option" where
  "last_index_of c [] = None"
| "last_index_of c (x # xs) =
     (case last_index_of c xs of Some i \<Rightarrow> Some (Suc i) | None \<Rightarrow> if x = c then Some 0 else None)"

text \<open>Decimal rendering of an integer, as \<open>String(n)\<close> or a template literal prints it.\<close>

definition digit_char :: "nat \<Rightarrow> char" where
  "digit_char d = char_of (48 + d)"

definition digit_val :: "char \<Rightarrow> nat" where
  "digit_val c = code_unit c - 48"

fun show_nat :: "nat \<Rightarrow> string" where
  "show_nat n = (if n < 10 then [digit_char n] else show_nat (n div 10) @ [digit_char (n mod 10)])"

declare show_nat.simps [simp del]

definition show_int :: "int \<Rightarrow> string" where
  "show_int i = (if i < 0 then CHR ''-'' # show_nat (nat (- i)) else show_nat (nat i))"

definition nat_of_digits :: "string \<Rightarrow> nat" where
  "nat_of_digits ds = foldl (\<lambda>n c. 10 * n + digit_val c) 0 ds"

subsection \<open>Optional values and truthiness\<close>

text \<open>A string is falsy when it is absent or empty; \<open>a || b\<close> and \<open>a ?? b\<close> differ on \<open>''\<close>.\<close>

fun truthy :: "string option \<Rightarrow> bool" where
  "truthy None = False"
| "truthy (Some s) = (s \<noteq> [])"

fun or_default :: "string option \<Rightarrow> string \<Rightarrow> string" where
  "or_default None d = d"
| "or_default (Some s) d = (if s = [] then d else s)"

fun or_undefined :: "string option \<Rightarrow> string option" where
  "or_undefined None = None"
| "or_undefined (Some s) = (if s = [] then None else Some s)"

fun nullish :: "'a option \<Rightarrow> 'a \<Rightarrow> 'a" where
  "nullish None d = d"
| "nullish (Some x) d = x"

subsection \<open>Arrays\<close>

text \<open>\<open>Array.from(new Set(xs))\<close>: the first occurrence of every element, in order.\<close>

definition set_uniq :: "'a list \<Rightarrow> 'a list" where
  "set_uniq xs = rev (foldl (\<lambda>acc x. if x \<in> set acc then acc else x # acc) [] xs)"

text \<open>
  \<open>xs.sort(cmp)\<close>. The language asks for a stable sort; for a consistent comparator the result
  is determined, and this insertion sort computes it.
\<close>

fun js_insert :: "('a \<Rightarrow> 'a \<Rightarrow> int) \<Rightarrow> 'a \<Rightarrow> 'a list \<Rightarrow> 'a list" where
  "js_insert cmp x [] = [x]"
| "js_insert cmp x (y # ys) = (if cmp x y \<le> 0 then x # y # ys else y # js_insert cmp x ys)"

fun js_sort :: "('a \<Rightarrow> 'a \<Rightarrow> int) \<Rightarrow> 'a list \<Rightarrow> 'a list" where
  "js_sort cmp [] = []"
| "js_sort cmp (x # xs) = js_insert cmp x (js_sort cmp xs)"

text \<open>
  The idiom \<open>const l = m.get(k) || []; l.push(x); m.set(k, l)\<close> that groups elements in a
  \<open>Map\<close>, and the loop over an array.
\<close>

definition group_push :: "('a \<Rightarrow> 'k) \<Rightarrow> ('k, 'a list) js_map \<Rightarrow> 'a \<Rightarrow> ('k, 'a list) js_map" where
  "group_push key m x =
     AList.update (key x) ((case map_of m (key x) of None \<Rightarrow> [] | Some l \<Rightarrow> l) @ [x]) m"

definition group_into :: "('a \<Rightarrow> 'k) \<Rightarrow> 'a list \<Rightarrow> ('k, 'a list) js_map" where
  "group_into key xs = foldl (group_push key) [] xs"

text \<open>\<open>if (!m.has(k)) m.set(k, v)\<close>: the first value stored for a key stays.\<close>

definition put_absent :: "'k \<Rightarrow> 'v \<Rightarrow> ('k, 'v) js_map \<Rightarrow> ('k, 'v) js_map" where
  "put_absent k v m = (if map_of m k = None then AList.update k v m else m)"

text \<open>A \<open>validate*\<close> function ends with \<open>return { valid: errors.length === 0, errors }\<close>.\<close>

definition validation_of :: "string list \<Rightarrow> validation" where
  "validation_of errors = (errors = [], errors)"

subsection \<open>Lemmas: case folding and trimming\<close>

lemma code_unit_bound [simp]: "code_unit c < 256"
  by (simp add: code_unit_def)

lemma code_unit_char_of [simp]: "code_unit (char_of n) = n mod 256"
  by (simp add: code_unit_def)

lemma code_unit_eq_iff: "code_unit c = code_unit d \<longleftrightarrow> c = d"
  by (simp add: code_unit_def)

lemma lower_char_idem [simp]: "lower_char (lower_char c) = lower_char c"
  by (auto simp: lower_char_def Let_def)

lemma is_ws_lower_char [simp]: "is_ws (lower_char c) = is_ws c"
  by (auto simp: is_ws_def lower_char_def Let_def)

lemma toLowerCase_idem [simp]: "toLowerCase (toLowerCase s) = toLowerCase s"
  by (simp add: toLowerCase_def)

lemma toLowerCase_append [simp]: "toLowerCase (s @ t) = toLowerCase s @ toLowerCase t"
  by (simp add: toLowerCase_def)

lemma toLowerCase_Nil [simp]: "toLowerCase [] = []"
  by (simp add: toLowerCase_def)

lemma toLowerCase_eq_Nil [simp]: "toLowerCase s = [] \<longleftrightarrow> s = []"
  by (simp add: toLowerCase_def)

lemma length_toLowerCase [simp]: "length (toLowerCase s) = length s"
  by (simp add: toLowerCase_def)

lemma dropWhile_ws_lower: "dropWhile is_ws (map lower_char s) = map lower_char (dropWhile is_ws s)"
  by (induction s) auto

lemma toLowerCase_trim: "toLowerCase (trim s) = trim (toLowerCase s)"
  by (simp add: toLowerCase_def trim_def rev_map dropWhile_ws_lower)

lemma hd_trim: "trim s \<noteq> [] \<Longrightarrow> \<not> is_ws (hd (trim s))"
proof -
  assume ne: "trim s \<noteq> []"
  define t where "t = dropWhile is_ws s"
  have t_ne: "t \<noteq> []"
    using ne unfolding trim_def t_def [symmetric] by auto
  have hd_t: "\<not> is_ws (hd t)" using t_ne hd_dropWhile [of is_ws s] by (simp add: t_def)
  obtain xs where "rev t = xs @ dropWhile is_ws (rev t)"
    by (metis takeWhile_dropWhile_id)
  then have "t = trim s @ rev xs"
    by (metis t_def trim_def rev_append rev_rev_ident)
  then have "hd t = hd (trim s)" using ne by simp
  with hd_t show ?thesis by simp
qed

lemma last_trim: "trim s \<noteq> [] \<Longrightarrow> \<not> is_ws (last (trim s))"
  using hd_dropWhile [of is_ws "rev (dropWhile is_ws s)"]
  by (auto simp: trim_def last_rev)

lemma set_dropWhile_subset: "set (dropWhile P xs) \<subseteq> set xs"
  by (auto dest: set_dropWhileD)

lemma set_trim: "set (trim s) \<subseteq> set s"
  unfolding trim_def set_rev
  by (metis set_dropWhile_subset set_rev subset_trans)

lemma trim_id: "s = [] \<or> (\<not> is_ws (hd s) \<and> \<not> is_ws (last s)) \<Longrightarrow> trim s = s"
proof (cases "s = []")
  case False
  assume "s = [] \<or> (\<not> is_ws (hd s) \<and> \<not> is_ws (last s))"
  with False have h: "\<not> is_ws (hd s)" and l: "\<not> is_ws (hd (rev s))"
    by (auto simp: hd_rev)
  have "dropWhile is_ws s = s" using h False by (cases s) auto
  moreover have "dropWhile is_ws (rev s) = rev s" using l False by (cases "rev s") auto
  ultimately show ?thesis by (simp add: trim_def)
qed (simp add: trim_def)

lemma trim_idem [simp]: "trim (trim s) = trim s"
  by (rule trim_id) (use hd_trim last_trim in blast)

lemma trim_no_ws: "\<forall>c \<in> set s. \<not> is_ws c \<Longrightarrow> trim s = s"
  by (rule trim_id) (auto dest: hd_in_set last_in_set)

lemma trim_eq_Nil: "trim s = [] \<longleftrightarrow> (\<forall>c \<in> set s. is_ws c)"
  by (auto simp: trim_def dropWhile_eq_Nil_conv dest: set_dropWhileD)
     (metis UnE set_append takeWhile_dropWhile_id set_takeWhileD)

lemma sublist_dropWhile: "sublist (dropWhile p s) s"
  by (metis sublist_appendI append_Nil2 takeWhile_dropWhile_id)

lemma sublist_rev_iff: "sublist (rev xs) (rev ys) \<longleftrightarrow> sublist xs ys"
  by (metis rev_append rev_rev_ident sublist_def append_assoc)

lemma sublist_trim: "sublist (trim s) s"
proof -
  have "sublist (rev (dropWhile is_ws (rev (dropWhile is_ws s)))) (dropWhile is_ws s)"
    by (metis rev_rev_ident sublist_dropWhile sublist_rev_iff)
  then show ?thesis unfolding trim_def
    using sublist_dropWhile sublist_order.order_trans by blast
qed

lemma trim_dropWhile_ws: "trim (dropWhile is_ws s) = trim s"
  by (induction s) (auto simp: trim_def)

lemma takeWhile_until: "c \<notin> set xs \<Longrightarrow> takeWhile (\<lambda>x. x \<noteq> c) (xs @ c # s) = xs"
  by (induction xs) auto

lemma dropWhile_until: "c \<notin> set xs \<Longrightarrow> dropWhile (\<lambda>x. x \<noteq> c) (xs @ c # s) = c # s"
  by (induction xs) auto

lemma length_trim: "length (trim s) \<le> length s"
  by (metis dual_order.trans length_dropWhile_le length_rev trim_def)

subsection \<open>Lemmas: splitting, joining, searching\<close>

lemma split_on_neq_Nil [simp]: "split_on sep s \<noteq> []"
  by (cases s) (auto split: list.splits)

lemma join_split_on: "join [sep] (split_on sep s) = s"
proof (induction s)
  case (Cons c s)
  then show ?case by (cases "split_on sep s" rule: list.exhaust) (auto, (case_tac x22; simp)+)
qed simp

lemma split_on_no_sep: "sep \<notin> set s \<Longrightarrow> split_on sep s = [s]"
  by (induction s) auto

lemma split_on_append_sep:
  "sep \<notin> set w \<Longrightarrow> split_on sep (w @ sep # s) = w # split_on sep s"
  by (induction w) (auto split: list.splits)

lemma split_on_join:
  "xs \<noteq> [] \<Longrightarrow> \<forall>x \<in> set xs. sep \<notin> set x \<Longrightarrow> split_on sep (join [sep] xs) = xs"
proof (induction "[sep]" xs rule: join.induct)
  case (3 x y ys)
  then show ?case by (simp add: split_on_append_sep)
qed (auto simp: split_on_no_sep)

lemma split_on_sep_free: "w \<in> set (split_on sep s) \<Longrightarrow> sep \<notin> set w"
proof (induction s arbitrary: w)
  case (Cons c s)
  then show ?case by (fastforce split: if_splits list.splits)
qed simp

lemma set_split_on: "w \<in> set (split_on sep s) \<Longrightarrow> set w \<subseteq> set s"
proof (induction s arbitrary: w)
  case (Cons c s)
  show ?case
  proof (cases "split_on sep s")
    case (Cons v vs)
    have "\<And>u. u \<in> set (v # vs) \<Longrightarrow> set u \<subseteq> set s" using Cons.IH Cons by auto
    with Cons Cons.prems show ?thesis by (fastforce split: if_splits)
  qed simp
qed simp

lemma set_join: "set (join sep ws) \<subseteq> set sep \<union> \<Union> (set ` set ws)"
  by (induction sep ws rule: join.induct) auto

lemma join_append_single:
  "xs \<noteq> [] \<Longrightarrow> join sep (xs @ [y]) = join sep xs @ sep @ y"
  by (induction sep xs rule: join.induct) auto

lemma index_of_Some:
  "index_of c s = Some i \<Longrightarrow> i < length s \<and> s ! i = c \<and> c \<notin> set (take i s)"
  by (induction s arbitrary: i) (auto split: if_splits)

lemma index_of_None [simp]: "index_of c s = None \<longleftrightarrow> c \<notin> set s"
  by (induction s) auto

lemma index_of_append [simp]: "c \<notin> set w \<Longrightarrow> index_of c (w @ c # s) = Some (length w)"
  by (induction w) auto

lemma last_index_of_None [simp]: "last_index_of c s = None \<longleftrightarrow> c \<notin> set s"
  by (induction s) (auto split: option.splits)

lemma last_index_of_append:
  "c \<notin> set s \<Longrightarrow> last_index_of c (w @ c # s) = Some (length w)"
proof (induction w)
  case Nil
  then have n: "last_index_of c s = None" by simp
  show ?case unfolding append_Nil last_index_of.simps n by simp
qed simp

lemma digit_char_digit: "d < 10 \<Longrightarrow> is_digit (digit_char d)"
  by (simp add: is_digit_def digit_char_def)

lemma digit_val_digit_char [simp]: "d < 10 \<Longrightarrow> digit_val (digit_char d) = d"
  by (simp add: digit_val_def digit_char_def)

lemma show_nat_neq_Nil [simp]: "show_nat n \<noteq> []"
  by (subst show_nat.simps) simp

lemma show_nat_digits: "c \<in> set (show_nat n) \<Longrightarrow> is_digit c"
proof (induction n rule: show_nat.induct)
  case (1 n)
  then show ?case
    by (cases "n < 10") (auto simp: show_nat.simps [of n] digit_char_digit)
qed

lemma nat_of_digits_snoc: "nat_of_digits (ds @ [c]) = 10 * nat_of_digits ds + digit_val c"
  by (simp add: nat_of_digits_def)

lemma nat_of_digits_show [simp]: "nat_of_digits (show_nat n) = n"
proof (induction n rule: show_nat.induct)
  case (1 n)
  show ?case
  proof (cases "n < 10")
    case True
    then show ?thesis by (simp add: show_nat.simps [of n] nat_of_digits_def)
  next
    case False
    with 1 have "nat_of_digits (show_nat (n div 10)) = n div 10" by simp
    with False show ?thesis by (simp add: show_nat.simps [of n] nat_of_digits_snoc)
  qed
qed

subsection \<open>Lemmas: arrays and maps\<close>

lemma set_uniq_acc:
  "distinct acc \<Longrightarrow>
     distinct (foldl (\<lambda>acc x. if x \<in> set acc then acc else x # acc) acc xs)
     \<and> set (foldl (\<lambda>acc x. if x \<in> set acc then acc else x # acc) acc xs) = set acc \<union> set xs"
  by (induction xs arbitrary: acc) auto

lemma set_set_uniq [simp]: "set (set_uniq xs) = set xs"
  by (simp add: set_uniq_def set_uniq_acc)

lemma distinct_set_uniq [simp]: "distinct (set_uniq xs)"
  by (simp add: set_uniq_def set_uniq_acc)

lemma map_of_group_into:
  "map_of (group_into key xs) k =
     (if k \<in> key ` set xs then Some (filter (\<lambda>x. key x = k) xs) else None)"
proof (induction xs rule: rev_induct)
  case (snoc x xs)
  then show ?case
    by (auto simp: group_into_def group_push_def update_conv')
       (metis (mono_tags, lifting) filter_False image_eqI)
qed (simp add: group_into_def)

lemma find_by_key: "distinct (map f xs) \<Longrightarrow> x \<in> set xs \<Longrightarrow> find (\<lambda>y. f y = f x) xs = Some x"
  by (induction xs) auto

lemma find_mem: "find P xs = Some x \<Longrightarrow> x \<in> set xs \<and> P x"
  by (auto simp: find_Some_iff)

lemma find_exists: "x \<in> set xs \<Longrightarrow> P x \<Longrightarrow> \<exists>y. find P xs = Some y"
  by (induction xs) auto

lemma find_snoc: "find P (xs @ [x]) = (case find P xs of None \<Rightarrow> if P x then Some x else None | Some y \<Rightarrow> Some y)"
  by (induction xs) auto

lemma list_ex_find: "list_ex P xs \<longleftrightarrow> find P xs \<noteq> None"
  by (induction xs) auto

lemma distinct_key_eq: "distinct (map f xs) \<Longrightarrow> x \<in> set xs \<Longrightarrow> y \<in> set xs \<Longrightarrow> f x = f y \<Longrightarrow> x = y"
  by (simp add: distinct_map inj_on_def)

lemma nullish_group_into: "nullish (map_of (group_into key xs) k) [] = filter (\<lambda>x. key x = k) xs"
proof (cases "k \<in> key ` set xs")
  case False
  then have "filter (\<lambda>x. key x = k) xs = []" by (auto simp: filter_empty_conv)
  with False show ?thesis by (simp add: map_of_group_into)
qed (simp add: map_of_group_into)

lemma distinct_fst_group_into: "distinct (map fst (group_into key xs))"
  by (induction xs rule: rev_induct) (auto simp: group_into_def group_push_def distinct_update)

lemma map_of_put_absent:
  "map_of (put_absent k v m) j = (if map_of m j = None \<and> j = k then Some v else map_of m j)"
  by (auto simp: put_absent_def update_conv')

lemma distinct_put_absent: "distinct (map fst m) \<Longrightarrow> distinct (map fst (put_absent k v m))"
  by (simp add: put_absent_def distinct_update)

lemma put_absent_new: "k \<notin> fst ` set m \<Longrightarrow> put_absent k v m = m @ [(k, v)]"
proof -
  assume new: "k \<notin> fst ` set m"
  then have "AList.update k v m = m @ [(k, v)]" by (induction m) auto
  with new show ?thesis by (simp add: put_absent_def map_of_eq_None_iff)
qed

lemma put_absent_old: "k \<in> fst ` set m \<Longrightarrow> put_absent k v m = m"
  by (simp add: put_absent_def map_of_eq_None_iff)

lemma validation_of_iff [simp]: "fst (validation_of es) \<longleftrightarrow> es = []"
  by (simp add: validation_of_def)

lemma snd_validation_of [simp]: "snd (validation_of es) = es"
  by (simp add: validation_of_def)

end
