(* ===== verification/Regex.thy ===== *)
theory Regex
  imports Prelude
begin

text \<open>
  The regular expressions of the language, for the operators the webmail code uses. A pattern
  literal of the source becomes a term of \<open>rx\<close>; \<open>rx_ms\<close> is the backtracking
  matcher: it lists every way to match at the current position in the order in which the engine
  tries them, so the engine's answer is the head of the list. \<open>rx_rel\<close> says declaratively which
  matches exist, and \<open>rx_ms_iff\<close> that the matcher finds exactly these. On top of it stand the
  string methods \<open>test\<close>, \<open>match\<close> with the \<open>g\<close> flag, \<open>match\<close> without it and \<open>replace\<close> with the
  \<open>g\<close> flag. The \<open>i\<close> flag is part of the character classes of a pattern.
\<close>

datatype rx =
    RxEps
  | RxBol
  | RxEol
  | RxCls "char \<Rightarrow> bool"
  | RxSeq rx rx
  | RxAlt rx rx
  | RxStar rx
  | RxLazy rx

subsection \<open>The matcher\<close>

definition then_match :: "string \<times> string \<Rightarrow> (string \<times> string) list \<Rightarrow> (string \<times> string) list" where
  "then_match m ms = map (\<lambda>(v, r). (fst m @ v, r)) ms"

text \<open>
  The flag tells whether the position is the start of the input. An iteration of a star that
  consumes nothing is rejected, as the language specifies.
\<close>

function rx_ms :: "bool \<Rightarrow> rx \<Rightarrow> string \<Rightarrow> (string \<times> string) list" where
  "rx_ms b RxEps s = [([], s)]"
| "rx_ms b RxBol s = (if b then [([], s)] else [])"
| "rx_ms b RxEol s = (if s = [] then [([], s)] else [])"
| "rx_ms b (RxCls p) s = (case s of [] \<Rightarrow> [] | c # cs \<Rightarrow> if p c then [([c], cs)] else [])"
| "rx_ms b (RxSeq x y) s =
     concat (map (\<lambda>m. then_match m (rx_ms (b \<and> fst m = []) y (snd m))) (rx_ms b x s))"
| "rx_ms b (RxAlt x y) s = rx_ms b x s @ rx_ms b y s"
| "rx_ms b (RxStar x) s =
     concat (map (\<lambda>m. if length (snd m) < length s
                      then then_match m (rx_ms False (RxStar x) (snd m)) else [])
       (rx_ms b x s)) @ [([], s)]"
| "rx_ms b (RxLazy x) s =
     ([], s) # concat (map (\<lambda>m. if length (snd m) < length s
                      then then_match m (rx_ms False (RxLazy x) (snd m)) else [])
       (rx_ms b x s))"
  by pat_completeness auto
termination
  by (relation "measures [\<lambda>(b, r, s). size r, \<lambda>(b, r, s). length s]") auto

declare rx_ms.simps(7,8) [simp del]

text \<open>Derived operators: a literal, \<open>+\<close>, \<open>?\<close>, \<open>{n}\<close> and \<open>{n,}\<close>.\<close>

definition rx_char :: "char \<Rightarrow> rx" where
  "rx_char c = RxCls (\<lambda>x. x = c)"

definition rx_plus :: "rx \<Rightarrow> rx" where
  "rx_plus r = RxSeq r (RxStar r)"

definition rx_opt :: "rx \<Rightarrow> rx" where
  "rx_opt r = RxAlt r RxEps"

fun rx_times :: "nat \<Rightarrow> rx \<Rightarrow> rx" where
  "rx_times 0 r = RxEps"
| "rx_times (Suc n) r = RxSeq r (rx_times n r)"

definition rx_at_least :: "nat \<Rightarrow> rx \<Rightarrow> rx" where
  "rx_at_least n r = RxSeq (rx_times n r) (RxStar r)"

fun rx_lit :: "string \<Rightarrow> rx" where
  "rx_lit [] = RxEps"
| "rx_lit (c # cs) = RxSeq (rx_char c) (rx_lit cs)"

text \<open>A literal under the \<open>i\<close> flag; the literals of the source are ASCII.\<close>

fun rx_lit_i :: "string \<Rightarrow> rx" where
  "rx_lit_i [] = RxEps"
| "rx_lit_i (c # cs) = RxSeq (RxCls (\<lambda>x. lower_char x = lower_char c)) (rx_lit_i cs)"

subsection \<open>The declarative reading\<close>

inductive rx_rel :: "bool \<Rightarrow> rx \<Rightarrow> string \<Rightarrow> string \<Rightarrow> bool" where
  rel_eps: "rx_rel b RxEps [] r"
| rel_bol: "rx_rel True RxBol [] r"
| rel_eol: "rx_rel b RxEol [] []"
| rel_cls: "p c \<Longrightarrow> rx_rel b (RxCls p) [c] r"
| rel_seq: "rx_rel b x u (v @ r) \<Longrightarrow> rx_rel (b \<and> u = []) y v r \<Longrightarrow> rx_rel b (RxSeq x y) (u @ v) r"
| rel_alt1: "rx_rel b x u r \<Longrightarrow> rx_rel b (RxAlt x y) u r"
| rel_alt2: "rx_rel b y u r \<Longrightarrow> rx_rel b (RxAlt x y) u r"
| rel_star0: "rx_rel b (RxStar x) [] r"
| rel_star1: "u \<noteq> [] \<Longrightarrow> rx_rel b x u (v @ r) \<Longrightarrow> rx_rel False (RxStar x) v r
    \<Longrightarrow> rx_rel b (RxStar x) (u @ v) r"
| rel_lazy0: "rx_rel b (RxLazy x) [] r"
| rel_lazy1: "u \<noteq> [] \<Longrightarrow> rx_rel b x u (v @ r) \<Longrightarrow> rx_rel False (RxLazy x) v r
    \<Longrightarrow> rx_rel b (RxLazy x) (u @ v) r"

inductive_simps rx_rel_simps:
  "rx_rel b RxEps u r" "rx_rel b RxBol u r" "rx_rel b RxEol u r" "rx_rel b (RxCls p) u r"
  "rx_rel b (RxSeq x y) u r" "rx_rel b (RxAlt x y) u r"

inductive_cases rx_rel_starE: "rx_rel b (RxStar x) u r"
inductive_cases rx_rel_lazyE: "rx_rel b (RxLazy x) u r"

lemma rx_rel_seqE:
  assumes "rx_rel b (RxSeq x y) w r"
  obtains u v where "w = u @ v" and "rx_rel b x u (v @ r)" and "rx_rel (b \<and> u = []) y v r"
  using assms by (auto simp: rx_rel_simps)

lemma mem_then_match:
  "(u, r) \<in> set (then_match m ms) \<longleftrightarrow> (\<exists>v. u = fst m @ v \<and> (v, r) \<in> set ms)"
  by (force simp: then_match_def)

lemma rx_ms_sound: "(u, r) \<in> set (rx_ms b x s) \<Longrightarrow> s = u @ r \<and> rx_rel b x u r"
proof (induction b x s arbitrary: u r rule: rx_ms.induct)
  case (5 b x y s)
  then obtain m v where m: "m \<in> set (rx_ms b x s)" and u: "u = fst m @ v"
    and v: "(v, r) \<in> set (rx_ms (b \<and> fst m = []) y (snd m))"
    by (auto simp: mem_then_match)
  from 5(1) [of "fst m" "snd m"] m have 1: "s = fst m @ snd m" "rx_rel b x (fst m) (snd m)" by auto
  from 5(2) [OF m v] have 2: "snd m = v @ r" "rx_rel (b \<and> fst m = []) y v r" by auto
  show ?case using 1 2 u by (auto intro: rel_seq)
next
  case (7 b x s)
  show ?case
  proof (cases "(u, r) = ([], s)")
    case False
    with 7(3) obtain m v where m: "m \<in> set (rx_ms b x s)" and l: "length (snd m) < length s"
      and u: "u = fst m @ v" and v: "(v, r) \<in> set (rx_ms False (RxStar x) (snd m))"
      by (auto simp: rx_ms.simps(7) [of b x s] mem_then_match split: if_splits)
    from 7(1) [of "fst m" "snd m"] m have 1: "s = fst m @ snd m" "rx_rel b x (fst m) (snd m)" by auto
    from 7(2) [OF m l v] have 2: "snd m = v @ r" "rx_rel False (RxStar x) v r" by auto
    have "fst m \<noteq> []" using 1 l by auto
    then show ?thesis using 1 2 u by (auto intro: rel_star1)
  qed (auto intro: rel_star0)
next
  case (8 b x s)
  show ?case
  proof (cases "(u, r) = ([], s)")
    case False
    with 8(3) obtain m v where m: "m \<in> set (rx_ms b x s)" and l: "length (snd m) < length s"
      and u: "u = fst m @ v" and v: "(v, r) \<in> set (rx_ms False (RxLazy x) (snd m))"
      by (auto simp: rx_ms.simps(8) [of b x s] mem_then_match split: if_splits)
    from 8(1) [of "fst m" "snd m"] m have 1: "s = fst m @ snd m" "rx_rel b x (fst m) (snd m)" by auto
    from 8(2) [OF m l v] have 2: "snd m = v @ r" "rx_rel False (RxLazy x) v r" by auto
    have "fst m \<noteq> []" using 1 l by auto
    then show ?thesis using 1 2 u by (auto intro: rel_lazy1)
  qed (auto intro: rel_lazy0)
qed (auto split: list.splits if_splits intro: rx_rel.intros)

lemma rx_ms_complete: "rx_rel b x u r \<Longrightarrow> (u, r) \<in> set (rx_ms b x (u @ r))"
proof (induction rule: rx_rel.induct)
  case (rel_seq b x u v r y)
  then show ?case by (force simp: mem_then_match)
next
  case (rel_star1 u b x v r)
  then show ?case by (force simp: rx_ms.simps(7) [of b x "u @ v @ r"] mem_then_match)
next
  case (rel_lazy1 u b x v r)
  then show ?case by (force simp: rx_ms.simps(8) [of b x "u @ v @ r"] mem_then_match)
qed (auto simp: rx_ms.simps(7,8))

text \<open>The matcher finds exactly the declarative matches.\<close>

lemma rx_ms_iff: "(u, r) \<in> set (rx_ms b x s) \<longleftrightarrow> s = u @ r \<and> rx_rel b x u r"
  using rx_ms_sound rx_ms_complete by blast

lemma rx_ms_split: "m \<in> set (rx_ms b x s) \<Longrightarrow> s = fst m @ snd m"
  using rx_ms_sound [of "fst m" "snd m"] by simp

lemma rx_ms_hd_split: "rx_ms b x s = (u, r) # ms \<Longrightarrow> s = u @ r"
  using rx_ms_split [of "(u, r)" b x s] by simp

subsection \<open>Searching, matching and replacing\<close>

text \<open>The leftmost match: the text before it, the match and the rest.\<close>

fun rx_exec :: "bool \<Rightarrow> rx \<Rightarrow> string \<Rightarrow> (string \<times> string \<times> string) option" where
  "rx_exec b x [] = (case rx_ms b x [] of [] \<Rightarrow> None | (u, r) # _ \<Rightarrow> Some ([], u, r))"
| "rx_exec b x (c # cs) =
     (case rx_ms b x (c # cs) of
        (u, r) # _ \<Rightarrow> Some ([], u, r)
      | [] \<Rightarrow> map_option (\<lambda>(p, u, r). (c # p, u, r)) (rx_exec False x cs))"

definition rx_test :: "rx \<Rightarrow> string \<Rightarrow> bool" where
  "rx_test x s = (rx_exec True x s \<noteq> None)"

text \<open>
  \<open>s.match(/.../g)\<close> and \<open>s.replace(/.../g, w)\<close> scan from left to right; after an empty match
  the position advances by one.
\<close>

function rx_match_all :: "bool \<Rightarrow> rx \<Rightarrow> string \<Rightarrow> string list" where
  "rx_match_all b x s =
     (case rx_ms b x s of
        (u, r) # _ \<Rightarrow>
          (if u = [] then u # (case s of [] \<Rightarrow> [] | c # cs \<Rightarrow> rx_match_all False x cs)
           else u # rx_match_all False x r)
      | [] \<Rightarrow> (case s of [] \<Rightarrow> [] | c # cs \<Rightarrow> rx_match_all False x cs))"
  by pat_completeness auto
termination
  by (relation "measure (\<lambda>(b, x, s). length s)") (auto dest: rx_ms_hd_split)

function rx_replace :: "bool \<Rightarrow> rx \<Rightarrow> string \<Rightarrow> string \<Rightarrow> string" where
  "rx_replace b x w s =
     (case rx_ms b x s of
        (u, r) # _ \<Rightarrow>
          (if u = [] then w @ (case s of [] \<Rightarrow> [] | c # cs \<Rightarrow> c # rx_replace False x w cs)
           else w @ rx_replace False x w r)
      | [] \<Rightarrow> (case s of [] \<Rightarrow> [] | c # cs \<Rightarrow> c # rx_replace False x w cs))"
  by pat_completeness auto
termination
  by (relation "measure (\<lambda>(b, x, w, s). length s)") (auto dest: rx_ms_hd_split)

declare rx_match_all.simps [simp del] rx_replace.simps [simp del]

subsection \<open>Lemmas: what the string methods compute\<close>

lemma then_match_Nil [simp]: "then_match m [] = []"
  by (simp add: then_match_def)

lemma then_match_Cons [simp]: "then_match m (x # xs) = (fst m @ fst x, snd x) # then_match m xs"
  by (simp add: then_match_def split: prod.splits)

lemma then_match_append [simp]: "then_match m (xs @ ys) = then_match m xs @ then_match m ys"
  by (simp add: then_match_def)

lemma then_match_eq_Nil [simp]: "then_match m ms = [] \<longleftrightarrow> ms = []"
  by (simp add: then_match_def)

lemma then_match_empty [simp]: "then_match ([], s) ms = ms"
  by (induction ms) auto

lemma then_match_then_match:
  "then_match m (then_match k ms) = then_match (fst m @ fst k, snd k) ms"
  by (induction ms) auto

lemma rx_exec_Some:
  "rx_exec b x s = Some (p, u, r) \<Longrightarrow> s = p @ u @ r \<and> rx_rel (b \<and> p = []) x u r"
proof (induction b x s arbitrary: p rule: rx_exec.induct)
  case (1 b x)
  then obtain ms where "rx_ms b x [] = (u, r) # ms" and "p = []"
    by (auto split: list.splits prod.splits)
  then show ?case using rx_ms_sound [of u r b x "[]"] by auto
next
  case (2 b x c cs)
  show ?case
  proof (cases "rx_ms b x (c # cs)")
    case Nil
    with 2 show ?thesis by auto
  next
    case (Cons m ms)
    with 2 have "p = []" "m = (u, r)" by (auto split: prod.splits)
    with Cons show ?thesis using rx_ms_sound [of u r b x "c # cs"] by simp
  qed
qed

lemma rx_exec_None:
  "rx_exec b x s = None \<Longrightarrow> s = p @ u @ r \<Longrightarrow> \<not> rx_rel (b \<and> p = []) x u r"
proof (induction b x s arbitrary: p rule: rx_exec.induct)
  case (1 b x)
  then show ?case by (auto split: list.splits prod.splits dest: rx_ms_complete)
next
  case (2 b x c cs)
  have n: "rx_ms b x (c # cs) = []" and e: "rx_exec False x cs = None"
    using 2(2) by (auto split: list.splits prod.splits)
  show ?case
  proof (cases p)
    case Nil
    with n 2(3) show ?thesis using rx_ms_complete [of b x u r] by auto
  next
    case (Cons a p')
    with 2(1) [OF n e, of p'] 2(3) show ?thesis by auto
  qed
qed

text \<open>\<open>test\<close> is true exactly if the pattern matches somewhere.\<close>

lemma rx_test_iff: "rx_test x s \<longleftrightarrow> (\<exists>p u r. s = p @ u @ r \<and> rx_rel (p = []) x u r)"
proof
  assume "rx_test x s"
  then obtain p u r where "rx_exec True x s = Some (p, u, r)" by (auto simp: rx_test_def)
  from rx_exec_Some [OF this] show "\<exists>p u r. s = p @ u @ r \<and> rx_rel (p = []) x u r" by auto
next
  assume "\<exists>p u r. s = p @ u @ r \<and> rx_rel (p = []) x u r"
  then obtain p u r where "s = p @ u @ r" and "rx_rel (p = []) x u r" by blast
  then have "rx_exec True x s \<noteq> None" using rx_exec_None [of True x s p u r] by metis
  then show "rx_test x s" by (simp add: rx_test_def)
qed

lemma rx_rel_bol_seq: "rx_rel b (RxSeq RxBol x) u r \<longleftrightarrow> b \<and> rx_rel True x u r"
  by (auto simp: rx_rel_simps)

lemma rx_test_anchored: "rx_test (RxSeq RxBol x) s \<longleftrightarrow> rx_ms True x s \<noteq> []"
proof -
  have "rx_test (RxSeq RxBol x) s \<longleftrightarrow> (\<exists>u r. s = u @ r \<and> rx_rel True x u r)"
    by (auto simp: rx_test_iff rx_rel_bol_seq)
  also have "\<dots> \<longleftrightarrow> (\<exists>u r. (u, r) \<in> set (rx_ms True x s))"
    by (simp add: rx_ms_iff)
  also have "\<dots> \<longleftrightarrow> rx_ms True x s \<noteq> []"
    by (cases "rx_ms True x s") auto
  finally show ?thesis .
qed

lemma rx_test_cls: "rx_test (RxCls p) s \<longleftrightarrow> (\<exists>c \<in> set s. p c)"
  by (auto simp: rx_test_iff rx_rel_simps) (metis append_Cons append_Nil split_list)

lemma rx_rel_star_cls: "rx_rel b (RxStar (RxCls p)) u r \<longleftrightarrow> (\<forall>c \<in> set u. p c)"
proof
  show "rx_rel b (RxStar (RxCls p)) u r \<Longrightarrow> \<forall>c \<in> set u. p c"
    by (induction b "RxStar (RxCls p)" u r rule: rx_rel.induct) (auto simp: rx_rel_simps)
  show "\<forall>c \<in> set u. p c \<Longrightarrow> rx_rel b (RxStar (RxCls p)) u r"
  proof (induction u arbitrary: b)
    case (Cons c u)
    then have "rx_rel b (RxStar (RxCls p)) ([c] @ u) r"
      by (intro rel_star1) (auto intro: rel_cls)
    then show ?case by simp
  qed (auto intro: rel_star0)
qed

lemma rx_rel_plus_cls: "rx_rel b (rx_plus (RxCls p)) u r \<longleftrightarrow> u \<noteq> [] \<and> (\<forall>c \<in> set u. p c)"
  by (auto simp: rx_plus_def rx_rel_simps rx_rel_star_cls)
     (metis append_Cons append_Nil list.exhaust list.set_intros)

lemma rx_rel_char: "rx_rel b (rx_char c) u r \<longleftrightarrow> u = [c]"
  by (auto simp: rx_char_def rx_rel_simps)

lemma rx_ms_star_cls_Cons:
  "rx_ms b (RxStar (RxCls p)) (c # cs) =
     (if p c then then_match ([c], cs) (rx_ms False (RxStar (RxCls p)) cs) else []) @ [([], c # cs)]"
  by (simp add: rx_ms.simps(7))

lemma rx_ms_star_cls_Nil: "rx_ms b (RxStar (RxCls p)) [] = [([], [])]"
  by (simp add: rx_ms.simps(7))

text \<open>
  A greedy run of a class followed by something that cannot start in that class is
  deterministic: the run is as long as possible.
\<close>

lemma rx_ms_star_cls_seq:
  assumes "\<And>b c cs. p c \<Longrightarrow> rx_ms b y (c # cs) = []"
  shows "rx_ms b (RxSeq (RxStar (RxCls p)) y) s =
    then_match (takeWhile p s, dropWhile p s)
      (rx_ms (b \<and> takeWhile p s = []) y (dropWhile p s))"
proof (induction s arbitrary: b)
  case Nil
  then show ?case by (simp add: rx_ms_star_cls_Nil)
next
  case (Cons c s)
  show ?case
  proof (cases "p c")
    case True
    let ?ms = "rx_ms False (RxStar (RxCls p)) s"
    have "concat (map (\<lambda>m. then_match m (rx_ms (b \<and> fst m = []) y (snd m))) (then_match ([c], s) ms))
        = then_match ([c], s) (concat (map (\<lambda>m. then_match m (rx_ms (False \<and> fst m = []) y (snd m))) ms))"
      for ms by (induction ms) (auto simp: then_match_then_match)
    from this [of ?ms] have "rx_ms b (RxSeq (RxStar (RxCls p)) y) (c # s)
        = then_match ([c], s) (rx_ms False (RxSeq (RxStar (RxCls p)) y) s)"
      using True assms by (simp add: rx_ms_star_cls_Cons)
    then show ?thesis unfolding Cons.IH
      using True by (simp add: then_match_then_match del: rx_ms.simps(5))
  next
    case False
    then show ?thesis by (simp add: rx_ms_star_cls_Cons)
  qed
qed

lemma hd_rx_ms_star_cls: "\<exists>ms. rx_ms b (RxStar (RxCls p)) s = (takeWhile p s, dropWhile p s) # ms"
proof (induction s arbitrary: b)
  case (Cons c s)
  from Cons [of False] show ?case by (auto simp: rx_ms_star_cls_Cons)
qed (simp add: rx_ms_star_cls_Nil)

lemma hd_rx_ms_plus_cls:
  "p c \<Longrightarrow> \<exists>ms. rx_ms b (rx_plus (RxCls p)) (c # s) = (c # takeWhile p s, dropWhile p s) # ms"
  using hd_rx_ms_star_cls [of False p s] by (auto simp: rx_plus_def)

lemma rx_ms_plus_cls_no: "\<not> p c \<Longrightarrow> rx_ms b (rx_plus (RxCls p)) (c # s) = []"
  by (simp add: rx_plus_def)

lemma rx_ms_plus_cls_Nil: "rx_ms b (rx_plus (RxCls p)) [] = []"
  by (simp add: rx_plus_def)

text \<open>\<open>s.replace(/[...]/g, w)\<close> works character by character.\<close>

lemma rx_replace_cls:
  "rx_replace b (RxCls p) w s = concat (map (\<lambda>c. if p c then w else [c]) s)"
proof (induction s arbitrary: b)
  case (Cons c s)
  then show ?case by (simp add: rx_replace.simps [of b "RxCls p" w "c # s"])
qed (simp add: rx_replace.simps)

text \<open>\<open>s.replace(/[...]+/g, w)\<close> replaces each maximal run.\<close>

function collapse_runs :: "(char \<Rightarrow> bool) \<Rightarrow> string \<Rightarrow> string \<Rightarrow> string" where
  "collapse_runs p w [] = []"
| "collapse_runs p w (c # cs) =
     (if p c then w @ collapse_runs p w (dropWhile p cs) else c # collapse_runs p w cs)"
  by pat_completeness auto
termination
  by (relation "measure (\<lambda>(p, w, s). length s)") (auto simp: less_Suc_eq_le length_dropWhile_le)

lemma rx_replace_plus_cls: "rx_replace b (rx_plus (RxCls p)) w s = collapse_runs p w s"
proof (induction p w s arbitrary: b rule: collapse_runs.induct)
  case (1 p w)
  then show ?case by (simp add: rx_replace.simps [of b] rx_ms_plus_cls_Nil)
next
  case (2 p w c cs)
  show ?case
  proof (cases "p c")
    case True
    from hd_rx_ms_plus_cls [of p c b cs, OF this] obtain ms where
      "rx_ms b (rx_plus (RxCls p)) (c # cs) = (c # takeWhile p cs, dropWhile p cs) # ms" by blast
    with True 2(1) show ?thesis by (simp add: rx_replace.simps [of b])
  next
    case False
    with 2(2) show ?thesis by (simp add: rx_replace.simps [of b] rx_ms_plus_cls_no)
  qed
qed

lemma set_collapse_runs: "set (collapse_runs p w s) \<subseteq> {c \<in> set s. \<not> p c} \<union> set w"
proof (induction p w s rule: collapse_runs.induct)
  case (2 p w c cs)
  then show ?case using set_dropWhile_subset [of p cs] by (cases "p c") auto
qed simp

lemma collapse_runs_dropWhile_head: "p c \<Longrightarrow> \<not> prefix [c] (collapse_runs p [c] (dropWhile p s))"
  by (induction s) auto

text \<open>A run is replaced by one character, so that character never occurs twice in a row.\<close>

lemma collapse_runs_no_double: "p c \<Longrightarrow> \<not> sublist [c, c] (collapse_runs p [c] s)"
proof (induction p "[c]" s rule: collapse_runs.induct)
  case (2 p d cs)
  show ?case
  proof (cases "p d")
    case True
    with 2 collapse_runs_dropWhile_head [of p c cs] show ?thesis by (simp add: sublist_Cons_right)
  next
    case False
    with 2 have "d \<noteq> c" by auto
    with False 2 show ?thesis by (simp add: sublist_Cons_right)
  qed
qed simp

lemma rx_match_all_nomatch:
  "rx_ms b x (c # cs) = [] \<Longrightarrow> rx_match_all b x (c # cs) = rx_match_all False x cs"
  by (simp add: rx_match_all.simps [of b])

lemma rx_match_all_hit:
  "rx_ms b x s = (u, r) # ms \<Longrightarrow> u \<noteq> [] \<Longrightarrow> rx_match_all b x s = u # rx_match_all False x r"
  by (simp add: rx_match_all.simps [of b])

lemma rx_match_all_sound:
  "m \<in> set (rx_match_all b x s) \<Longrightarrow> \<exists>b p r. s = p @ m @ r \<and> rx_rel b x m r"
proof (induction b x s rule: rx_match_all.induct)
  case (1 b x s)
  show ?case
  proof (cases "rx_ms b x s")
    case Nil
    then obtain c cs where s: "s = c # cs" and "m \<in> set (rx_match_all False x cs)"
      using 1(4) by (auto simp: rx_match_all.simps [of b x s] split: list.splits)
    then show ?thesis using 1(1) [OF Nil s] by (metis append_Cons)
  next
    case (Cons k ms)
    obtain u r where k: "(u, r) = k" by (metis surj_pair)
    have sound: "s = u @ r" "rx_rel b x u r"
      using rx_ms_sound [of u r b x s] Cons k by auto
    consider (hit) "m = u" | (empty) c cs where "u = []" "s = c # cs" "m \<in> set (rx_match_all False x cs)"
      | (next_one) "u \<noteq> []" "m \<in> set (rx_match_all False x r)"
      using 1(4) Cons unfolding k [symmetric]
      by (auto simp: rx_match_all.simps [of b x s] split: if_splits list.splits)
    then show ?thesis
    proof cases
      case hit
      then show ?thesis using sound by (metis append_Nil)
    next
      case empty
      with 1(2) [OF Cons k empty(1,2,3)] show ?thesis by (metis append_Cons)
    next
      case next_one
      with 1(3) [OF Cons k next_one] sound show ?thesis by (metis append_assoc)
    qed
  qed
qed

text \<open>The deterministic case for \<open>[...]+\<close>, and its use with a closing delimiter.\<close>

lemma rx_ms_plus_cls_seq:
  assumes "\<And>b c cs. p c \<Longrightarrow> rx_ms b y (c # cs) = []"
  shows "rx_ms b (RxSeq (rx_plus (RxCls p)) y) (c # s) =
    (if p c then then_match (c # takeWhile p s, dropWhile p s) (rx_ms False y (dropWhile p s)) else [])"
proof (cases "p c")
  case True
  let ?ms = "rx_ms False (RxStar (RxCls p)) s"
  have "concat (map (\<lambda>m. then_match m (rx_ms (b \<and> fst m = []) y (snd m))) (then_match ([c], s) ms))
      = then_match ([c], s) (concat (map (\<lambda>m. then_match m (rx_ms (False \<and> fst m = []) y (snd m))) ms))"
    for ms by (induction ms) (auto simp: then_match_then_match)
  from this [of ?ms] have "rx_ms b (RxSeq (rx_plus (RxCls p)) y) (c # s)
      = then_match ([c], s) (rx_ms False (RxSeq (RxStar (RxCls p)) y) s)"
    using True by (simp add: rx_plus_def)
  then show ?thesis
    using True rx_ms_star_cls_seq [of p y False s] assms
    by (simp add: then_match_then_match del: rx_ms.simps(5))
qed (simp add: rx_plus_def)

lemma rx_ms_char_Cons [simp]:
  "rx_ms b (rx_char d) (c # s) = (if c = d then [([c], s)] else [])"
  by (simp add: rx_char_def)

lemma rx_ms_char_Nil [simp]: "rx_ms b (rx_char d) [] = []"
  by (simp add: rx_char_def)

lemma rx_ms_seq_char_Cons [simp]:
  "rx_ms b (RxSeq (rx_char d) y) (c # s) = (if c = d then then_match ([c], s) (rx_ms False y s) else [])"
  by simp

lemma rx_ms_seq_char_Nil [simp]: "rx_ms b (RxSeq (rx_char d) y) [] = []"
  by simp

text \<open>A pattern that starts with \<open>^\<close> matches at the start only, so \<open>replace\<close> acts once.\<close>

lemma rx_replace_bol_False: "rx_replace False (RxSeq RxBol x) w s = s"
  by (induction s) (simp_all add: rx_replace.simps [of False])

lemma rx_replace_bol_hit:
  "rx_ms True (RxSeq RxBol x) s = (u, r) # ms \<Longrightarrow> u \<noteq> [] \<Longrightarrow> rx_replace True (RxSeq RxBol x) w s = w @ r"
  by (simp add: rx_replace.simps [of True] rx_replace_bol_False)

lemma rx_replace_bol_miss:
  "rx_ms True (RxSeq RxBol x) s = [] \<Longrightarrow> rx_replace True (RxSeq RxBol x) w s = s"
  by (cases s) (simp_all add: rx_replace.simps [of True] rx_replace_bol_False)

end
