(* ===== verification/JsValue.thy ===== *)
theory JsValue
  imports Complex_Main Prelude Regex
begin

text \<open>
  Dynamically typed values. Rule conditions and parsed headers reach the code as \<open>unknown\<close> or
  \<open>any\<close>; they are JSON data, so a value is \<open>null\<close>, \<open>undefined\<close>, a boolean, a number, a string,
  an array or a plain object with its own properties in order.

  A number is NaN, an infinity or a rational: the decimal literals and sizes that occur are kept
  exact, the rounding of literals to binary64 is not modelled. \<open>Number(s)\<close> follows the grammar of
  numeric strings; \<open>String(v)\<close> prints numbers without exponent, which is what the language does
  for magnitudes from 1e-6 up to 1e21.
\<close>

datatype js_error = TypeError | RangeError

datatype jnum = JNaN | JInf bool | JFin rat

datatype jsval =
    JNull
  | JUndef
  | JBool bool
  | JNum jnum
  | JStr string
  | JArr "jsval list"
  | JObj "(string \<times> jsval) list"

subsection \<open>Conversions\<close>

fun frac_digits :: "nat \<Rightarrow> rat \<Rightarrow> string" where
  "frac_digits 0 q = []"
| "frac_digits (Suc n) q =
     (if q = 0 then []
      else let d = \<lfloor>10 * q\<rfloor> in digit_char (nat d) # frac_digits n (10 * q - of_int d))"

fun num_to_string :: "jnum \<Rightarrow> string" where
  "num_to_string JNaN = ''NaN''"
| "num_to_string (JInf pos) = (if pos then ''Infinity'' else ''-Infinity'')"
| "num_to_string (JFin q) =
     (let a = \<bar>q\<bar>; i = \<lfloor>a\<rfloor>; f = a - of_int i in
        (if q < 0 then ''-'' else []) @ show_nat (nat i)
          @ (if f = 0 then [] else CHR ''.'' # frac_digits 17 f))"

text \<open>\<open>String(v)\<close>: an array joins its elements by a comma and prints \<open>null\<close> elements as nothing.\<close>

fun is_nullish :: "jsval \<Rightarrow> bool" where
  "is_nullish JNull = True"
| "is_nullish JUndef = True"
| "is_nullish _ = False"

fun js_String :: "jsval \<Rightarrow> string" where
  "js_String JNull = ''null''"
| "js_String JUndef = ''undefined''"
| "js_String (JBool b) = (if b then ''true'' else ''false'')"
| "js_String (JNum n) = num_to_string n"
| "js_String (JStr s) = s"
| "js_String (JArr xs) = join '','' (map (\<lambda>x. if is_nullish x then [] else js_String x) xs)"
| "js_String (JObj kvs) = ''[object Object]''"

fun take_sign :: "string \<Rightarrow> int \<times> string" where
  "take_sign [] = (1, [])"
| "take_sign (c # cs) =
     (if c = CHR ''-'' then (-1, cs) else if c = CHR ''+'' then (1, cs) else (1, c # cs))"

fun parse_exponent :: "string \<Rightarrow> int option" where
  "parse_exponent [] = Some 0"
| "parse_exponent (c # cs) =
     (if c = CHR ''e'' \<or> c = CHR ''E'' then
        (case take_sign cs of (sg, ds) \<Rightarrow>
           if ds \<noteq> [] \<and> list_all is_digit ds then Some (sg * int (nat_of_digits ds)) else None)
      else None)"

definition scale10 :: "int \<Rightarrow> rat" where
  "scale10 e = (if 0 \<le> e then 10 ^ nat e else 1 / 10 ^ nat (- e))"

definition parse_decimal :: "string \<Rightarrow> rat option" where
  "parse_decimal s =
     (let ip = takeWhile is_digit s; r1 = dropWhile is_digit s;
          (fp, r2) = (case r1 of c # t \<Rightarrow> if c = CHR ''.'' then (takeWhile is_digit t, dropWhile is_digit t)
                                         else ([], r1) | [] \<Rightarrow> ([], r1))
      in if ip @ fp = [] then None
         else case parse_exponent r2 of None \<Rightarrow> None
              | Some e \<Rightarrow> Some (of_nat (nat_of_digits (ip @ fp)) * scale10 (e - int (length fp))))"

definition radix_val :: "char \<Rightarrow> nat" where
  "radix_val c =
     (if is_digit c then digit_val c
      else if is_lower_ascii c then code_unit c - 87
      else if is_upper_ascii c then code_unit c - 55 else 36)"

definition parse_radix :: "nat \<Rightarrow> string \<Rightarrow> jnum" where
  "parse_radix base ds =
     (if ds \<noteq> [] \<and> list_all (\<lambda>c. radix_val c < base) ds
      then JFin (of_nat (foldl (\<lambda>n c. base * n + radix_val c) 0 ds)) else JNaN)"

definition js_Number :: "string \<Rightarrow> jnum" where
  "js_Number str =
     (let s = trim str in
      if s = [] then JFin 0
      else case s of
        z # x # ds \<Rightarrow>
          if z = CHR ''0'' \<and> lower_char x = CHR ''x'' then parse_radix 16 ds
          else if z = CHR ''0'' \<and> lower_char x = CHR ''o'' then parse_radix 8 ds
          else if z = CHR ''0'' \<and> lower_char x = CHR ''b'' then parse_radix 2 ds
          else (case take_sign s of (sg, t) \<Rightarrow>
            if t = ''Infinity'' then JInf (sg = 1)
            else (case parse_decimal t of None \<Rightarrow> JNaN | Some q \<Rightarrow> JFin (of_int sg * q)))
      | _ \<Rightarrow> (case parse_decimal s of None \<Rightarrow> JNaN | Some q \<Rightarrow> JFin q))"

fun js_Boolean :: "jsval \<Rightarrow> bool" where
  "js_Boolean JNull = False"
| "js_Boolean JUndef = False"
| "js_Boolean (JBool b) = b"
| "js_Boolean (JNum n) = (n \<noteq> JNaN \<and> n \<noteq> JFin 0)"
| "js_Boolean (JStr s) = (s \<noteq> [])"
| "js_Boolean (JArr xs) = True"
| "js_Boolean (JObj kvs) = True"

text \<open>Property access on a plain object and \<open>a ?? b\<close>.\<close>

definition js_prop :: "string \<Rightarrow> (string \<times> jsval) list \<Rightarrow> jsval" where
  "js_prop k kvs = (case map_of kvs k of None \<Rightarrow> JUndef | Some v \<Rightarrow> v)"

definition coalesce :: "jsval \<Rightarrow> jsval \<Rightarrow> jsval" where
  "coalesce a b = (if is_nullish a then b else a)"

subsection \<open>The address patterns\<close>

text \<open>
  \<open>/[A-Z0-9._%+-]+@[A-Z0-9.-]+\.[A-Z]{2,}/gi\<close>, shared by every function that scrapes addresses,
  and \<open>/^[^\s@]+@[^\s@]+\.[^\s@]+$/\<close>, shared by every validator of an address.
\<close>

definition local_class :: "char \<Rightarrow> bool" where
  "local_class c = (is_alpha c \<or> is_digit c \<or> c \<in> set ''._%+-'')"

definition domain_class :: "char \<Rightarrow> bool" where
  "domain_class c = (is_alpha c \<or> is_digit c \<or> c \<in> set ''.-'')"

definition email_rx :: rx where
  "email_rx = RxSeq (rx_plus (RxCls local_class))
     (RxSeq (rx_char CHR ''@'')
       (RxSeq (rx_plus (RxCls domain_class))
         (RxSeq (rx_char CHR ''.'') (rx_at_least 2 (RxCls is_alpha)))))"

definition no_ws_at :: "char \<Rightarrow> bool" where
  "no_ws_at c = (\<not> is_ws c \<and> c \<noteq> CHR ''@'')"

definition address_rx :: rx where
  "address_rx = RxSeq RxBol (RxSeq (rx_plus (RxCls no_ws_at)) (RxSeq (rx_char CHR ''@'')
     (RxSeq (rx_plus (RxCls no_ws_at)) (RxSeq (rx_char CHR ''.'')
       (RxSeq (rx_plus (RxCls no_ws_at)) RxEol)))))"

text \<open>What the second pattern accepts: one at sign, and a dot inside the domain.\<close>

definition valid_address :: "string \<Rightarrow> bool" where
  "valid_address s = rx_test address_rx s"

lemma valid_address_iff:
  "valid_address s \<longleftrightarrow>
     (\<exists>u d t. s = u @ CHR ''@'' # d @ CHR ''.'' # t \<and> u \<noteq> [] \<and> d \<noteq> [] \<and> t \<noteq> []
        \<and> (\<forall>c \<in> set (u @ d @ t). \<not> is_ws c \<and> c \<noteq> CHR ''@''))" (is "_ \<longleftrightarrow> ?R")
proof
  assume "valid_address s"
  then show ?R
    unfolding valid_address_def address_rx_def rx_test_iff rx_rel_bol_seq
    apply (elim exE conjE rx_rel_seqE)
    apply (simp only: rx_rel_plus_cls rx_rel_char rx_rel_simps no_ws_at_def)
    subgoal for p w r u v1 a v2 d v3 dot v4 t v5
      by (rule exI [of _ u], rule exI [of _ d], rule exI [of _ t]) (simp, blast)
    done
next
  assume ?R
  then obtain u d t where s: "s = u @ CHR ''@'' # d @ CHR ''.'' # t"
    and ne: "u \<noteq> []" "d \<noteq> []" "t \<noteq> []"
    and cls: "\<forall>c \<in> set (u @ d @ t). no_ws_at c" by (auto simp: no_ws_at_def)
  have "rx_rel True address_rx ([] @ u @ [CHR ''@''] @ d @ [CHR ''.''] @ t @ []) []"
    unfolding address_rx_def
    by (intro rel_seq) (use ne cls in \<open>auto simp: rx_rel_plus_cls rx_rel_char intro: rel_bol rel_eol\<close>)
  then have "rx_rel ([] = []) address_rx s []" by (simp add: s)
  then show "valid_address s"
    unfolding valid_address_def rx_test_iff by (metis append_Nil append_Nil2)
qed

lemma email_rx_at: "rx_rel b email_rx u r \<Longrightarrow> CHR ''@'' \<in> set u"
  by (auto simp: email_rx_def rx_rel_simps rx_rel_char)

lemma lower_at [simp]: "lower_char CHR ''@'' = CHR ''@''"
  by (simp add: lower_char_def code_unit_def)

lemma at_in_toLowerCase: "CHR ''@'' \<in> set s \<Longrightarrow> CHR ''@'' \<in> set (toLowerCase s)"
  by (force simp: toLowerCase_def)

lemma at_not_ws: "\<not> is_ws CHR ''@''"
  by (simp add: is_ws_def code_unit_def)

lemma mem_dropWhile_not: "c \<in> set s \<Longrightarrow> \<not> P c \<Longrightarrow> c \<in> set (dropWhile P s)"
  by (induction s) auto

lemma at_in_trim: "CHR ''@'' \<in> set s \<Longrightarrow> CHR ''@'' \<in> set (trim s)"
  by (simp add: trim_def mem_dropWhile_not at_not_ws)

end
