(* ===== verification/RuleMatcher.thy ===== *)
theory RuleMatcher
  imports JsValue
begin

text \<open>
  \<open>packages/core/src/rules/types.ts\<close> and \<open>matcher.ts\<close>: mail rules, the values of a message that
  a condition can test, the evaluation of a condition and of a match, and the validation of a
  match. Field and operator names are strings at run time, and the code handles unknown
  ones, so they stay strings here. \<open>new RegExp(pattern, 'i')\<close> compiles a pattern written by the
  user; the engine is a parameter \<open>mk_regex\<close>: \<open>None\<close> when the constructor throws, otherwise the
  \<open>test\<close> method.
\<close>

type_synonym regex_engine = "string \<Rightarrow> (string \<Rightarrow> bool) option"

record rule_condition =
  rc_field :: string
  rc_op :: string
  rc_value :: jsval

record rule_match =
  rm_version :: int
  rm_logic :: string
  rm_conditions :: "rule_condition list option"

record rule_action =
  ra_type :: string
  ra_value :: "string option"

record mail_rule =
  mr_id :: string
  mr_ownerId :: string
  mr_identityId :: string
  mr_name :: string
  mr_description :: "string option"
  mr_match :: rule_match
  mr_actions :: "rule_action list"
  mr_isEnabled :: bool
  mr_stopProcessing :: bool
  mr_order :: int
  mr_createdAt :: date
  mr_updatedAt :: date

record message_for_rules =
  mf_from :: jsval
  mf_to :: jsval
  mf_cc :: jsval
  mf_bcc :: jsval
  mf_replyTo :: jsval
  mf_subject :: "string option"
  mf_text :: "string option"
  mf_snippet :: "string option"
  mf_listId :: "string option"
  mf_subscriptionKey :: "string option"
  mf_hasAttachments :: "bool option"
  mf_sizeBytes :: "jnum option"
  mf_headersJson :: "(string \<times> jsval) list option"

definition RuleFieldSchema :: "string list" where
  "RuleFieldSchema = [''from'', ''to'', ''cc'', ''bcc'', ''reply_to'', ''subject'', ''text'',
     ''snippet'', ''list_id'', ''subscription_key'', ''has_attachments'', ''size_bytes'']"

definition RuleOperatorSchema :: "string list" where
  "RuleOperatorSchema = [''exists'', ''not_exists'', ''eq'', ''not_eq'', ''contains'',
     ''not_contains'', ''starts_with'', ''ends_with'', ''regex'', ''gt'', ''gte'', ''lt'', ''lte'',
     ''in'', ''not_in'']"

subsection \<open>Scraping addresses\<close>

definition pushEmail :: "string \<Rightarrow> string list" where
  "pushEmail s = map toLowerCase (rx_match_all True email_rx s)"

definition push_address :: "(string \<times> jsval) list \<Rightarrow> string list" where
  "push_address obj =
     (case js_prop ''address'' obj of
        JStr a \<Rightarrow> if str_includes a ''@'' then [toLowerCase (trim a)] else []
      | _ \<Rightarrow> [])"

definition push_item_address :: "jsval \<Rightarrow> string list" where
  "push_item_address item = (case item of JObj i \<Rightarrow> push_address i | _ \<Rightarrow> [])"

fun walk :: "jsval \<Rightarrow> string list" where
  "walk JNull = []"
| "walk JUndef = []"
| "walk (JStr s) = pushEmail s"
| "walk (JArr xs) = concat (map walk xs)"
| "walk (JObj obj) =
     push_address obj
     @ (case js_prop ''value'' obj of JArr items \<Rightarrow> concat (map push_item_address items) | _ \<Rightarrow> [])
     @ (case js_prop ''text'' obj of JStr t \<Rightarrow> pushEmail t | _ \<Rightarrow> [])"
| "walk (JBool b) = []"
| "walk (JNum n) = []"

definition extractEmails :: "jsval \<Rightarrow> string" where
  "extractEmails value = join '', '' (set_uniq (walk value))"

subsection \<open>Conversions used by the operators\<close>

definition asLowerString :: "jsval \<Rightarrow> string" where
  "asLowerString v = (if is_nullish v then [] else toLowerCase (trim (js_String v)))"

definition isEmptyValue :: "jsval \<Rightarrow> bool" where
  "isEmptyValue v = (is_nullish v \<or> (case v of JStr s \<Rightarrow> trim s = [] | _ \<Rightarrow> False))"

definition toNumber :: "jsval \<Rightarrow> rat" where
  "toNumber v =
     (case (case v of JNum n \<Rightarrow> n | _ \<Rightarrow> js_Number (js_String v)) of JFin q \<Rightarrow> q | _ \<Rightarrow> 0)"

definition toBool :: "jsval \<Rightarrow> bool" where
  "toBool v =
     (case v of
        JBool b \<Rightarrow> b
      | JNum n \<Rightarrow> n \<noteq> JFin 0
      | _ \<Rightarrow> (let s = asLowerString v in
               if s = ''true'' then True else if s = ''false'' then False else s \<noteq> []))"

definition tryRegex :: "regex_engine \<Rightarrow> string \<Rightarrow> (string \<Rightarrow> bool) option" where
  "tryRegex mk_regex pattern = mk_regex pattern"

definition header :: "message_for_rules \<Rightarrow> string \<Rightarrow> jsval" where
  "header m k = (case mf_headersJson m of None \<Rightarrow> JUndef | Some h \<Rightarrow> js_prop k h)"

definition getMessageFieldValue :: "message_for_rules \<Rightarrow> string \<Rightarrow> jsval" where
  "getMessageFieldValue m field =
     (if field = ''from'' then JStr (extractEmails (coalesce (mf_from m) (header m ''from'')))
      else if field = ''to'' then JStr (extractEmails (coalesce (mf_to m) (header m ''to'')))
      else if field = ''cc'' then JStr (extractEmails (coalesce (mf_cc m) (header m ''cc'')))
      else if field = ''bcc'' then JStr (extractEmails (coalesce (mf_bcc m) (header m ''bcc'')))
      else if field = ''reply_to''
        then JStr (extractEmails (coalesce (mf_replyTo m) (header m ''reply-to'')))
      else if field = ''subject'' then JStr (nullish (mf_subject m) [])
      else if field = ''text'' then JStr (nullish (mf_text m) [])
      else if field = ''snippet'' then JStr (nullish (mf_snippet m) [])
      else if field = ''list_id'' then JStr (nullish (mf_listId m) [])
      else if field = ''subscription_key'' then JStr (nullish (mf_subscriptionKey m) [])
      else if field = ''has_attachments'' then JBool (nullish (mf_hasAttachments m) False)
      else if field = ''size_bytes'' then JNum (nullish (mf_sizeBytes m) (JFin 0))
      else JStr [])"

subsection \<open>Conditions\<close>

text \<open>The three blocks of \<open>evaluateCondition\<close> after the existence checks.\<close>

definition eval_boolean :: "string \<Rightarrow> jsval \<Rightarrow> jsval \<Rightarrow> bool" where
  "eval_boolean op left right =
     (let l = toBool left; r = toBool right in
      if op = ''eq'' then l = r else if op = ''not_eq'' then l \<noteq> r else False)"

definition eval_numeric :: "string \<Rightarrow> jsval \<Rightarrow> jsval \<Rightarrow> bool" where
  "eval_numeric op left right =
     (let l = toNumber left; r = toNumber right in
      if op = ''eq'' then l = r
      else if op = ''not_eq'' then l \<noteq> r
      else if op = ''gt'' then l > r
      else if op = ''gte'' then l \<ge> r
      else if op = ''lt'' then l < r
      else if op = ''lte'' then l \<le> r
      else if op = ''in'' then (case right of JArr xs \<Rightarrow> l \<in> set (map toNumber xs) | _ \<Rightarrow> False)
      else if op = ''not_in'' then (case right of JArr xs \<Rightarrow> l \<notin> set (map toNumber xs) | _ \<Rightarrow> False)
      else False)"

definition eval_string :: "regex_engine \<Rightarrow> string \<Rightarrow> jsval \<Rightarrow> jsval \<Rightarrow> bool" where
  "eval_string mk_regex op left right =
     (let l = asLowerString left; rStr = asLowerString right in
      if op = ''eq'' then l = rStr
      else if op = ''not_eq'' then l \<noteq> rStr
      else if op = ''contains'' then (if rStr \<noteq> [] then str_includes l rStr else False)
      else if op = ''not_contains'' then (if rStr \<noteq> [] then \<not> str_includes l rStr else True)
      else if op = ''starts_with'' then (if rStr \<noteq> [] then startsWith l rStr else False)
      else if op = ''ends_with'' then (if rStr \<noteq> [] then endsWith l rStr else False)
      else if op = ''regex'' then
        (case (if rStr \<noteq> [] then tryRegex mk_regex (js_String right) else None) of
           Some re \<Rightarrow> re (js_String (coalesce left (JStr []))) | None \<Rightarrow> False)
      else if op = ''in'' then
        (case right of JArr xs \<Rightarrow> l \<in> set (map asLowerString xs) | _ \<Rightarrow> False)
      else if op = ''not_in'' then
        (case right of JArr xs \<Rightarrow> l \<notin> set (map asLowerString xs) | _ \<Rightarrow> True)
      else False)"

definition evaluateCondition :: "regex_engine \<Rightarrow> message_for_rules \<Rightarrow> rule_condition \<Rightarrow> bool" where
  "evaluateCondition mk_regex m c =
     (let left = getMessageFieldValue m (rc_field c); op = rc_op c; right = rc_value c in
      if op = ''exists'' then \<not> isEmptyValue left
      else if op = ''not_exists'' then isEmptyValue left
      else if rc_field c = ''has_attachments'' then eval_boolean op left right
      else if rc_field c = ''size_bytes'' then eval_numeric op left right
      else eval_string mk_regex op left right)"

text \<open>\<open>match.conditions.map\<close> throws when the array is missing.\<close>

definition evaluateMatch :: "regex_engine \<Rightarrow> message_for_rules \<Rightarrow> rule_match \<Rightarrow> js_error + bool" where
  "evaluateMatch mk_regex m mt =
     (case rm_conditions mt of
        None \<Rightarrow> Inl TypeError
      | Some cs \<Rightarrow>
          (let results = map (evaluateCondition mk_regex m) cs in
           Inr (if rm_logic mt = ''any'' then list_ex (\<lambda>b. b) results
                else list_all (\<lambda>b. b) results)))"

subsection \<open>Validation\<close>

definition condition_errors :: "regex_engine \<Rightarrow> rule_condition \<Rightarrow> string list" where
  "condition_errors mk_regex c =
     (if rc_field c \<in> set RuleFieldSchema then [] else [''Invalid field: '' @ rc_field c])
     @ (if rc_op c \<in> set RuleOperatorSchema then [] else [''Invalid operator: '' @ rc_op c])
     @ (if rc_op c \<notin> set [''exists'', ''not_exists''] \<and> rc_value c = JUndef
        then [''Condition '' @ rc_field c @ '' '' @ rc_op c @ '' requires a value''] else [])
     @ (if rc_op c = ''regex'' \<and> js_Boolean (rc_value c)
           \<and> tryRegex mk_regex (js_String (rc_value c)) = None
        then [''Invalid regex pattern: '' @ js_String (rc_value c)] else [])"

definition validateRuleMatch :: "regex_engine \<Rightarrow> rule_match \<Rightarrow> js_error + validation" where
  "validateRuleMatch mk_regex mt =
     (let errors =
        (if rm_version mt \<noteq> 1 then [''Unsupported rule version''] else [])
        @ (if rm_logic mt \<notin> set [''all'', ''any'']
           then [''Invalid rule logic: must be '' @ [dquote] @ ''all'' @ [dquote] @ '' or ''
                 @ [dquote] @ ''any'' @ [dquote]] else [])
        @ (if rm_conditions mt = None \<or> rm_conditions mt = Some []
           then [''At least one condition is required''] else [])
      in case rm_conditions mt of
           None \<Rightarrow> Inl TypeError
         | Some cs \<Rightarrow> Inr (validation_of (errors @ concat (map (condition_errors mk_regex) cs))))"

subsection \<open>Lemmas\<close>

lemma pushEmail_wf: "e \<in> set (pushEmail s) \<Longrightarrow> CHR ''@'' \<in> set e \<and> toLowerCase e = e"
  by (auto simp: pushEmail_def dest!: rx_match_all_sound email_rx_at intro: at_in_toLowerCase)

lemma push_address_wf: "e \<in> set (push_address obj) \<Longrightarrow> CHR ''@'' \<in> set e \<and> toLowerCase e = e"
  by (auto simp: push_address_def str_includes_def sublist_def
      intro!: at_in_toLowerCase at_in_trim split: jsval.splits if_splits)

lemma walk_wf: "e \<in> set (walk v) \<Longrightarrow> CHR ''@'' \<in> set e \<and> toLowerCase e = e"
proof (induction v rule: walk.induct)
  case (5 obj)
  then show ?case
    by (auto simp: push_item_address_def dest: push_address_wf pushEmail_wf split: jsval.splits)
qed (auto dest: pushEmail_wf)

lemma asLowerString_normal: "asLowerString (JStr (asLowerString v)) = asLowerString v"
  by (simp add: asLowerString_def toLowerCase_trim [symmetric]) (simp add: trim_def)

lemma asLowerString_eq_normal:
  "asLowerString v = asLowerString w \<Longrightarrow> op \<noteq> ''regex'' \<Longrightarrow> op \<noteq> ''in'' \<Longrightarrow> op \<noteq> ''not_in'' \<Longrightarrow>
   eval_string mk op l v = eval_string mk op l w"
  by (simp add: eval_string_def Let_def)

lemma condition_errors_Nil:
  "condition_errors mk c = [] \<longleftrightarrow>
     rc_field c \<in> set RuleFieldSchema \<and> rc_op c \<in> set RuleOperatorSchema
     \<and> (rc_op c \<in> {''exists'', ''not_exists''} \<or> rc_value c \<noteq> JUndef)
     \<and> (rc_op c = ''regex'' \<longrightarrow> js_Boolean (rc_value c) \<longrightarrow> mk (js_String (rc_value c)) \<noteq> None)"
  by (auto simp: condition_errors_def tryRegex_def)

subsection \<open>Properties\<close>

text \<open>
  The address field a rule sees is a comma-separated list of pairwise different addresses,
  each in lower case and each containing an at sign, whatever shape the header value has.
\<close>

theorem extractEmails_addresses:
  "\<exists>es. extractEmails v = join '', '' es \<and> distinct es
     \<and> list_all (\<lambda>e. CHR ''@'' \<in> set e \<and> toLowerCase e = e) es"
  by (rule exI [of _ "set_uniq (walk v)"]) (auto simp: extractEmails_def list_all_iff dest: walk_wf)

text \<open>
  On the text fields every positive operator and its negation are exact complements, for any
  operand, and on every field \<open>exists\<close>/\<open>not_exists\<close> are. (On \<open>size_bytes\<close> the pair \<open>in\<close>/\<open>not_in\<close>
  is not: both are false when the operand is no array.)
\<close>

theorem evaluateCondition_complement:
  assumes "rc_field c \<notin> {''has_attachments'', ''size_bytes''}"
  shows "evaluateCondition mk m (c\<lparr>rc_op := ''not_eq''\<rparr>) = (\<not> evaluateCondition mk m (c\<lparr>rc_op := ''eq''\<rparr>))
    \<and> evaluateCondition mk m (c\<lparr>rc_op := ''not_contains''\<rparr>)
        = (\<not> evaluateCondition mk m (c\<lparr>rc_op := ''contains''\<rparr>))
    \<and> evaluateCondition mk m (c\<lparr>rc_op := ''not_in''\<rparr>) = (\<not> evaluateCondition mk m (c\<lparr>rc_op := ''in''\<rparr>))
    \<and> evaluateCondition mk m (c\<lparr>rc_op := ''not_exists''\<rparr>)
        = (\<not> evaluateCondition mk m (c\<lparr>rc_op := ''exists''\<rparr>))"
  using assms
  by (simp add: evaluateCondition_def eval_string_def Let_def split: jsval.splits)

definition sample_message :: message_for_rules where
  "sample_message = \<lparr>mf_from = JStr ''Ann <Ann@Shop.example.com>'', mf_to = JNull, mf_cc = JUndef,
     mf_bcc = JUndef, mf_replyTo = JUndef, mf_subject = Some ''Your Invoice 42'', mf_text = None,
     mf_snippet = None, mf_listId = None, mf_subscriptionKey = None, mf_hasAttachments = Some True,
     mf_sizeBytes = Some (JFin 2048), mf_headersJson = None\<rparr>"

theorem evaluateCondition_complement_witness:
  "evaluateCondition (\<lambda>_. None) sample_message
     \<lparr>rc_field = ''subject'', rc_op = ''contains'', rc_value = JStr '' INVOICE''\<rparr>
   \<and> \<not> evaluateCondition (\<lambda>_. None) sample_message
     \<lparr>rc_field = ''subject'', rc_op = ''not_contains'', rc_value = JStr '' INVOICE''\<rparr>"
proof -
  have pos: "evaluateCondition (\<lambda>_. None) sample_message
     \<lparr>rc_field = ''subject'', rc_op = ''contains'', rc_value = JStr '' INVOICE''\<rparr>"
    by code_simp
  show ?thesis
    using pos evaluateCondition_complement
      [of "\<lparr>rc_field = ''subject'', rc_op = ''contains'', rc_value = JStr '' INVOICE''\<rparr>"
        "\<lambda>_. None" sample_message]
    by simp
qed

text \<open>
  Text comparison ignores case and surrounding white space of the operand: apart from
  \<open>regex\<close>, whose pattern is used as written, replacing a string operand by its trimmed lower-case
  form never changes the outcome of a condition on a text field.
\<close>

theorem evaluateCondition_operand_normal:
  assumes "rc_field c \<notin> {''has_attachments'', ''size_bytes''}" and "rc_op c \<noteq> ''regex''"
  shows "evaluateCondition mk m (c\<lparr>rc_value := JStr s\<rparr>)
       = evaluateCondition mk m (c\<lparr>rc_value := JStr (trim (toLowerCase s))\<rparr>)"
proof -
  have "asLowerString (JStr s) = asLowerString (JStr (trim (toLowerCase s)))"
    by (simp add: asLowerString_def toLowerCase_trim)
  then have "eval_string mk (rc_op c) l (JStr s) = eval_string mk (rc_op c) l (JStr (trim (toLowerCase s)))"
    for l
    using assms(2) by (auto simp: eval_string_def Let_def)
  then show ?thesis using assms(1) by (simp add: evaluateCondition_def Let_def)
qed

theorem evaluateCondition_operand_normal_witness:
  "evaluateCondition (\<lambda>_. None) sample_message
     \<lparr>rc_field = ''from'', rc_op = ''ends_with'', rc_value = JStr '' .COM ''\<rparr>"
proof -
  let ?c = "\<lparr>rc_field = ''from'', rc_op = ''ends_with'', rc_value = JUndef\<rparr>"
  have "evaluateCondition (\<lambda>_. None) sample_message
     (?c\<lparr>rc_value := JStr (trim (toLowerCase '' .COM ''))\<rparr>)"
    by code_simp
  then show ?thesis
    using evaluateCondition_operand_normal [of ?c "\<lambda>_. None" sample_message "'' .COM ''"] by simp
qed

text \<open>
  The size operators form a total order on the numbers the operands denote: exactly one of
  \<open>lt\<close>, \<open>eq\<close>, \<open>gt\<close> holds, \<open>gte\<close> is the negation of \<open>lt\<close> and \<open>lte\<close> that of \<open>gt\<close>, also for operands
  that are not numeric (they count as 0).
\<close>

theorem size_bytes_trichotomy:
  fixes mk m v
  defines "holds \<equiv> \<lambda>op. evaluateCondition mk m \<lparr>rc_field = ''size_bytes'', rc_op = op, rc_value = v\<rparr>"
  shows "(holds ''lt'' \<or> holds ''eq'' \<or> holds ''gt'')
    \<and> \<not> (holds ''lt'' \<and> holds ''eq'') \<and> \<not> (holds ''eq'' \<and> holds ''gt'') \<and> \<not> (holds ''lt'' \<and> holds ''gt'')
    \<and> holds ''gte'' = (\<not> holds ''lt'') \<and> holds ''lte'' = (\<not> holds ''gt'')
    \<and> holds ''not_eq'' = (\<not> holds ''eq'')"
  by (auto simp: holds_def evaluateCondition_def eval_numeric_def Let_def)

text \<open>
  A match with logic \<open>any\<close> holds iff one of its conditions does, any other logic requires all
  of them; with no condition \<open>any\<close> never matches and \<open>all\<close> always does; without a conditions
  array the evaluation throws.
\<close>

theorem evaluateMatch_semantics:
  "evaluateMatch mk m mt =
     (case rm_conditions mt of
        None \<Rightarrow> Inl TypeError
      | Some cs \<Rightarrow> Inr (if rm_logic mt = ''any'' then \<exists>c \<in> set cs. evaluateCondition mk m c
                         else \<forall>c \<in> set cs. evaluateCondition mk m c))"
  by (simp add: evaluateMatch_def Let_def list_ex_iff list_all_iff split: option.splits)

theorem evaluateMatch_semantics_witness:
  "evaluateMatch (\<lambda>_. None) sample_message \<lparr>rm_version = 1, rm_logic = ''any'', rm_conditions = Some []\<rparr>
     = Inr False
   \<and> evaluateMatch (\<lambda>_. None) sample_message \<lparr>rm_version = 1, rm_logic = ''all'', rm_conditions = Some []\<rparr>
     = Inr True"
  by (simp add: evaluateMatch_semantics)

text \<open>
  \<open>validateRuleMatch\<close> accepts exactly the version 1 matches with a known logic and at least
  one condition, in which every condition has a known field and operator, a value unless the
  operator is an existence check, and a pattern that compiles if it is a regular expression.
\<close>

theorem validateRuleMatch_valid_iff:
  "validateRuleMatch mk mt = Inr (True, []) \<longleftrightarrow>
     rm_version mt = 1 \<and> rm_logic mt \<in> {''all'', ''any''}
     \<and> (\<exists>cs. rm_conditions mt = Some cs \<and> cs \<noteq> [] \<and> (\<forall>c \<in> set cs.
          rc_field c \<in> set RuleFieldSchema \<and> rc_op c \<in> set RuleOperatorSchema
          \<and> (rc_op c \<in> {''exists'', ''not_exists''} \<or> rc_value c \<noteq> JUndef)
          \<and> (rc_op c = ''regex'' \<longrightarrow> js_Boolean (rc_value c)
               \<longrightarrow> mk (js_String (rc_value c)) \<noteq> None)))"
proof (cases "rm_conditions mt")
  case None
  then show ?thesis by (simp add: validateRuleMatch_def)
next
  case (Some cs)
  then show ?thesis
    unfolding condition_errors_Nil [symmetric]
    by (auto simp: validateRuleMatch_def Let_def validation_of_def)
qed

text \<open>An accepted match, by evaluation: the right-hand side is satisfiable.\<close>

theorem validateRuleMatch_valid_iff_witness:
  "validateRuleMatch (\<lambda>_. None) \<lparr>rm_version = 1, rm_logic = ''any'', rm_conditions =
     Some [\<lparr>rc_field = ''from'', rc_op = ''exists'', rc_value = JUndef\<rparr>]\<rparr> = Inr (True, [])"
  using validateRuleMatch_valid_iff [of "\<lambda>_. None" "\<lparr>rm_version = 1, rm_logic = ''any'', rm_conditions =
     Some [\<lparr>rc_field = ''from'', rc_op = ''exists'', rc_value = JUndef\<rparr>]\<rparr>"]
  by (simp add: RuleFieldSchema_def RuleOperatorSchema_def)

end
