(* ===== verification/Comparators.thy ===== *)
theory Comparators
  imports Prelude
begin

text \<open>
  The interface between the code's \<open>[...xs].sort(cmp)\<close> calls and the array sort: what a
  comparator has to satisfy (\<open>js_comparator\<close>), and what the sort then gives, proved once:
  an ordered, stable permutation. A comparator that subtracts two integer keys is the usual case
  (\<open>key_comparator\<close>); a descending one negates the key.
\<close>

lemma mset_js_insert: "mset (js_insert cmp x xs) = add_mset x (mset xs)"
  by (induction xs) auto

lemma mset_js_sort: "mset (js_sort cmp xs) = mset xs"
  by (induction xs) (auto simp: mset_js_insert)

lemma set_js_insert: "set (js_insert cmp x xs) = insert x (set xs)"
  by (induction xs) auto

lemma set_js_sort [simp]: "set (js_sort cmp xs) = set xs"
  by (induction xs) (auto simp: set_js_insert)

lemma length_js_sort [simp]: "length (js_sort cmp xs) = length xs"
  by (metis mset_js_sort size_mset)

lemma js_sort_eq_Nil [simp]: "js_sort cmp xs = [] \<longleftrightarrow> xs = []"
  by (metis length_0_conv length_js_sort)

lemma js_insert_map:
  "(\<And>y. y \<in> set ys \<Longrightarrow> cmp (f x) (f y) = cmp' x y) \<Longrightarrow>
   js_insert cmp (f x) (map f ys) = map f (js_insert cmp' x ys)"
  by (induction ys) auto

text \<open>Sorting commutes with a map that carries one comparator to another.\<close>

lemma js_sort_map:
  "(\<And>x y. x \<in> set xs \<Longrightarrow> y \<in> set xs \<Longrightarrow> cmp (f x) (f y) = cmp' x y) \<Longrightarrow>
   js_sort cmp (map f xs) = map f (js_sort cmp' xs)"
proof (induction xs)
  case (Cons x xs)
  have "js_insert cmp (f x) (map f (js_sort cmp' xs)) = map f (js_insert cmp' x (js_sort cmp' xs))"
    by (rule js_insert_map) (use Cons.prems in simp)
  with Cons show ?case by simp
qed simp

locale js_comparator =
  fixes cmp :: "'a \<Rightarrow> 'a \<Rightarrow> int"
  assumes cmp_swap: "cmp x y < 0 \<longleftrightarrow> 0 < cmp y x"
    and cmp_trans: "cmp x y \<le> 0 \<Longrightarrow> cmp y z \<le> 0 \<Longrightarrow> cmp x z \<le> 0"
begin

lemma cmp_refl: "cmp x x = 0"
  using cmp_swap [of x x] by linarith

lemma cmp_total: "\<not> cmp x y \<le> 0 \<Longrightarrow> cmp y x \<le> 0"
  using cmp_swap [of y x] by linarith

lemma cmp_zero_swap: "cmp x y = 0 \<longleftrightarrow> cmp y x = 0"
  using cmp_swap [of x y] cmp_swap [of y x] by linarith

lemma cmp_zero_cong: "cmp x y = 0 \<Longrightarrow> cmp x z = 0 \<longleftrightarrow> cmp y z = 0"
proof -
  have "cmp u w = 0" if "cmp u v = 0" and "cmp v w = 0" for u v w
  proof -
    have "cmp u w \<le> 0" using that cmp_trans [of u v w] by simp
    moreover have "cmp w u \<le> 0"
      using that cmp_zero_swap [of u v] cmp_zero_swap [of v w] cmp_trans [of w v u] by linarith
    ultimately show ?thesis using cmp_swap [of u w] by linarith
  qed
  moreover assume "cmp x y = 0"
  ultimately show ?thesis using cmp_zero_swap by blast
qed

lemma sorted_js_insert:
  "sorted_wrt (\<lambda>x y. cmp x y \<le> 0) ys \<Longrightarrow> sorted_wrt (\<lambda>x y. cmp x y \<le> 0) (js_insert cmp x ys)"
proof (induction ys)
  case (Cons y ys)
  show ?case
  proof (cases "cmp x y \<le> 0")
    case True
    with Cons.prems show ?thesis by (auto intro: cmp_trans)
  next
    case False
    with Cons show ?thesis by (auto simp: set_js_insert dest: cmp_total)
  qed
qed simp

lemma sorted_js_sort: "sorted_wrt (\<lambda>x y. cmp x y \<le> 0) (js_sort cmp xs)"
  by (induction xs) (auto intro: sorted_js_insert)

lemma filter_js_insert:
  "sorted_wrt (\<lambda>x y. cmp x y \<le> 0) ys \<Longrightarrow>
   filter (\<lambda>y. cmp k y = 0) (js_insert cmp x ys) =
     (if cmp k x = 0 then x # filter (\<lambda>y. cmp k y = 0) ys else filter (\<lambda>y. cmp k y = 0) ys)"
proof (induction ys)
  case (Cons y ys)
  show ?case
  proof (cases "cmp x y \<le> 0")
    case False
    then have "\<not> (cmp k x = 0 \<and> cmp k y = 0)"
      using cmp_zero_cong [of k x y] cmp_zero_cong [of k y x] cmp_zero_swap by auto
    with False Cons show ?thesis by auto
  qed simp
qed simp

text \<open>Stability: the elements that compare equal to \<open>k\<close> keep their order.\<close>

lemma stable_js_sort: "filter (\<lambda>y. cmp k y = 0) (js_sort cmp xs) = filter (\<lambda>y. cmp k y = 0) xs"
  by (induction xs) (auto simp: filter_js_insert sorted_js_sort)

lemma hd_js_sort_least: "x \<in> set xs \<Longrightarrow> cmp (hd (js_sort cmp xs)) x \<le> 0"
  using sorted_js_sort [of xs] cmp_refl
  by (cases "js_sort cmp xs") (auto simp flip: set_js_sort [of cmp xs])

lemma last_js_sort_greatest: "x \<in> set xs \<Longrightarrow> cmp x (last (js_sort cmp xs)) \<le> 0"
  using sorted_js_sort [of xs] cmp_refl
  by (cases "js_sort cmp xs" rule: rev_cases)
     (auto simp: sorted_wrt_append simp flip: set_js_sort [of cmp xs])

lemma js_sort_sorted_id: "sorted_wrt (\<lambda>x y. cmp x y \<le> 0) xs \<Longrightarrow> js_sort cmp xs = xs"
proof (induction xs)
  case (Cons x xs)
  then show ?case by (cases xs) auto
qed simp

lemma js_sort_idem: "js_sort cmp (js_sort cmp xs) = js_sort cmp xs"
  by (rule js_sort_sorted_id) (rule sorted_js_sort)

lemma filter_js_insert_any:
  "sorted_wrt (\<lambda>x y. cmp x y \<le> 0) ys \<Longrightarrow>
   filter P (js_insert cmp x ys) = (if P x then js_insert cmp x (filter P ys) else filter P ys)"
proof (induction ys)
  case (Cons y ys)
  have "js_insert cmp x zs = x # zs" if "cmp x y \<le> 0" "\<forall>z \<in> set zs. cmp y z \<le> 0" for zs
    using that cmp_trans [of x y] by (cases zs) auto
  then show ?case using Cons by auto
qed simp

text \<open>Selecting rows before or after the sort is the same.\<close>

lemma filter_js_sort: "filter P (js_sort cmp xs) = js_sort cmp (filter P xs)"
  by (induction xs) (simp_all add: filter_js_insert_any sorted_js_sort)

text \<open>
  The three facts a caller wants of a sorted copy; they determine it.
\<close>

lemma sort_correct:
  "mset (js_sort cmp xs) = mset xs
   \<and> sorted_wrt (\<lambda>x y. cmp x y \<le> 0) (js_sort cmp xs)
   \<and> (\<forall>k. filter (\<lambda>y. cmp k y = 0) (js_sort cmp xs) = filter (\<lambda>y. cmp k y = 0) xs)"
  by (simp add: mset_js_sort sorted_js_sort stable_js_sort)

end

locale key_comparator =
  fixes key :: "'a \<Rightarrow> int" and cmp :: "'a \<Rightarrow> 'a \<Rightarrow> int"
  assumes cmp_key: "cmp x y = key x - key y"

sublocale key_comparator \<subseteq> js_comparator cmp
  by unfold_locales (auto simp: cmp_key)

context key_comparator
begin

lemma sorted_keys: "sorted (map key (js_sort cmp xs))"
  using sorted_js_sort [of xs] by (simp add: sorted_map cmp_key)

lemma stable_keys: "filter (\<lambda>y. key y = k) (js_sort cmp xs) = filter (\<lambda>y. key y = k) xs"
proof (cases "\<exists>x \<in> set xs. key x = k")
  case True
  then obtain x where "key x = k" by blast
  then have "(\<lambda>y. key y = k) = (\<lambda>y. cmp x y = 0)" by (auto simp: cmp_key fun_eq_iff)
  then show ?thesis using stable_js_sort [of x xs] by simp
next
  case False
  then show ?thesis by (simp add: filter_empty_conv)
qed

lemma hd_least_key: "x \<in> set xs \<Longrightarrow> key (hd (js_sort cmp xs)) \<le> key x"
  using hd_js_sort_least by (simp add: cmp_key)

lemma last_greatest_key: "x \<in> set xs \<Longrightarrow> key x \<le> key (last (js_sort cmp xs))"
  using last_js_sort_greatest by (simp add: cmp_key)

end

end
