(* ===== verification/RuleActions.thy ===== *)
theory RuleActions
  imports RuleMatcher Comparators
begin

text \<open>
  \<open>packages/core/src/rules/actions.ts\<close>: validation, description and execution order of the
  actions of a rule, and the merge of the results of several rules. Action types are strings; a
  table indexed by one is modelled for types that are no member of \<open>Object.prototype\<close>.
\<close>

record action_result =
  ar_action :: rule_action
  ar_success :: bool
  ar_error :: "string option"

record rule_result =
  rr_rule :: mail_rule
  rr_matched :: bool
  rr_actions :: "action_result list"
  rr_stopProcessing :: bool

definition RuleActionTypeSchema :: "string list" where
  "RuleActionTypeSchema = [''move_to_mailbox'', ''add_label'', ''remove_label'', ''mark_read'',
     ''mark_unread'', ''star'', ''unstar'', ''archive'', ''trash'', ''delete'', ''forward'', ''reply'',
     ''skip_inbox'', ''mark_important'', ''mark_not_important'']"

subsection \<open>Validation\<close>

text \<open>The requirement an action has by itself (the \<open>switch\<close>).\<close>

definition value_errors :: "rule_action \<Rightarrow> string list" where
  "value_errors a =
     (let t = ra_type a; v = ra_value a in
      if t = ''move_to_mailbox'' then
        (if \<not> truthy v then [''move_to_mailbox requires a mailbox ID''] else [])
      else if t = ''add_label'' \<or> t = ''remove_label'' then
        (if \<not> truthy v then [t @ '' requires a label ID''] else [])
      else if t = ''forward'' then
        (if \<not> truthy v \<or> \<not> valid_address (nullish v [])
         then [''forward requires a valid email address''] else [])
      else [])"

text \<open>The conflicts with the types seen so far, the current one included.\<close>

definition conflict_errors :: "string list \<Rightarrow> string \<Rightarrow> string list" where
  "conflict_errors actionTypes t =
     (if t = ''mark_read'' \<and> ''mark_unread'' \<in> set actionTypes
      then [''Cannot have both mark_read and mark_unread actions''] else [])
     @ (if t = ''star'' \<and> ''unstar'' \<in> set actionTypes
        then [''Cannot have both star and unstar actions''] else [])
     @ (if t = ''mark_important'' \<and> ''mark_not_important'' \<in> set actionTypes
        then [''Cannot have both mark_important and mark_not_important actions''] else [])
     @ (if t = ''archive'' \<and> ''trash'' \<in> set actionTypes
        then [''Cannot have both archive and trash actions''] else [])
     @ (if t = ''delete'' \<and> (''archive'' \<in> set actionTypes \<or> ''trash'' \<in> set actionTypes)
        then [''Cannot combine delete with archive or trash''] else [])"

fun action_loop :: "string list \<Rightarrow> rule_action list \<Rightarrow> string list" where
  "action_loop actionTypes [] = []"
| "action_loop actionTypes (a # as) =
     (if ra_type a \<in> set actionTypes then [''Duplicate action: '' @ ra_type a] else [])
     @ value_errors a
     @ conflict_errors (ra_type a # actionTypes) (ra_type a)
     @ action_loop (ra_type a # actionTypes) as"

definition validateRuleActions :: "rule_action list option \<Rightarrow> validation" where
  "validateRuleActions actions =
     (case actions of
        None \<Rightarrow> (False, [''At least one action is required''])
      | Some [] \<Rightarrow> (False, [''At least one action is required''])
      | Some as \<Rightarrow> validation_of (action_loop [] as))"

subsection \<open>Description, priority, classification\<close>

definition describeAction :: "rule_action \<Rightarrow> string" where
  "describeAction a =
     (let t = ra_type a in
      if t = ''move_to_mailbox'' then ''Move to folder''
      else if t = ''add_label'' then ''Add label''
      else if t = ''remove_label'' then ''Remove label''
      else if t = ''mark_read'' then ''Mark as read''
      else if t = ''mark_unread'' then ''Mark as unread''
      else if t = ''star'' then ''Add star''
      else if t = ''unstar'' then ''Remove star''
      else if t = ''archive'' then ''Archive''
      else if t = ''trash'' then ''Move to trash''
      else if t = ''delete'' then ''Delete permanently''
      else if t = ''forward'' then ''Forward to '' @ nullish (ra_value a) ''undefined''
      else if t = ''reply'' then ''Send auto-reply''
      else if t = ''skip_inbox'' then ''Skip inbox''
      else if t = ''mark_important'' then ''Mark as important''
      else if t = ''mark_not_important'' then ''Mark as not important''
      else t)"

definition priorities :: "(string \<times> int) list" where
  "priorities = [(''add_label'', 1), (''remove_label'', 2), (''mark_read'', 10), (''mark_unread'', 10),
     (''star'', 11), (''unstar'', 11), (''mark_important'', 12), (''mark_not_important'', 12),
     (''skip_inbox'', 20), (''move_to_mailbox'', 30), (''archive'', 31), (''trash'', 32),
     (''forward'', 40), (''reply'', 41), (''delete'', 100)]"

definition getActionPriority :: "string \<Rightarrow> int" where
  "getActionPriority t = nullish (map_of priorities t) 50"

definition action_cmp :: "rule_action \<Rightarrow> rule_action \<Rightarrow> int" where
  "action_cmp a b = getActionPriority (ra_type a) - getActionPriority (ra_type b)"

definition sortActionsByPriority :: "rule_action list \<Rightarrow> rule_action list" where
  "sortActionsByPriority actions = js_sort action_cmp actions"

definition isFlsagModifyingAction :: "string \<Rightarrow> bool" where
  "isFlsagModifyingAction t = (t \<in> set [''mark_read'', ''mark_unread'', ''star'', ''unstar'',
     ''mark_important'', ''mark_not_important''])"

definition isMovingAction :: "string \<Rightarrow> bool" where
  "isMovingAction t = (t \<in> set [''move_to_mailbox'', ''archive'', ''trash'', ''delete''])"

definition isExternalAction :: "string \<Rightarrow> bool" where
  "isExternalAction t = (t \<in> set [''forward'', ''reply''])"

subsection \<open>Merging results\<close>

fun merge_actions :: "string \<Rightarrow> rule_action list \<times> string list \<Rightarrow> action_result list
    \<Rightarrow> rule_action list \<times> string list" where
  "merge_actions name (allActions, errors) [] = (allActions, errors)"
| "merge_actions name (allActions, errors) (r # rs) =
     merge_actions name
       (if ar_success r then (allActions @ [ar_action r], errors)
        else if truthy (ar_error r)
             then (allActions, errors @ [''Rule '' @ [dquote] @ name @ [dquote] @ '': '' @ nullish (ar_error r) []])
             else (allActions, errors)) rs"

fun merge_loop :: "mail_rule list \<times> rule_action list \<times> string list \<Rightarrow> rule_result list
    \<Rightarrow> mail_rule list \<times> rule_action list \<times> string list" where
  "merge_loop acc [] = acc"
| "merge_loop (applied, allActions, errors) (r # rs) =
     (if \<not> rr_matched r then merge_loop (applied, allActions, errors) rs
      else let (allActions', errors') = merge_actions (mr_name (rr_rule r)) (allActions, errors) (rr_actions r);
               acc = (applied @ [rr_rule r], allActions', errors')
           in if rr_stopProcessing r then acc else merge_loop acc rs)"

definition mergeRuleResults :: "rule_result list \<Rightarrow> mail_rule list \<times> rule_action list \<times> string list" where
  "mergeRuleResults results = merge_loop ([], [], []) results"

subsection \<open>Specifications\<close>

text \<open>An action is complete if it carries the value its type needs.\<close>

definition action_complete :: "rule_action \<Rightarrow> bool" where
  "action_complete a \<longleftrightarrow>
     (ra_type a \<in> {''move_to_mailbox'', ''add_label'', ''remove_label''} \<longrightarrow> truthy (ra_value a))
     \<and> (ra_type a = ''forward'' \<longrightarrow> (\<exists>v. ra_value a = Some v \<and> valid_address v))"

text \<open>The ordered pairs (earlier, later) the loop reports.\<close>

definition reported_conflict :: "string \<Rightarrow> string \<Rightarrow> bool" where
  "reported_conflict earlier later \<longleftrightarrow>
     (earlier, later) \<in> {(''mark_unread'', ''mark_read''), (''unstar'', ''star''),
       (''mark_not_important'', ''mark_important''), (''trash'', ''archive''),
       (''archive'', ''delete''), (''trash'', ''delete'')}"

text \<open>
  The results that take effect: the matched ones, up to and including the first of them that
  stops the processing.
\<close>

fun effective :: "rule_result list \<Rightarrow> rule_result list" where
  "effective [] = []"
| "effective (r # rs) =
     (if rr_matched r then r # (if rr_stopProcessing r then [] else effective rs) else effective rs)"

definition action_error_messages :: "rule_result \<Rightarrow> string list" where
  "action_error_messages r =
     [''Rule '' @ [dquote] @ mr_name (rr_rule r) @ [dquote] @ '': '' @ nullish (ar_error x) [].
        x \<leftarrow> rr_actions r, \<not> ar_success x \<and> truthy (ar_error x)]"

subsection \<open>Lemmas\<close>

interpretation action_order: key_comparator "\<lambda>a. getActionPriority (ra_type a)" action_cmp
  by unfold_locales (simp add: action_cmp_def)

lemma value_errors_Nil: "value_errors a = [] \<longleftrightarrow> action_complete a"
proof (cases "ra_value a")
  case (Some v)
  have "valid_address v \<Longrightarrow> v \<noteq> []" by (auto simp: valid_address_iff)
  with Some show ?thesis by (auto simp: value_errors_def action_complete_def Let_def)
qed (auto simp: value_errors_def action_complete_def Let_def)

lemma conflict_errors_Nil:
  "conflict_errors (t # seen) t = [] \<longleftrightarrow> (\<forall>e \<in> set seen. \<not> reported_conflict e t)"
  by (auto simp: conflict_errors_def reported_conflict_def)

lemma action_loop_Nil:
  "action_loop seen as = [] \<longleftrightarrow>
     distinct (map ra_type as) \<and> set (map ra_type as) \<inter> set seen = {}
     \<and> list_all action_complete as
     \<and> (\<forall>a \<in> set as. \<forall>e \<in> set seen. \<not> reported_conflict e (ra_type a))
     \<and> sorted_wrt (\<lambda>a b. \<not> reported_conflict (ra_type a) (ra_type b)) as"
  by (induction seen as rule: action_loop.induct)
     (auto simp: value_errors_Nil conflict_errors_Nil)

lemma merge_actions_eq:
  "merge_actions name (as, es) rs =
     (as @ map ar_action (filter ar_success rs),
      es @ [''Rule '' @ [dquote] @ name @ [dquote] @ '': '' @ nullish (ar_error x) [].
              x \<leftarrow> rs, \<not> ar_success x \<and> truthy (ar_error x)])"
  by (induction name "(as, es)" rs arbitrary: as es rule: merge_actions.induct) auto

lemma merge_loop_eq:
  "merge_loop (ap, as, es) rs =
     (ap @ map rr_rule (effective rs),
      as @ concat (map (\<lambda>r. map ar_action (filter ar_success (rr_actions r))) (effective rs)),
      es @ concat (map action_error_messages (effective rs)))"
  by (induction "(ap, as, es)" rs arbitrary: ap as es rule: merge_loop.induct)
     (auto simp: merge_actions_eq action_error_messages_def Let_def)

lemma effective_append_stop:
  "rr_matched r \<Longrightarrow> rr_stopProcessing r \<Longrightarrow> effective (xs @ r # ys) = effective (xs @ [r])"
  by (induction xs) auto

subsection \<open>Properties\<close>

text \<open>
  \<open>validateRuleActions\<close> accepts exactly the non-empty action lists with pairwise different
  types in which every action carries the value it needs and no action is preceded by one it
  is reported to conflict with.
\<close>

theorem validateRuleActions_valid_iff:
  "fst (validateRuleActions actions) \<longleftrightarrow>
     (\<exists>as. actions = Some as \<and> as \<noteq> [] \<and> distinct (map ra_type as) \<and> list_all action_complete as
        \<and> sorted_wrt (\<lambda>a b. \<not> reported_conflict (ra_type a) (ra_type b)) as)"
  by (auto simp: validateRuleActions_def action_loop_Nil value_errors_Nil conflict_errors_Nil
      split: option.splits list.splits)

text \<open>
  The conflict check depends on the order of the actions: each of the pairs it is meant to
  exclude is accepted when the action named first in the error message comes first.
\<close>

theorem validateRuleActions_order_dependent:
  "list_all (\<lambda>(t, u).
      fst (validateRuleActions (Some [\<lparr>ra_type = t, ra_value = None\<rparr>, \<lparr>ra_type = u, ra_value = None\<rparr>]))
      \<and> \<not> fst (validateRuleActions (Some [\<lparr>ra_type = u, ra_value = None\<rparr>, \<lparr>ra_type = t, ra_value = None\<rparr>])))
    [(''mark_read'', ''mark_unread''), (''star'', ''unstar''), (''mark_important'', ''mark_not_important''),
     (''archive'', ''trash''), (''delete'', ''archive''), (''delete'', ''trash'')]"
  by (simp add: validateRuleActions_def value_errors_Nil conflict_errors_Nil action_complete_def
      reported_conflict_def)

text \<open>
  \<open>sortActionsByPriority\<close> returns a stable permutation in non-decreasing priority, so a
  \<open>delete\<close> of a known action list runs after everything else.
\<close>

theorem sortActionsByPriority_correct:
  "mset (sortActionsByPriority as) = mset as
   \<and> sorted (map (\<lambda>a. getActionPriority (ra_type a)) (sortActionsByPriority as))
   \<and> (\<forall>p. filter (\<lambda>a. getActionPriority (ra_type a) = p) (sortActionsByPriority as)
        = filter (\<lambda>a. getActionPriority (ra_type a) = p) as)
   \<and> (as \<noteq> [] \<longrightarrow> ''delete'' \<in> ra_type ` set as \<longrightarrow> list_all (\<lambda>a. ra_type a \<in> set RuleActionTypeSchema) as
        \<longrightarrow> ra_type (last (sortActionsByPriority as)) = ''delete'')"
proof -
  have last: "ra_type (last (sortActionsByPriority as)) = ''delete''"
    if "as \<noteq> []" and "''delete'' \<in> ra_type ` set as"
      and known: "list_all (\<lambda>a. ra_type a \<in> set RuleActionTypeSchema) as"
  proof -
    let ?l = "last (sortActionsByPriority as)"
    from that obtain d where "d \<in> set as" and "ra_type d = ''delete''" by auto
    then have "100 \<le> getActionPriority (ra_type ?l)"
      using action_order.last_greatest_key [of d as]
      by (simp add: sortActionsByPriority_def getActionPriority_def priorities_def)
    moreover have "?l \<in> set as"
      using that(1) last_in_set [of "sortActionsByPriority as"] by (simp add: sortActionsByPriority_def)
    ultimately show ?thesis
      using known by (auto simp: list_all_iff RuleActionTypeSchema_def getActionPriority_def priorities_def
          split: if_splits)
  qed
  then show ?thesis
    by (auto simp: sortActionsByPriority_def mset_js_sort action_order.sorted_keys
        action_order.stable_keys)
qed

theorem sortActionsByPriority_correct_witness:
  "ra_type (last (sortActionsByPriority [\<lparr>ra_type = ''delete'', ra_value = None\<rparr>,
     \<lparr>ra_type = ''add_label'', ra_value = Some ''l''\<rparr>])) = ''delete''"
  using sortActionsByPriority_correct [of "[\<lparr>ra_type = ''delete'', ra_value = None\<rparr>,
     \<lparr>ra_type = ''add_label'', ra_value = Some ''l''\<rparr>]"]
  by (simp add: RuleActionTypeSchema_def)


text \<open>
  Nothing after a matched rule with \<open>stopProcessing\<close> has any influence on the merged result.
\<close>

theorem mergeRuleResults_stops:
  assumes "rr_matched r" and "rr_stopProcessing r"
  shows "mergeRuleResults (xs @ r # ys) = mergeRuleResults (xs @ [r])"
  by (simp add: mergeRuleResults_def merge_loop_eq effective_append_stop [OF assms, of xs ys])

definition sample_rule :: "string \<Rightarrow> mail_rule" where
  "sample_rule name = \<lparr>mr_id = name, mr_ownerId = ''o'', mr_identityId = ''i'', mr_name = name,
     mr_description = None, mr_match = \<lparr>rm_version = 1, rm_logic = ''all'', rm_conditions = Some []\<rparr>,
     mr_actions = [], mr_isEnabled = True, mr_stopProcessing = True, mr_order = 0, mr_createdAt = 0,
     mr_updatedAt = 0\<rparr>"

theorem mergeRuleResults_stops_witness:
  "mergeRuleResults
     ([] @ \<lparr>rr_rule = sample_rule ''a'', rr_matched = True, rr_actions = [], rr_stopProcessing = True\<rparr>
      # [\<lparr>rr_rule = sample_rule ''b'', rr_matched = True, rr_actions = [], rr_stopProcessing = True\<rparr>])
   = ([sample_rule ''a''], [], [])"
proof -
  let ?r = "\<lparr>rr_rule = sample_rule ''a'', rr_matched = True, rr_actions = [], rr_stopProcessing = True\<rparr>"
  have "mergeRuleResults ([] @ ?r # ys) = mergeRuleResults ([] @ [?r])" for ys
    by (rule mergeRuleResults_stops) simp_all
  also have "mergeRuleResults ([] @ [?r]) = ([sample_rule ''a''], [], [])"
    by (simp add: mergeRuleResults_def)
  finally show ?thesis .
qed

end
