(* ===== verification/MailStore.thy ===== *)
theory MailStore
  imports RuleActions Comparators "HOL-Library.Multiset"
begin

text \<open>
  The state the mail workers share: the tables \<open>messages\<close>, \<open>mailbox_threads\<close>, \<open>mailboxes\<close>,
  \<open>identities\<close>, \<open>threads\<close>, \<open>mailbox_thread_labels\<close>, \<open>mail_rules\<close> and \<open>mail_rule_actions\<close> of
  \<open>packages/db/src/drizzle/schema.ts\<close> (the columns that the modelled code reads or writes), the
  jobs added to the queues and the commands sent to the IMAP server. A table is a list of rows; a
  statement is the function on rows that SQL gives it, and a statement that would break a primary
  key or unique index raises \<open>UniqueViolation\<close> and leaves the tables alone.

  \<open>summaries_exact\<close> is the invariant that the listing of a mailbox relies on: each row of
  \<open>mailbox_threads\<close> has the number of unread messages and the star of its thread in its mailbox.
\<close>

subsection \<open>Rows\<close>

record mail_address =
  ma_name :: "string option"
  ma_address :: "string option"

record address_object =
  ao_value :: "mail_address list option"
  ao_text :: "string option"

record imap_meta =
  im_uid :: "int option"
  im_mailboxPath :: "string option"

record message_row =
  row_id :: string
  row_ownerId :: string
  row_mailboxId :: string
  row_messageId :: string
  row_threadId :: string
  row_replyTo :: jsval
  row_html :: "string option"
  row_subject :: "string option"
  row_snippet :: "string option"
  row_text :: "string option"
  row_from :: "address_object option"
  row_to :: "address_object option"
  row_cc :: "address_object option"
  row_bcc :: "address_object option"
  row_date :: "date option"
  row_sizeBytes :: "int option"
  row_seen :: bool
  row_answered :: bool
  row_flagged :: bool
  row_hasAttachments :: bool
  row_headersJson :: "(string \<times> jsval) list option"
  row_imap :: "imap_meta option"
  row_createdAt :: date
  row_updatedAt :: date

record mini_address =
  mini_n :: "string option"
  mini_e :: "string option"

record participant_lists =
  pl_from :: "mini_address list"
  pl_to :: "mini_address list"
  pl_cc :: "mini_address list"
  pl_bcc :: "mini_address list"

record mailbox_thread_row =
  mt_threadId :: string
  mt_mailboxId :: string
  mt_ownerId :: string
  mt_identityId :: string
  mt_identityPublicId :: string
  mt_mailboxSlug :: "string option"
  mt_subject :: "string option"
  mt_previewText :: "string option"
  mt_lastActivityAt :: date
  mt_firstMessageAt :: "date option"
  mt_messageCount :: nat
  mt_unreadCount :: nat
  mt_hasAttachments :: bool
  mt_starred :: bool
  mt_participants :: participant_lists
  mt_updatedAt :: date
  mt_snoozedUntil :: "date option"
  mt_unsnoozedAt :: "date option"

record mailbox_row =
  mx_id :: string
  mx_ownerId :: string
  mx_identityId :: string
  mx_kind :: string
  mx_name :: string
  mx_slug :: "string option"
  mx_imapPath :: "string option"

record identity_row =
  idt_id :: string
  idt_publicId :: string
  idt_smtpAccountId :: "string option"

record thread_row =
  tw_id :: string
  tw_ownerId :: string
  tw_lastMessageDate :: "date option"

record label_row =
  lb_threadId :: string
  lb_mailboxId :: string
  lb_ownerId :: string
  lb_labelId :: string

record rule_row =
  rl_id :: string
  rl_identityId :: string
  rl_enabled :: bool
  rl_priority :: int
  rl_match :: "rule_match option"
  rl_stopProcessing :: bool

record rule_action_row =
  rla_ruleId :: string
  rla_actionType :: string
  rla_order :: int
  rla_labelId :: "string option"

datatype job =
    JobSetFlags string string string
  | JobMove string string string "string option" "string option" bool
  | JobDelete string "string option" bool bool
  | JobRefreshThread string

datatype imap_command =
    FlagsAdd string "int list" string
  | FlagsRemove string "int list" string
  | MoveUids string "int list" string
  | DeleteUids string "int list"
  | DeleteAll string

record store =
  st_messages :: "message_row list"
  st_mailboxThreads :: "mailbox_thread_row list"
  st_mailboxes :: "mailbox_row list"
  st_identities :: "identity_row list"
  st_threads :: "thread_row list"
  st_labels :: "label_row list"
  st_rules :: "rule_row list"
  st_ruleActions :: "rule_action_row list"
  st_jobs :: "job list"
  st_imap :: "imap_command list"

datatype db_error = UniqueViolation | RowNotFound string | BadJob string

text \<open>The IMAP connections: which identities have a usable client, and which commands are refused.\<close>

record imap_env =
  ie_usable :: "string \<Rightarrow> bool"
  ie_fails :: "imap_command \<Rightarrow> bool"

subsection \<open>Queries\<close>

definition in_scope :: "string \<Rightarrow> string \<Rightarrow> message_row \<Rightarrow> bool" where
  "in_scope threadId mailboxId m \<longleftrightarrow> row_threadId m = threadId \<and> row_mailboxId m = mailboxId"

definition scope_messages :: "store \<Rightarrow> string \<Rightarrow> string \<Rightarrow> message_row list" where
  "scope_messages st threadId mailboxId = filter (in_scope threadId mailboxId) (st_messages st)"

text \<open>\<open>coalesce(date, created_at)\<close>, newest first.\<close>

definition activity :: "message_row \<Rightarrow> date" where
  "activity m = nullish (row_date m) (row_createdAt m)"

definition newest_first :: "message_row \<Rightarrow> message_row \<Rightarrow> int" where
  "newest_first a b = activity b - activity a"

definition find_mailbox :: "store \<Rightarrow> string \<Rightarrow> mailbox_row option" where
  "find_mailbox st i = find (\<lambda>b. mx_id b = i) (st_mailboxes st)"

definition find_identity :: "store \<Rightarrow> string \<Rightarrow> identity_row option" where
  "find_identity st i = find (\<lambda>d. idt_id d = i) (st_identities st)"

definition unread_of :: "message_row list \<Rightarrow> nat" where
  "unread_of ms = length (filter (\<lambda>m. \<not> row_seen m) ms)"

definition any_flagged :: "message_row list \<Rightarrow> bool" where
  "any_flagged ms = list_ex row_flagged ms"

subsection \<open>Updates\<close>

definition update_where :: "('a \<Rightarrow> bool) \<Rightarrow> ('a \<Rightarrow> 'a) \<Rightarrow> 'a list \<Rightarrow> 'a list" where
  "update_where P f xs = map (\<lambda>x. if P x then f x else x) xs"

definition is_summary :: "string \<Rightarrow> string \<Rightarrow> mailbox_thread_row \<Rightarrow> bool" where
  "is_summary threadId mailboxId r \<longleftrightarrow> mt_threadId r = threadId \<and> mt_mailboxId r = mailboxId"

definition update_messages :: "string \<Rightarrow> string \<Rightarrow> (message_row \<Rightarrow> message_row) \<Rightarrow> store \<Rightarrow> store" where
  "update_messages threadId mailboxId f st =
     st\<lparr>st_messages := update_where (in_scope threadId mailboxId) f (st_messages st)\<rparr>"

definition update_summary :: "string \<Rightarrow> string \<Rightarrow> (mailbox_thread_row \<Rightarrow> mailbox_thread_row) \<Rightarrow> store \<Rightarrow> store" where
  "update_summary threadId mailboxId f st =
     st\<lparr>st_mailboxThreads := update_where (is_summary threadId mailboxId) f (st_mailboxThreads st)\<rparr>"

text \<open>
  The statement pair of \<open>mailSetFlags\<close> and \<open>toggleStar\<close>: aggregate the messages of the thread in the
  mailbox, then store the aggregate. \<open>bool_or\<close> of no rows is null, which \<open>?? false\<close> turns to false.
\<close>

definition refresh_summary :: "date \<Rightarrow> string \<Rightarrow> string \<Rightarrow> store \<Rightarrow> store" where
  "refresh_summary now threadId mailboxId st =
     (let ms = scope_messages st threadId mailboxId
      in update_summary threadId mailboxId
           (\<lambda>r. r\<lparr>mt_unreadCount := unread_of ms, mt_starred := any_flagged ms, mt_updatedAt := now\<rparr>) st)"

definition add_job :: "job \<Rightarrow> store \<Rightarrow> store" where
  "add_job j st = st\<lparr>st_jobs := st_jobs st @ [j]\<rparr>"

definition send_imap :: "imap_env \<Rightarrow> imap_command \<Rightarrow> store \<Rightarrow> (store, store) sum" where
  "send_imap env c st = (if ie_fails env c then Inl st else Inr (st\<lparr>st_imap := st_imap st @ [c]\<rparr>))"

subsection \<open>The invariant\<close>

definition summary_key :: "mailbox_thread_row \<Rightarrow> string \<times> string" where
  "summary_key r = (mt_threadId r, mt_mailboxId r)"

definition exact_row :: "store \<Rightarrow> mailbox_thread_row \<Rightarrow> bool" where
  "exact_row st r \<longleftrightarrow>
     mt_unreadCount r = unread_of (scope_messages st (mt_threadId r) (mt_mailboxId r))
     \<and> mt_starred r = any_flagged (scope_messages st (mt_threadId r) (mt_mailboxId r))"

definition summaries_exact :: "store \<Rightarrow> bool" where
  "summaries_exact st \<longleftrightarrow>
     distinct (map summary_key (st_mailboxThreads st)) \<and> list_all (exact_row st) (st_mailboxThreads st)"

definition store_inv :: "store \<Rightarrow> bool" where
  "store_inv st \<longleftrightarrow> distinct (map row_id (st_messages st)) \<and> summaries_exact st"

text \<open>Nothing of a thread is in a mailbox.\<close>

definition vacant :: "store \<Rightarrow> string \<Rightarrow> string \<Rightarrow> bool" where
  "vacant st threadId mailboxId \<longleftrightarrow>
     scope_messages st threadId mailboxId = [] \<and> \<not> list_ex (is_summary threadId mailboxId) (st_mailboxThreads st)"

subsection \<open>Lemmas\<close>

named_theorems store_simps \<open>what a statement does to each table\<close>

lemma update_messages_sel [store_simps]:
  "st_messages (update_messages t b f st) = update_where (in_scope t b) f (st_messages st)"
  "st_mailboxThreads (update_messages t b f st) = st_mailboxThreads st"
  "st_mailboxes (update_messages t b f st) = st_mailboxes st"
  "st_identities (update_messages t b f st) = st_identities st"
  "st_threads (update_messages t b f st) = st_threads st"
  "st_labels (update_messages t b f st) = st_labels st"
  "st_rules (update_messages t b f st) = st_rules st"
  "st_ruleActions (update_messages t b f st) = st_ruleActions st"
  "st_jobs (update_messages t b f st) = st_jobs st"
  "st_imap (update_messages t b f st) = st_imap st"
  by (simp_all add: update_messages_def)

lemma update_summary_sel [store_simps]:
  "st_messages (update_summary t b f st) = st_messages st"
  "st_mailboxThreads (update_summary t b g st) = update_where (is_summary t b) g (st_mailboxThreads st)"
  "st_mailboxes (update_summary t b f st) = st_mailboxes st"
  "st_identities (update_summary t b f st) = st_identities st"
  "st_threads (update_summary t b f st) = st_threads st"
  "st_labels (update_summary t b f st) = st_labels st"
  "st_rules (update_summary t b f st) = st_rules st"
  "st_ruleActions (update_summary t b f st) = st_ruleActions st"
  "st_jobs (update_summary t b f st) = st_jobs st"
  "st_imap (update_summary t b f st) = st_imap st"
  by (simp_all add: update_summary_def)

lemma refresh_summary_sel [store_simps]:
  "st_messages (refresh_summary now t b st) = st_messages st"
  "st_mailboxes (refresh_summary now t b st) = st_mailboxes st"
  "st_identities (refresh_summary now t b st) = st_identities st"
  "st_threads (refresh_summary now t b st) = st_threads st"
  "st_labels (refresh_summary now t b st) = st_labels st"
  "st_rules (refresh_summary now t b st) = st_rules st"
  "st_ruleActions (refresh_summary now t b st) = st_ruleActions st"
  "st_jobs (refresh_summary now t b st) = st_jobs st"
  "st_imap (refresh_summary now t b st) = st_imap st"
  by (simp_all add: refresh_summary_def Let_def store_simps)

lemma add_job_sel [store_simps]:
  "st_messages (add_job j st) = st_messages st"
  "st_mailboxThreads (add_job j st) = st_mailboxThreads st"
  "st_mailboxes (add_job j st) = st_mailboxes st"
  "st_identities (add_job j st) = st_identities st"
  "st_threads (add_job j st) = st_threads st"
  "st_labels (add_job j st) = st_labels st"
  "st_rules (add_job j st) = st_rules st"
  "st_ruleActions (add_job j st) = st_ruleActions st"
  "st_jobs (add_job j st) = st_jobs st @ [j]"
  "st_imap (add_job j st) = st_imap st"
  by (simp_all add: add_job_def)

lemma map_update_where: "(\<And>x. k (f x) = k x) \<Longrightarrow> map k (update_where P f xs) = map k xs"
  by (simp add: update_where_def)

lemma in_update_whereD: "x \<in> set (update_where P f xs) \<Longrightarrow> \<exists>y \<in> set xs. x = (if P y then f y else y)"
  by (auto simp: update_where_def)

lemma in_update_whereI:
  "x \<in> set xs \<Longrightarrow> \<not> P x \<Longrightarrow> x \<in> set (update_where P f xs)"
  "x \<in> set xs \<Longrightarrow> P x \<Longrightarrow> f x \<in> set (update_where P f xs)"
  unfolding update_where_def set_map by (auto intro: image_eqI [of _ _ x])

lemma list_ex_update_where: "(\<And>x. P (f x) = P x) \<Longrightarrow> list_ex P (update_where Q f xs) = list_ex P xs"
  by (induction xs) (simp_all add: update_where_def)

lemma find_update_where: "(\<And>x. P (f x) = P x) \<Longrightarrow> find P (update_where P f xs) = map_option f (find P xs)"
  by (induction xs) (auto simp: update_where_def)

lemma filter_update_where_members:
  "(\<And>x. x \<in> set xs \<Longrightarrow> P x \<Longrightarrow> \<not> Q x \<and> \<not> Q (f x)) \<Longrightarrow> filter Q (update_where P f xs) = filter Q xs"
  by (induction xs) (auto simp: update_where_def)

lemma filter_update_where_other:
  "(\<And>x. P x \<Longrightarrow> \<not> Q x \<and> \<not> Q (f x)) \<Longrightarrow> filter Q (update_where P f xs) = filter Q xs"
  by (rule filter_update_where_members) blast

lemma filter_update_where_same:
  "(\<And>x. P x \<Longrightarrow> P (f x)) \<Longrightarrow> filter P (update_where P f xs) = map f (filter P xs)"
  by (induction xs) (auto simp: update_where_def)

lemma filter_update_where_moved:
  "\<forall>x \<in> set xs. \<not> Q x \<Longrightarrow> (\<And>x. P x \<Longrightarrow> Q (f x)) \<Longrightarrow> filter Q (update_where P f xs) = map f (filter P xs)"
  by (induction xs) (auto simp: update_where_def)

lemma filter_update_where_gone:
  "(\<And>x. P x \<Longrightarrow> \<not> Q (f x)) \<Longrightarrow> (\<And>x. Q x \<Longrightarrow> P x) \<Longrightarrow> filter Q (update_where P f xs) = []"
  by (auto simp: update_where_def filter_empty_conv)

lemma scope_messages_cong: "st_messages st = st_messages st' \<Longrightarrow> scope_messages st = scope_messages st'"
  by (simp add: scope_messages_def fun_eq_iff)

lemma exact_row_cong: "st_messages st = st_messages st' \<Longrightarrow> exact_row st r = exact_row st' r"
  by (simp add: exact_row_def scope_messages_cong [of st st'])

lemma summaries_exact_cong:
  "st_messages st = st_messages st' \<Longrightarrow> st_mailboxThreads st = st_mailboxThreads st' \<Longrightarrow>
   summaries_exact st \<longleftrightarrow> summaries_exact st'"
  by (simp add: summaries_exact_def exact_row_cong [of st st'] list_all_iff)

lemma scope_update_messages:
  assumes "\<And>m. in_scope t b m \<Longrightarrow> in_scope t b (f m)"
  shows "scope_messages (update_messages t b f st) t' b'
    = (if t' = t \<and> b' = b then map f (scope_messages st t b) else scope_messages st t' b')"
proof (cases "t' = t \<and> b' = b")
  case True
  with assms show ?thesis by (simp add: scope_messages_def store_simps filter_update_where_same)
next
  case False
  have "filter (in_scope t' b') (update_where (in_scope t b) f (st_messages st)) = filter (in_scope t' b') (st_messages st)"
    using False assms by (intro filter_update_where_other) (auto simp: in_scope_def)
  with False show ?thesis by (auto simp: scope_messages_def store_simps)
qed

text \<open>
  Any change to the messages of one scope is repaired by a change to the summary of that scope that
  stores the right figures; recomputing them is the special case.
\<close>

lemma update_restores:
  assumes inv: "summaries_exact st"
    and f: "\<And>m. in_scope t b m \<Longrightarrow> in_scope t b (f m)"
    and key: "\<And>r. is_summary t b r \<Longrightarrow> summary_key (g r) = summary_key r"
    and fig: "\<And>r. is_summary t b r \<Longrightarrow> exact_row st r \<Longrightarrow>
      mt_unreadCount (g r) = unread_of (map f (scope_messages st t b))
      \<and> mt_starred (g r) = any_flagged (map f (scope_messages st t b))"
  shows "summaries_exact (update_summary t b g (update_messages t b f st))" (is "summaries_exact ?s")
proof -
  have sc: "scope_messages ?s t' b' = (if t' = t \<and> b' = b then map f (scope_messages st t b) else scope_messages st t' b')"
    for t' b'
    by (subst scope_messages_cong [of ?s "update_messages t b f st"])
       (simp_all add: store_simps scope_update_messages [OF f])
  have ex: "exact_row ?s (if is_summary t b r then g r else r)" if "r \<in> set (st_mailboxThreads st)" for r
  proof -
    have r: "exact_row st r" using inv that by (simp add: summaries_exact_def list_all_iff)
    show ?thesis
    proof (cases "is_summary t b r")
      case True
      then have "mt_threadId (g r) = t" "mt_mailboxId (g r) = b"
        using key [OF True] by (simp_all add: summary_key_def is_summary_def)
      with True show ?thesis using fig [OF True r] by (simp add: exact_row_def sc)
    next
      case False
      then show ?thesis using r by (auto simp: exact_row_def sc is_summary_def)
    qed
  qed
  have rows: "st_mailboxThreads ?s = update_where (is_summary t b) g (st_mailboxThreads st)"
    by (simp add: store_simps)
  have "map summary_key (update_where (is_summary t b) g (st_mailboxThreads st)) = map summary_key (st_mailboxThreads st)"
    using key by (simp add: update_where_def)
  moreover have "list_all (exact_row ?s) (update_where (is_summary t b) g (st_mailboxThreads st))"
    unfolding update_where_def list_all_iff set_map ball_simps(9) using ex by blast
  ultimately show ?thesis
    using inv unfolding summaries_exact_def rows by simp
qed

lemma refresh_restores:
  assumes inv: "summaries_exact st" and f: "\<And>m. in_scope t b m \<Longrightarrow> in_scope t b (f m)"
  shows "summaries_exact (refresh_summary now t b (update_messages t b f st))"
  unfolding refresh_summary_def Let_def
  by (rule update_restores [OF inv f]) (simp_all add: summary_key_def scope_update_messages [OF f])

lemma store_inv_cong:
  "st_messages st = st_messages st' \<Longrightarrow> st_mailboxThreads st = st_mailboxThreads st' \<Longrightarrow> store_inv st \<longleftrightarrow> store_inv st'"
  using summaries_exact_cong [of st st'] by (simp add: store_inv_def)

lemma refresh_restores_inv:
  assumes "store_inv st" "\<And>m. row_threadId (f m) = row_threadId m \<and> row_mailboxId (f m) = row_mailboxId m"
    "\<And>m. row_id (f m) = row_id m"
  shows "store_inv (refresh_summary now t b (update_messages t b f st))"
  using assms refresh_restores [of st t b f now]
  by (simp add: store_inv_def store_simps map_update_where in_scope_def)

lemma exact_row_iff:
  "exact_row st r \<longleftrightarrow>
     mt_unreadCount r = unread_of (filter (in_scope (mt_threadId r) (mt_mailboxId r)) (st_messages st))
     \<and> mt_starred r = any_flagged (filter (in_scope (mt_threadId r) (mt_mailboxId r)) (st_messages st))"
  by (simp add: exact_row_def scope_messages_def)

lemma list_all_filter_mono: "list_all P xs \<Longrightarrow> list_all P (filter Q xs)"
  by (simp add: list_all_iff)

subsection \<open>Sample rows, for the witnesses\<close>

definition sample_row :: "string \<Rightarrow> string \<Rightarrow> string \<Rightarrow> bool \<Rightarrow> message_row" where
  "sample_row i t b seen =
     \<lparr>row_id = i, row_ownerId = ''o'', row_mailboxId = b, row_messageId = i, row_threadId = t, row_replyTo = JNull,
      row_html = None, row_subject = Some ''s'', row_snippet = None, row_text = None, row_from = None, row_to = None,
      row_cc = None, row_bcc = None, row_date = None, row_sizeBytes = None, row_seen = seen, row_answered = False,
      row_flagged = False, row_hasAttachments = False, row_headersJson = None,
      row_imap = Some \<lparr>im_uid = Some 7, im_mailboxPath = Some ''INBOX''\<rparr>, row_createdAt = 0, row_updatedAt = 0\<rparr>"

definition no_participants :: participant_lists where
  "no_participants = \<lparr>pl_from = [], pl_to = [], pl_cc = [], pl_bcc = []\<rparr>"

definition sample_summary :: "string \<Rightarrow> string \<Rightarrow> nat \<Rightarrow> nat \<Rightarrow> mailbox_thread_row" where
  "sample_summary t b n unread =
     \<lparr>mt_threadId = t, mt_mailboxId = b, mt_ownerId = ''o'', mt_identityId = ''i'', mt_identityPublicId = ''p'',
      mt_mailboxSlug = None, mt_subject = None, mt_previewText = None, mt_lastActivityAt = 0, mt_firstMessageAt = None,
      mt_messageCount = n, mt_unreadCount = unread, mt_hasAttachments = False, mt_starred = False,
      mt_participants = no_participants, mt_updatedAt = 0, mt_snoozedUntil = None, mt_unsnoozedAt = None\<rparr>"

definition sample_mailbox :: "string \<Rightarrow> string \<Rightarrow> mailbox_row" where
  "sample_mailbox i kind = \<lparr>mx_id = i, mx_ownerId = ''o'', mx_identityId = ''i'', mx_kind = kind, mx_name = kind,
     mx_slug = Some kind, mx_imapPath = None\<rparr>"

definition sample_store :: "message_row list \<Rightarrow> mailbox_thread_row list \<Rightarrow> store" where
  "sample_store ms rs =
     \<lparr>st_messages = ms, st_mailboxThreads = rs, st_mailboxes = [sample_mailbox ''b1'' ''inbox'', sample_mailbox ''b2'' ''trash''],
      st_identities = [\<lparr>idt_id = ''i'', idt_publicId = ''p'', idt_smtpAccountId = None\<rparr>], st_threads = [\<lparr>tw_id = ''t'', tw_ownerId = ''o'', tw_lastMessageDate = None\<rparr>], st_labels = [],
      st_rules = [], st_ruleActions = [], st_jobs = [], st_imap = []\<rparr>"

definition online :: imap_env where
  "online = \<lparr>ie_usable = (\<lambda>_. True), ie_fails = (\<lambda>_. False)\<rparr>"

end
