(* ===== verification/MailJobs.thy ===== *)
theory MailJobs
  imports MailStore
begin

text \<open>
  The jobs of the mail worker that change messages: \<open>apps/worker/lib/imap/imap-flags.ts\<close>
  (\<open>mailSetFlags\<close>), \<open>imap-move.ts\<close> (\<open>moveMail\<close>) and \<open>imap-delete.ts\<close> (\<open>deleteMail\<close>). Each first sends
  commands to the IMAP server and then changes the database in a transaction. The result of a job
  is the store it leaves and, for \<open>moveMail\<close>, whether the transaction failed on a unique index: a
  failed transaction leaves the tables as they were, while the commands already sent stay sent.
\<close>

subsection \<open>Grouping by IMAP path\<close>

text \<open>A message takes part when it has a truthy uid and path; the groups are in order of first use.\<close>

definition imap_entry :: "message_row \<Rightarrow> (string \<times> int) option" where
  "imap_entry m =
     (case row_imap m of
        None \<Rightarrow> None
      | Some im \<Rightarrow>
          (case im_uid im of
             None \<Rightarrow> None
           | Some uid \<Rightarrow> if uid \<noteq> 0 \<and> truthy (im_mailboxPath im) then Some (nullish (im_mailboxPath im) [], uid) else None))"

definition collectUidsByMailboxPath :: "message_row list \<Rightarrow> (string, int list) js_map" where
  "collectUidsByMailboxPath rows = map (\<lambda>(p, es). (p, map snd es)) (group_into fst (List.map_filter imap_entry rows))"

subsection \<open>\<open>mailSetFlags\<close>\<close>

definition opToAction :: "string \<Rightarrow> (bool \<times> string) option" where
  "opToAction op =
     (if op = ''read'' then Some (True, backslash # ''Seen'')
      else if op = ''unread'' then Some (False, backslash # ''Seen'')
      else if op = ''flag'' then Some (True, backslash # ''Flagged'')
      else if op = ''unflag'' then Some (False, backslash # ''Flagged'')
      else if op = ''answered'' then Some (True, backslash # ''Answered'')
      else if op = ''unanswered'' then Some (False, backslash # ''Answered'')
      else None)"

definition flag_command :: "bool \<times> string \<Rightarrow> string \<Rightarrow> int list \<Rightarrow> imap_command" where
  "flag_command action path uids =
     (if fst action then FlagsAdd path (js_sort (\<lambda>a b. a - b) uids) (snd action)
      else FlagsRemove path (js_sort (\<lambda>a b. a - b) uids) (snd action))"

text \<open>A refused command is logged and the loop goes on with the next mailbox.\<close>

fun send_all :: "imap_env \<Rightarrow> imap_command list \<Rightarrow> store \<Rightarrow> store" where
  "send_all env [] st = st"
| "send_all env (c # cs) st = send_all env cs (case send_imap env c st of Inl s \<Rightarrow> s | Inr s \<Rightarrow> s)"

definition apply_op :: "string \<Rightarrow> date \<Rightarrow> message_row \<Rightarrow> message_row" where
  "apply_op op now m =
     (let m1 = m\<lparr>row_updatedAt := now\<rparr>;
          m2 = (if op = ''read'' then m1\<lparr>row_seen := True\<rparr> else m1);
          m3 = (if op = ''unread'' then m2\<lparr>row_seen := False\<rparr> else m2);
          m4 = (if op = ''flag'' then m3\<lparr>row_flagged := True\<rparr> else m3)
      in if op = ''unflag'' then m4\<lparr>row_flagged := False\<rparr> else m4)"

definition mailSetFlags :: "imap_env \<Rightarrow> date \<Rightarrow> string \<Rightarrow> string \<Rightarrow> string \<Rightarrow> store \<Rightarrow> store" where
  "mailSetFlags env now threadId mailboxId op st =
     (case find_mailbox st mailboxId of
        None \<Rightarrow> st
      | Some mailbox \<Rightarrow>
          if \<not> ie_usable env (mx_identityId mailbox) then st
          else let threadMessages = js_sort newest_first (scope_messages st threadId mailboxId)
               in if threadMessages = [] then st
                  else (case opToAction op of
                     None \<Rightarrow> st
                   | Some action \<Rightarrow>
                       let cmds = map (\<lambda>(path, uids). flag_command action path uids)
                             (collectUidsByMailboxPath threadMessages);
                           sent = send_all env cmds st
                       in refresh_summary now threadId mailboxId
                            (update_messages threadId mailboxId (apply_op op now) sent)))"

subsection \<open>\<open>moveMail\<close>\<close>

text \<open>The loop over the groups ends at the first refused command; the error is caught outside.\<close>

fun send_until_failure :: "imap_env \<Rightarrow> imap_command list \<Rightarrow> store \<Rightarrow> store" where
  "send_until_failure env [] st = st"
| "send_until_failure env (c # cs) st =
     (case send_imap env c st of Inl s \<Rightarrow> s | Inr s \<Rightarrow> send_until_failure env cs s)"

definition move_destination :: "store \<Rightarrow> mailbox_row \<Rightarrow> string \<Rightarrow> string option \<Rightarrow> mailbox_row option" where
  "move_destination st src op toMailboxId =
     (if op = ''move'' then
        (if \<not> truthy toMailboxId \<or> toMailboxId = Some (mx_id src) then None
         else find (\<lambda>b. mx_id b = nullish toMailboxId [] \<and> mx_identityId b = mx_identityId src) (st_mailboxes st))
      else find (\<lambda>b. mx_identityId b = mx_identityId src \<and> mx_kind b = op) (st_mailboxes st))"

text \<open>\<open>jsonb_set\<close> on the path \<open>{imap,mailboxPath}\<close> creates the last key only, so \<open>imap\<close> must be there.\<close>

definition set_mailbox_path :: "string \<Rightarrow> message_row \<Rightarrow> message_row" where
  "set_mailbox_path path m = m\<lparr>row_imap := map_option (\<lambda>im. im\<lparr>im_mailboxPath := Some path\<rparr>) (row_imap m)\<rparr>"

definition move_row :: "mailbox_row \<Rightarrow> bool \<Rightarrow> string \<Rightarrow> date \<Rightarrow> message_row \<Rightarrow> message_row" where
  "move_row dest moveImap destPath now m =
     (let m1 = m\<lparr>row_mailboxId := mx_id dest, row_updatedAt := now\<rparr>
      in if moveImap then set_mailbox_path destPath m1 else m1)"

definition move_summary :: "mailbox_row \<Rightarrow> string \<Rightarrow> date \<Rightarrow> mailbox_thread_row \<Rightarrow> mailbox_thread_row" where
  "move_summary dest op now r =
     r\<lparr>mt_mailboxId := mx_id dest,
       mt_mailboxSlug := Some (if op = ''move'' then nullish (mx_slug dest) ''custom'' else op), mt_updatedAt := now\<rparr>"

definition message_key :: "message_row \<Rightarrow> string \<times> string" where
  "message_key m = (row_mailboxId m, row_messageId m)"

text \<open>A transaction commits if the unique indexes hold of the tables it would leave.\<close>

definition commit :: "store \<Rightarrow> store \<Rightarrow> store \<times> db_error option" where
  "commit before after =
     (if distinct (map message_key (st_messages after)) \<and> distinct (map summary_key (st_mailboxThreads after))
      then (after, None) else (before, Some UniqueViolation))"

definition moveMail :: "imap_env \<Rightarrow> date \<Rightarrow> string \<Rightarrow> string \<Rightarrow> string \<Rightarrow> string option \<Rightarrow> bool \<Rightarrow> store
    \<Rightarrow> store \<times> db_error option" where
  "moveMail env now threadId fromMailboxId op toMailboxId moveImap st =
     (case find_mailbox st fromMailboxId of
        None \<Rightarrow> (st, None)
      | Some srcMailbox \<Rightarrow>
          (case move_destination st srcMailbox op toMailboxId of
             None \<Rightarrow> (st, None)
           | Some dest \<Rightarrow>
               let destPath = nullish (mx_imapPath dest) (mx_name dest);
                   threadMsgs = scope_messages st threadId fromMailboxId
               in if threadMsgs = [] then (st, None)
                  else let byPath = collectUidsByMailboxPath threadMsgs;
                           sent = (if moveImap \<and> byPath \<noteq> [] \<and> ie_usable env (mx_identityId srcMailbox)
                             then send_until_failure env (map (\<lambda>(path, uids). MoveUids path uids destPath) byPath) st
                             else st)
                       in commit sent
                            (update_summary threadId fromMailboxId (move_summary dest op now)
                              (update_messages threadId fromMailboxId (move_row dest moveImap destPath now) sent))))"

subsection \<open>\<open>deleteMail\<close>\<close>

definition delete_messages :: "string list \<Rightarrow> store \<Rightarrow> store" where
  "delete_messages ids st = st\<lparr>st_messages := filter (\<lambda>m. row_id m \<notin> set ids) (st_messages st)\<rparr>"

definition delete_summaries :: "string \<Rightarrow> string list \<Rightarrow> store \<Rightarrow> store" where
  "delete_summaries mailboxId threadIds st =
     st\<lparr>st_mailboxThreads := filter (\<lambda>r. \<not> (mt_mailboxId r = mailboxId \<and> mt_threadId r \<in> set threadIds)) (st_mailboxThreads st)\<rparr>"

text \<open>
  Delete the given threads that have no message left; the foreign keys cascade to the summaries and
  labels of a deleted thread (and to its messages, of which there are none).
\<close>

definition delete_empty_threads :: "string list \<Rightarrow> store \<Rightarrow> store" where
  "delete_empty_threads threadIds st =
     (let gone = (\<lambda>t. t \<in> set threadIds \<and> \<not> list_ex (\<lambda>m. row_threadId m = t) (st_messages st))
      in st\<lparr>st_threads := filter (\<lambda>t. \<not> gone (tw_id t)) (st_threads st),
            st_mailboxThreads := filter (\<lambda>r. \<not> gone (mt_threadId r)) (st_mailboxThreads st),
            st_labels := filter (\<lambda>l. \<not> gone (lb_threadId l)) (st_labels st)\<rparr>)"

definition delete_scope :: "string \<Rightarrow> string list \<Rightarrow> message_row list \<Rightarrow> store \<Rightarrow> store" where
  "delete_scope mailboxId threadIds rows st =
     delete_empty_threads threadIds (delete_summaries mailboxId threadIds (delete_messages (map row_id rows) st))"

text \<open>
  Emptying a mailbox searches all its uids and deletes them if there are any: one command here. The
  \<open>threadId\<close> of the job, a string, a list or absent, is the list of its values.
\<close>

definition deleteMail :: "imap_env \<Rightarrow> string \<Rightarrow> string list \<Rightarrow> bool \<Rightarrow> bool \<Rightarrow> store \<Rightarrow> store" where
  "deleteMail env mailboxId threadId emptyAll imapDelete st =
     (if mailboxId = [] then st
      else case find_mailbox st mailboxId of
        None \<Rightarrow> st
      | Some box \<Rightarrow>
          let mailboxPath = or_default (mx_imapPath box) (mx_name box)
          in if imapDelete \<and> \<not> ie_usable env (mx_identityId box) then st
             else if emptyAll then
               (let sent = (if imapDelete then send_all env [DeleteAll mailboxPath] st else st);
                    rows = filter (\<lambda>m. row_mailboxId m = mailboxId) (st_messages st);
                    affectedThreadIds = set_uniq (map row_threadId rows)
                in delete_scope mailboxId affectedThreadIds rows sent)
             else
               (let threadIds = filter (\<lambda>t. t \<noteq> []) threadId
                in if threadIds = [] then st
                   else let rows = filter (\<lambda>m. row_mailboxId m = mailboxId \<and> row_threadId m \<in> set threadIds) (st_messages st);
                            sent = (if imapDelete then send_until_failure env
                                (map (\<lambda>(path, uids). DeleteUids path uids) (collectUidsByMailboxPath rows)) st else st)
                        in delete_scope mailboxId threadIds rows sent))"

subsection \<open>Lemmas: the commands sent\<close>

definition same_tables :: "store \<Rightarrow> store \<Rightarrow> bool" where
  "same_tables s st \<longleftrightarrow> (\<exists>log. s = st\<lparr>st_imap := log\<rparr>)"

lemma same_tables_refl: "same_tables st st"
  unfolding same_tables_def by (rule exI [of _ "st_imap st"]) simp

lemma same_tables_send: "same_tables (case send_imap env c st of Inl s \<Rightarrow> s | Inr s \<Rightarrow> s) st"
  using same_tables_refl by (auto simp: send_imap_def same_tables_def)

lemma same_tables_trans: "same_tables a b \<Longrightarrow> same_tables b c \<Longrightarrow> same_tables a c"
  by (auto simp: same_tables_def)

lemma same_tables_send_all: "same_tables (send_all env cs st) st"
  by (induction cs arbitrary: st) (auto intro: same_tables_refl same_tables_trans same_tables_send)

lemma same_tables_send_until: "same_tables (send_until_failure env cs st) st"
proof (induction cs arbitrary: st)
  case (Cons c cs)
  show ?case
  proof (cases "send_imap env c st")
    case (Inl s)
    then show ?thesis using same_tables_send [of env c st] by simp
  next
    case (Inr s)
    then show ?thesis using same_tables_send [of env c st] Cons [of s] same_tables_trans by auto
  qed
qed (simp add: same_tables_refl)

lemma same_tables_sel:
  assumes "same_tables s st"
  shows "st_messages s = st_messages st" "st_mailboxThreads s = st_mailboxThreads st" "st_threads s = st_threads st"
    "st_labels s = st_labels st" "st_jobs s = st_jobs st" "st_mailboxes s = st_mailboxes st"
    "st_identities s = st_identities st" "st_rules s = st_rules st" "st_ruleActions s = st_ruleActions st"
  using assms by (auto simp: same_tables_def)

lemma same_tables_inv: "same_tables s st \<Longrightarrow> store_inv s \<longleftrightarrow> store_inv st"
  by (rule store_inv_cong) (simp_all add: same_tables_sel)

lemma same_tables_scope: "same_tables s st \<Longrightarrow> scope_messages s = scope_messages st"
  by (rule scope_messages_cong) (simp add: same_tables_sel)

subsection \<open>Lemmas: flags\<close>

lemma apply_op_sel [simp]:
  "row_id (apply_op op now m) = row_id m" "row_threadId (apply_op op now m) = row_threadId m"
  "row_mailboxId (apply_op op now m) = row_mailboxId m"
  "row_seen (apply_op op now m) = (if op = ''read'' then True else if op = ''unread'' then False else row_seen m)"
  "row_flagged (apply_op op now m) = (if op = ''flag'' then True else if op = ''unflag'' then False else row_flagged m)"
  by (simp_all add: apply_op_def Let_def)

text \<open>Either the job stops early and changes nothing, or it runs its transaction on the tables.\<close>

lemma mailSetFlags_cases:
  obtains (skip) "mailSetFlags env now t b op st = st"
  | (run) sent where "same_tables sent st"
      "mailSetFlags env now t b op st = refresh_summary now t b (update_messages t b (apply_op op now) sent)"
proof (cases "mailSetFlags env now t b op st = st")
  case False
  obtain mbx action where m: "find_mailbox st b = Some mbx" "ie_usable env (mx_identityId mbx)"
    "scope_messages st t b \<noteq> []" "opToAction op = Some action"
    using False unfolding mailSetFlags_def Let_def by (auto split: option.splits if_splits)
  show thesis
    by (rule run [OF same_tables_send_all, of env "map (\<lambda>(path, uids). flag_command action path uids)
          (collectUidsByMailboxPath (js_sort newest_first (scope_messages st t b)))"])
       (simp add: mailSetFlags_def m Let_def)
qed (rule skip)

subsection \<open>Lemmas: deletion\<close>

lemma delete_scope_tables:
  "st_messages (delete_scope b ts rows st) = filter (\<lambda>m. row_id m \<notin> row_id ` set rows) (st_messages st)"
  "set (st_mailboxThreads (delete_scope b ts rows st)) \<subseteq>
     {r \<in> set (st_mailboxThreads st). \<not> (mt_mailboxId r = b \<and> mt_threadId r \<in> set ts)}"
  "distinct (map summary_key (st_mailboxThreads st)) \<Longrightarrow>
     distinct (map summary_key (st_mailboxThreads (delete_scope b ts rows st)))"
  by (auto simp: delete_scope_def delete_empty_threads_def delete_summaries_def delete_messages_def Let_def
      distinct_map_filter)

lemma distinct_ids_filter:
  assumes "distinct (map row_id ms)"
  shows "filter (\<lambda>m. row_id m \<notin> row_id ` set (filter P ms)) ms = filter (\<lambda>m. \<not> P m) ms"
proof (rule filter_cong [OF refl])
  fix m assume "m \<in> set ms"
  with assms show "(row_id m \<notin> row_id ` set (filter P ms)) = (\<not> P m)"
    by (auto simp: distinct_map inj_on_def)
qed

lemma delete_scope_inv:
  assumes inv: "store_inv st"
    and P: "\<And>m. m \<in> set (st_messages st) \<Longrightarrow> P m \<Longrightarrow> row_mailboxId m = b \<and> row_threadId m \<in> set ts"
  shows "store_inv (delete_scope b ts (filter P (st_messages st)) st)"
proof -
  let ?s = "delete_scope b ts (filter P (st_messages st)) st"
  have ms: "st_messages ?s = filter (\<lambda>m. \<not> P m) (st_messages st)"
    using inv unfolding delete_scope_tables store_inv_def by (intro distinct_ids_filter) simp
  have "exact_row ?s r" if r: "r \<in> set (st_mailboxThreads ?s)" for r
  proof -
    from r delete_scope_tables(2) [of b ts "filter P (st_messages st)" st]
    have r': "r \<in> set (st_mailboxThreads st)" "\<not> (mt_mailboxId r = b \<and> mt_threadId r \<in> set ts)" by auto
    have "filter (in_scope (mt_threadId r) (mt_mailboxId r)) (st_messages ?s)
        = filter (in_scope (mt_threadId r) (mt_mailboxId r)) (st_messages st)"
      unfolding ms filter_filter using r'(2) by (intro filter_cong refl) (auto simp: in_scope_def dest: P)
    moreover have "exact_row st r" using inv r' by (simp add: store_inv_def summaries_exact_def list_all_iff)
    ultimately show ?thesis by (simp add: exact_row_iff)
  qed
  moreover have "distinct (map summary_key (st_mailboxThreads ?s))"
    using inv delete_scope_tables(3) by (simp add: store_inv_def summaries_exact_def)
  moreover have "distinct (map row_id (st_messages ?s))"
    using inv by (simp add: ms store_inv_def distinct_map_filter)
  ultimately show ?thesis by (simp add: store_inv_def summaries_exact_def list_all_iff)
qed

text \<open>The selection of rows by each branch of the job, and the branch as a deletion of that scope.\<close>

definition deletes :: "string \<Rightarrow> string list \<Rightarrow> bool \<Rightarrow> message_row \<Rightarrow> bool" where
  "deletes b ts emptyAll m \<longleftrightarrow> row_mailboxId m = b \<and> (emptyAll \<or> row_threadId m \<in> set (filter (\<lambda>t. t \<noteq> []) ts))"

lemma deleteMail_run:
  assumes box: "b \<noteq> []" "find_mailbox st b = Some box" "imapDelete \<longrightarrow> ie_usable env (mx_identityId box)"
    "emptyAll \<or> filter (\<lambda>t. t \<noteq> []) ts \<noteq> []"
  obtains sent ts' where "same_tables sent st"
      "\<And>m. m \<in> set (st_messages st) \<Longrightarrow> deletes b ts emptyAll m \<Longrightarrow> row_threadId m \<in> set ts'"
      "emptyAll \<or> ts' = filter (\<lambda>t. t \<noteq> []) ts"
      "deleteMail env b ts emptyAll imapDelete st
         = delete_scope b ts' (filter (deletes b ts emptyAll) (st_messages st)) sent"
proof (cases emptyAll)
  case True
  from box(3) have imap: "(imapDelete \<and> \<not> ie_usable env (mx_identityId box)) = False" by blast
  let ?rows = "filter (\<lambda>m. row_mailboxId m = b) (st_messages st)"
  let ?sent = "if imapDelete then send_all env [DeleteAll (or_default (mx_imapPath box) (mx_name box))] st else st"
  have "deletes b ts emptyAll = (\<lambda>m. row_mailboxId m = b)" using True by (auto simp: deletes_def)
  then show thesis
    using True box same_tables_send_all same_tables_refl
    by (intro that [of ?sent "set_uniq (map row_threadId ?rows)"]) (simp_all add: deleteMail_def imap Let_def del: send_all.simps)
next
  case False
  from box(3) have imap: "(imapDelete \<and> \<not> ie_usable env (mx_identityId box)) = False" by blast
  let ?ts = "filter (\<lambda>t. t \<noteq> []) ts"
  let ?rows = "filter (\<lambda>m. row_mailboxId m = b \<and> row_threadId m \<in> set ?ts) (st_messages st)"
  let ?sent = "if imapDelete then send_until_failure env
    (map (\<lambda>(path, uids). DeleteUids path uids) (collectUidsByMailboxPath ?rows)) st else st"
  have "deletes b ts emptyAll = (\<lambda>m. row_mailboxId m = b \<and> row_threadId m \<in> set ?ts)"
    using False by (auto simp: deletes_def)
  then show thesis
    using False box same_tables_send_until same_tables_refl
    by (intro that [of ?sent ?ts]) (simp_all add: deleteMail_def imap Let_def)
qed

lemma deleteMail_cases:
  obtains (skip) "deleteMail env b ts emptyAll imapDelete st = st"
  | (run) sent ts' where "same_tables sent st"
      "\<And>m. m \<in> set (st_messages st) \<Longrightarrow> deletes b ts emptyAll m \<Longrightarrow> row_threadId m \<in> set ts'"
      "emptyAll \<or> ts' = filter (\<lambda>t. t \<noteq> []) ts"
      "deleteMail env b ts emptyAll imapDelete st
         = delete_scope b ts' (filter (deletes b ts emptyAll) (st_messages st)) sent"
proof (cases "deleteMail env b ts emptyAll imapDelete st = st")
  case False
  obtain box where box: "b \<noteq> []" "find_mailbox st b = Some box" "imapDelete \<longrightarrow> ie_usable env (mx_identityId box)"
    "emptyAll \<or> filter (\<lambda>t. t \<noteq> []) ts \<noteq> []"
    using False unfolding deleteMail_def Let_def by (auto split: option.splits if_splits)
  show thesis by (rule deleteMail_run [OF box]) (rule run)
qed (rule skip)

lemma delete_scope_same: "same_tables sent st \<Longrightarrow> same_tables (delete_scope b ts rows sent) (delete_scope b ts rows st)"
proof -
  assume "same_tables sent st"
  then obtain log where "sent = st\<lparr>st_imap := log\<rparr>" by (auto simp: same_tables_def)
  then have "delete_scope b ts rows sent = (delete_scope b ts rows st)\<lparr>st_imap := log\<rparr>"
    by (simp add: delete_scope_def delete_empty_threads_def delete_summaries_def delete_messages_def Let_def)
  then show ?thesis by (auto simp: same_tables_def)
qed

lemma deleteMail_inv: "store_inv st \<Longrightarrow> store_inv (deleteMail env b ts emptyAll imapDelete st)"
proof -
  assume inv: "store_inv st"
  show ?thesis
  proof (cases rule: deleteMail_cases [of env b ts emptyAll imapDelete st])
    case skip
    with inv show ?thesis by simp
  next
    case (run sent ts')
    have "store_inv (delete_scope b ts' (filter (deletes b ts emptyAll) (st_messages st)) st)"
      by (rule delete_scope_inv [OF inv]) (use run(2) in \<open>auto simp: deletes_def\<close>)
    then show ?thesis using same_tables_inv [OF delete_scope_same [OF run(1)]] run(4) by simp
  qed
qed

subsection \<open>Lemmas: moving\<close>

lemma move_row_sel [simp]:
  "row_id (move_row d i p now m) = row_id m" "row_threadId (move_row d i p now m) = row_threadId m"
  "row_mailboxId (move_row d i p now m) = mx_id d" "row_seen (move_row d i p now m) = row_seen m"
  "row_flagged (move_row d i p now m) = row_flagged m"
  by (simp_all add: move_row_def set_mailbox_path_def Let_def)

definition moved :: "mailbox_row \<Rightarrow> bool \<Rightarrow> string \<Rightarrow> string \<Rightarrow> date \<Rightarrow> string \<Rightarrow> string \<Rightarrow> store \<Rightarrow> store" where
  "moved dest moveImap path op now t b st =
     update_summary t b (move_summary dest op now) (update_messages t b (move_row dest moveImap path now) st)"

lemma moveMail_cases:
  obtains (skip) "moveMail env now t b op to moveImap st = (st, None)"
      "\<And>src dest. find_mailbox st b = Some src \<Longrightarrow> move_destination st src op to = Some dest \<Longrightarrow> scope_messages st t b = []"
  | (run) src dest sent path where "find_mailbox st b = Some src" "move_destination st src op to = Some dest"
      "scope_messages st t b \<noteq> []" "same_tables sent st"
      "moveMail env now t b op to moveImap st = commit sent (moved dest moveImap path op now t b sent)"
proof (cases "\<exists>src dest. find_mailbox st b = Some src \<and> move_destination st src op to = Some dest \<and> scope_messages st t b \<noteq> []")
  case True
  then obtain src dest where c: "find_mailbox st b = Some src" "move_destination st src op to = Some dest"
    "scope_messages st t b \<noteq> []" by blast
  let ?path = "nullish (mx_imapPath dest) (mx_name dest)" and ?by = "collectUidsByMailboxPath (scope_messages st t b)"
  let ?sent = "if moveImap \<and> ?by \<noteq> [] \<and> ie_usable env (mx_identityId src)
    then send_until_failure env (map (\<lambda>(path, uids). MoveUids path uids ?path) ?by) st else st"
  show thesis
    by (rule run [OF c, of ?sent ?path])
       (use c same_tables_send_until same_tables_refl in \<open>simp_all add: moveMail_def moved_def Let_def\<close>)
next
  case False
  then have "moveMail env now t b op to moveImap st = (st, None)"
    by (auto simp: moveMail_def Let_def split: option.splits)
  then show thesis by (rule skip) (use False in blast)
qed

lemma moved_scope:
  assumes "mx_id dest \<noteq> b"
  shows "scope_messages (moved dest i p op now t b st) t b = []"
    and "t' \<noteq> t \<or> b' \<notin> {b, mx_id dest} \<Longrightarrow> scope_messages (moved dest i p op now t b st) t' b' = scope_messages st t' b'"
    and "vacant st t (mx_id dest) \<Longrightarrow>
      scope_messages (moved dest i p op now t b st) t (mx_id dest) = map (move_row dest i p now) (scope_messages st t b)"
proof -
  let ?f = "move_row dest i p now"
  have ms: "st_messages (moved dest i p op now t b st) = update_where (in_scope t b) ?f (st_messages st)"
    by (simp add: moved_def store_simps)
  show "scope_messages (moved dest i p op now t b st) t b = []"
    unfolding scope_messages_def ms using assms by (intro filter_update_where_gone) (simp_all add: in_scope_def)
  show "scope_messages (moved dest i p op now t b st) t' b' = scope_messages st t' b'" if "t' \<noteq> t \<or> b' \<notin> {b, mx_id dest}"
    unfolding scope_messages_def ms using that by (intro filter_update_where_other) (auto simp: in_scope_def)
  show "scope_messages (moved dest i p op now t b st) t (mx_id dest) = map ?f (scope_messages st t b)"
    if "vacant st t (mx_id dest)"
  proof -
    have "\<forall>m \<in> set (st_messages st). \<not> in_scope t (mx_id dest) m"
      using that by (simp add: vacant_def scope_messages_def filter_empty_conv)
    moreover have "in_scope t b m \<Longrightarrow> in_scope t (mx_id dest) (?f m)" for m by (simp add: in_scope_def)
    ultimately show ?thesis unfolding scope_messages_def ms by (rule filter_update_where_moved)
  qed
qed

lemma moved_inv:
  assumes inv: "store_inv st" and dest: "mx_id dest \<noteq> b" and free: "vacant st t (mx_id dest)"
  shows "store_inv (moved dest i p op now t b st)"
proof -
  let ?s = "moved dest i p op now t b st" and ?g = "move_summary dest op now"
  let ?h = "\<lambda>r. if is_summary t b r then ?g r else r"
  have rows: "st_mailboxThreads ?s = map ?h (st_mailboxThreads st)"
    by (simp add: moved_def store_simps update_where_def)
  have old: "r \<in> set (st_mailboxThreads st) \<Longrightarrow> \<not> is_summary t (mx_id dest) r" for r
    using free by (auto simp: vacant_def list_ex_iff)
  have ex: "exact_row ?s (?h r)" if r: "r \<in> set (st_mailboxThreads st)" for r
  proof (cases "is_summary t b r")
    case True
    have "exact_row st r" using inv r by (simp add: store_inv_def summaries_exact_def list_all_iff)
    then have "mt_unreadCount r = unread_of (scope_messages st t b)" "mt_starred r = any_flagged (scope_messages st t b)"
      using True by (simp_all add: exact_row_def is_summary_def)
    moreover have "unread_of (map (move_row dest i p now) ms) = unread_of ms"
      "any_flagged (map (move_row dest i p now) ms) = any_flagged ms" for ms
      by (simp_all add: unread_of_def any_flagged_def filter_map o_def list_ex_iff)
    ultimately show ?thesis using True
      by (simp add: exact_row_def move_summary_def is_summary_def moved_scope(3) [OF dest free])
  next
    case False
    then have "mt_threadId r \<noteq> t \<or> mt_mailboxId r \<notin> {b, mx_id dest}" using old [OF r] by (auto simp: is_summary_def)
    with False show ?thesis using inv r
      by (simp add: exact_row_def moved_scope(2) [OF dest] store_inv_def summaries_exact_def list_all_iff)
  qed
  have "list_all (exact_row ?s) (map ?h (st_mailboxThreads st))"
    unfolding list_all_iff set_map ball_simps(9) using ex by blast
  moreover have "distinct (map summary_key (map ?h (st_mailboxThreads st)))"
  proof -
    have key: "summary_key (?h r) = (if is_summary t b r then (t, mx_id dest) else summary_key r)" for r
      by (simp add: summary_key_def move_summary_def is_summary_def)
    have "inj_on summary_key (set (st_mailboxThreads st))" "distinct (st_mailboxThreads st)"
      using inv by (auto simp: store_inv_def summaries_exact_def distinct_map)
    moreover have "inj_on (\<lambda>r. summary_key (?h r)) (set (st_mailboxThreads st))"
    proof (rule inj_onI)
      fix r q assume rq: "r \<in> set (st_mailboxThreads st)" "q \<in> set (st_mailboxThreads st)"
        and eq: "summary_key (?h r) = summary_key (?h q)"
      have "summary_key x \<noteq> (t, mx_id dest)" if "x \<in> set (st_mailboxThreads st)" for x
        using old [OF that] by (simp add: summary_key_def is_summary_def)
      with rq eq have "is_summary t b r \<longleftrightarrow> is_summary t b q" "\<not> is_summary t b r \<longrightarrow> summary_key r = summary_key q"
        unfolding key by (metis (full_types))+
      then have "summary_key r = summary_key q" by (cases "is_summary t b r") (simp_all add: is_summary_def summary_key_def)
      then show "r = q" using calculation(1) rq by (simp add: inj_on_def)
    qed
    ultimately show ?thesis by (simp only: map_map distinct_map o_def simp_thms)
  qed
  moreover have "map row_id (st_messages ?s) = map row_id (st_messages st)"
    by (simp add: moved_def store_simps map_update_where)
  ultimately show ?thesis
    using inv unfolding store_inv_def summaries_exact_def rows by simp
qed

lemma move_destination_other: "move_destination st src op to = Some dest \<Longrightarrow> op = ''move'' \<Longrightarrow> mx_id dest \<noteq> mx_id src"
  by (cases to) (auto simp: move_destination_def find_Some_iff split: if_splits)

text \<open>None of the Message-IDs that a move would carry over is taken in the destination.\<close>

definition fits :: "store \<Rightarrow> string \<Rightarrow> string \<Rightarrow> mailbox_row \<Rightarrow> bool" where
  "fits st t b dest \<longleftrightarrow>
     list_all (\<lambda>m. (mx_id dest, row_messageId m) \<notin> set (map message_key (st_messages st))) (scope_messages st t b)"

lemma move_row_messageId [simp]: "row_messageId (move_row d i p now m) = row_messageId m"
  by (simp add: move_row_def set_mailbox_path_def Let_def)

lemma moved_message_keys:
  assumes d: "distinct (map message_key (st_messages st))" and fit: "fits st t b dest"
  shows "distinct (map message_key (st_messages (moved dest i p op now t b st)))"
proof -
  let ?h = "\<lambda>m. if in_scope t b m then move_row dest i p now m else m"
  have key: "message_key (?h m) = (if in_scope t b m then (mx_id dest, row_messageId m) else message_key m)" for m
    by (simp add: message_key_def)
  have free: "(mx_id dest, row_messageId x) \<noteq> message_key y" if "x \<in> set (st_messages st)" "in_scope t b x" "y \<in> set (st_messages st)" for x y
    using fit that by (auto simp: fits_def list_all_iff scope_messages_def)
  have "inj_on (\<lambda>m. message_key (?h m)) (set (st_messages st))"
  proof (rule inj_onI)
    fix x y assume xy: "x \<in> set (st_messages st)" "y \<in> set (st_messages st)" and eq: "message_key (?h x) = message_key (?h y)"
    have "in_scope t b x \<longleftrightarrow> in_scope t b y" using eq free [OF xy(1) _ xy(2)] free [OF xy(2) _ xy(1)] unfolding key by (metis (full_types))
    then have "message_key x = message_key y" using eq unfolding key by (cases "in_scope t b x") (auto simp: in_scope_def message_key_def)
    then show "x = y" using d xy by (simp add: distinct_map inj_on_def)
  qed
  then have "distinct (map (\<lambda>m. message_key (?h m)) (st_messages st))" using d by (simp add: distinct_map)
  then show ?thesis by (simp add: moved_def store_simps update_where_def comp_def)
qed

lemma moveMail_commits:
  assumes inv: "store_inv st" and d: "distinct (map message_key (st_messages st))" and box: "find_mailbox st b = Some src"
    "move_destination st src op to = Some dest" and free: "mx_id dest \<noteq> b" "vacant st t (mx_id dest)" and fit: "fits st t b dest"
  shows "snd (moveMail env now t b op to moveImap st) = None"
proof (cases rule: moveMail_cases [of env now t b op to moveImap st])
  case (run src' dest' sent path)
  then have dest: "dest' = dest" using box by simp
  obtain log where sent: "sent = st\<lparr>st_imap := log\<rparr>" using run(4) by (auto simp: same_tables_def)
  have "fits sent t b dest" "vacant sent t (mx_id dest)" "store_inv sent" "distinct (map message_key (st_messages sent))"
    using fit free inv d same_tables_inv [OF run(4)] by (simp_all add: sent fits_def vacant_def scope_messages_def)
  then have "distinct (map message_key (st_messages (moved dest moveImap path op now t b sent)))"
    "store_inv (moved dest moveImap path op now t b sent)"
    using moved_message_keys moved_inv [OF _ free(1)] by blast+
  then show ?thesis by (simp add: run(5) dest commit_def store_inv_def summaries_exact_def)
qed simp

lemma moveMail_committed:
  "find_mailbox st b = Some src \<Longrightarrow> move_destination st src op to = Some dest \<Longrightarrow> mx_id dest \<noteq> b \<Longrightarrow>
   vacant st t (mx_id dest) \<Longrightarrow> snd (moveMail env now t b op to moveImap st) = None \<Longrightarrow>
   let st' = fst (moveMail env now t b op to moveImap st)
   in scope_messages st' t b = []
      \<and> map row_id (scope_messages st' t (mx_id dest)) = map row_id (scope_messages st t b)
      \<and> map row_id (st_messages st') = map row_id (st_messages st)
      \<and> (t' \<noteq> t \<longrightarrow> scope_messages st' t' b' = scope_messages st t' b')"
proof -
  assume a: "find_mailbox st b = Some src" "move_destination st src op to = Some dest" "mx_id dest \<noteq> b"
    "vacant st t (mx_id dest)" and ok: "snd (moveMail env now t b op to moveImap st) = None"
  show ?thesis
  proof (cases rule: moveMail_cases [of env now t b op to moveImap st])
    case skip
    with a have "scope_messages st t b = []" by blast
    with a skip(1) show ?thesis by (simp add: vacant_def)
  next
    case (run src' dest' sent path)
    have "dest' = dest" using a run by simp
    have st': "fst (moveMail env now t b op to moveImap st) = moved dest moveImap path op now t b sent"
      using ok run(5) \<open>dest' = dest\<close> by (auto simp: commit_def split: if_splits)
    have free: "vacant sent t (mx_id dest)"
      using a by (simp add: vacant_def same_tables_scope [OF run(4)] same_tables_sel [OF run(4)])
    have "map row_id (st_messages (moved dest moveImap path op now t b sent)) = map row_id (st_messages st)"
      by (simp add: moved_def store_simps map_update_where same_tables_sel [OF run(4)])
    then show ?thesis
      unfolding st' Let_def
      using moved_scope [OF a(3), where st = sent] free by (simp add: same_tables_scope [OF run(4)] o_def)
  qed
qed

subsection \<open>Properties\<close>

text \<open>
  Setting flags keeps the summaries exact: whatever the job does, whether the IMAP server
  refuses commands or not, every summary row still has the unread count and star of its messages.
\<close>

theorem mailSetFlags_inv: "store_inv st \<Longrightarrow> store_inv (mailSetFlags env now t b op st)"
proof (cases rule: mailSetFlags_cases [of env now t b op st])
  case (run sent)
  assume "store_inv st"
  then have "store_inv sent" using same_tables_inv [OF run(1)] by simp
  then show ?thesis unfolding run(2) by (rule refresh_restores_inv) simp_all
qed simp

theorem mailSetFlags_inv_witness:
  "store_inv (sample_store [sample_row ''1'' ''t'' ''b1'' False] [sample_summary ''t'' ''b1'' 1 1])
   \<and> store_inv (mailSetFlags online 5 ''t'' ''b1'' ''read''
        (sample_store [sample_row ''1'' ''t'' ''b1'' False] [sample_summary ''t'' ''b1'' 1 1]))"
proof -
  have "store_inv (sample_store [sample_row ''1'' ''t'' ''b1'' False] [sample_summary ''t'' ''b1'' 1 1])" by code_simp
  with mailSetFlags_inv [OF this] show ?thesis by blast
qed

text \<open>
  When the mailbox exists, its IMAP client is usable and the operation is known, exactly the
  messages of the thread in that mailbox are changed, each by the operation; the messages of every
  other thread or mailbox stay as they are.
\<close>

theorem mailSetFlags_effect:
  "find_mailbox st b = Some mbx \<Longrightarrow> ie_usable env (mx_identityId mbx) \<Longrightarrow> opToAction op = Some action \<Longrightarrow>
   scope_messages (mailSetFlags env now t b op st) t b = map (apply_op op now) (scope_messages st t b)
   \<and> (t' \<noteq> t \<or> b' \<noteq> b \<longrightarrow> scope_messages (mailSetFlags env now t b op st) t' b' = scope_messages st t' b')"
proof -
  assume a: "find_mailbox st b = Some mbx" "ie_usable env (mx_identityId mbx)" "opToAction op = Some action"
  show ?thesis
  proof (cases "scope_messages st t b = []")
    case True
    with a show ?thesis by (simp add: mailSetFlags_def)
  next
    case False
    let ?sent = "send_all env (map (\<lambda>(path, uids). flag_command action path uids)
      (collectUidsByMailboxPath (js_sort newest_first (scope_messages st t b)))) st"
    have run: "mailSetFlags env now t b op st = refresh_summary now t b (update_messages t b (apply_op op now) ?sent)"
      using a False by (simp add: mailSetFlags_def Let_def)
    have "scope_messages (mailSetFlags env now t b op st) = scope_messages (update_messages t b (apply_op op now) ?sent)"
      unfolding run by (rule scope_messages_cong) (simp add: store_simps)
    moreover have "in_scope t b m \<Longrightarrow> in_scope t b (apply_op op now m)" for m by (simp add: in_scope_def)
    ultimately show ?thesis
      by (auto simp: scope_update_messages same_tables_scope [OF same_tables_send_all])
  qed
qed

theorem mailSetFlags_effect_witness:
  "map row_seen (scope_messages (mailSetFlags online 5 ''t'' ''b1'' ''read''
     (sample_store [sample_row ''1'' ''t'' ''b1'' False, sample_row ''2'' ''t'' ''b2'' False] [])) ''t'' ''b1'') = [True]"
  using mailSetFlags_effect [of "sample_store [sample_row ''1'' ''t'' ''b1'' False, sample_row ''2'' ''t'' ''b2'' False] []"
      "''b1''" "sample_mailbox ''b1'' ''inbox''" online "''read''" "(True, backslash # ''Seen'')" 5 "''t''"]
  by (simp add: sample_store_def sample_mailbox_def find_mailbox_def online_def opToAction_def scope_messages_def
      in_scope_def sample_row_def)

text \<open>
  Moving a thread into a mailbox where it has nothing yet keeps the summaries exact, if the
  transaction commits or not; and if it is rolled back, the tables are as before.
\<close>

theorem moveMail_inv:
  "store_inv st \<Longrightarrow>
   (\<forall>src dest. find_mailbox st b = Some src \<and> move_destination st src op to = Some dest \<longrightarrow>
      mx_id dest \<noteq> b \<and> vacant st t (mx_id dest)) \<Longrightarrow>
   store_inv (fst (moveMail env now t b op to moveImap st))
   \<and> (snd (moveMail env now t b op to moveImap st) \<noteq> None \<longrightarrow>
        same_tables (fst (moveMail env now t b op to moveImap st)) st)"
proof (cases rule: moveMail_cases [of env now t b op to moveImap st])
  case (run src dest sent path)
  assume inv: "store_inv st" and free: "\<forall>src dest. find_mailbox st b = Some src \<and> move_destination st src op to = Some dest \<longrightarrow>
      mx_id dest \<noteq> b \<and> vacant st t (mx_id dest)"
  have "vacant sent t (mx_id dest) = vacant st t (mx_id dest)"
    by (simp add: vacant_def same_tables_scope [OF run(4)] same_tables_sel [OF run(4)])
  then have "store_inv (moved dest moveImap path op now t b sent)"
    using inv free run(1,2) by (intro moved_inv) (simp_all add: same_tables_inv [OF run(4)])
  then show ?thesis unfolding run(5) commit_def using inv run(4) by (simp add: same_tables_inv)
qed simp

theorem moveMail_inv_witness:
  "store_inv (fst (moveMail online 5 ''t'' ''b1'' ''trash'' None True
     (sample_store [sample_row ''1'' ''t'' ''b1'' False] [sample_summary ''t'' ''b1'' 1 1])))"
proof -
  let ?st = "sample_store [sample_row ''1'' ''t'' ''b1'' False] [sample_summary ''t'' ''b1'' 1 1]"
  have "store_inv ?st" by code_simp
  moreover have "find_mailbox ?st ''b1'' = Some (sample_mailbox ''b1'' ''inbox'')"
    "move_destination ?st (sample_mailbox ''b1'' ''inbox'') ''trash'' None = Some (sample_mailbox ''b2'' ''trash'')"
    "mx_id (sample_mailbox ''b2'' ''trash'') \<noteq> ''b1'' \<and> vacant ?st ''t'' (mx_id (sample_mailbox ''b2'' ''trash''))"
    by code_simp+
  ultimately show ?thesis using moveMail_inv [of ?st "''b1''" "''trash''" None "''t''"] by simp
qed


text \<open>
  C12. A move into a mailbox that has nothing of the thread and none of its Message-IDs commits: it
  empties the thread's scope in the source mailbox and puts the same messages, relabelled, into the
  destination; the messages of all other threads stay, and no message is lost or added.
\<close>

theorem moveMail_moves:
  assumes "store_inv st" "distinct (map message_key (st_messages st))" "find_mailbox st b = Some src"
    "move_destination st src op to = Some dest" "mx_id dest \<noteq> b" "vacant st t (mx_id dest)" "fits st t b dest"
  shows "snd (moveMail env now t b op to moveImap st) = None
   \<and> (let st' = fst (moveMail env now t b op to moveImap st)
      in scope_messages st' t b = []
         \<and> map row_id (scope_messages st' t (mx_id dest)) = map row_id (scope_messages st t b)
         \<and> map row_id (st_messages st') = map row_id (st_messages st)
         \<and> (t' \<noteq> t \<longrightarrow> scope_messages st' t' b' = scope_messages st t' b'))"
  using moveMail_commits [OF assms] moveMail_committed [OF assms(3-6)] by blast

theorem moveMail_moves_witness:
  "map row_id (scope_messages (fst (moveMail online 5 ''t'' ''b1'' ''trash'' None True
     (sample_store [sample_row ''1'' ''t'' ''b1'' False] [sample_summary ''t'' ''b1'' 1 1]))) ''t'' ''b2'') = [''1'']"
proof -
  let ?st = "sample_store [sample_row ''1'' ''t'' ''b1'' False] [sample_summary ''t'' ''b1'' 1 1]"
  have "store_inv ?st" "distinct (map message_key (st_messages ?st))" "find_mailbox ?st ''b1'' = Some (sample_mailbox ''b1'' ''inbox'')"
    "move_destination ?st (sample_mailbox ''b1'' ''inbox'') ''trash'' None = Some (sample_mailbox ''b2'' ''trash'')"
    "mx_id (sample_mailbox ''b2'' ''trash'') \<noteq> ''b1''" "vacant ?st ''t'' (mx_id (sample_mailbox ''b2'' ''trash''))"
    "fits ?st ''t'' ''b1'' (sample_mailbox ''b2'' ''trash'')"
    by code_simp+
  from moveMail_moves [OF this, of online 5 True] have "map row_id (scope_messages (fst (moveMail online 5 ''t'' ''b1'' ''trash'' None True ?st)) ''t''
      (mx_id (sample_mailbox ''b2'' ''trash''))) = map row_id (scope_messages ?st ''t'' ''b1'')" by (simp add: Let_def)
  then show ?thesis by (simp add: sample_mailbox_def sample_store_def scope_messages_def in_scope_def sample_row_def)
qed

text \<open>
  Moving a thread into a mailbox that already has a summary of it breaks the primary key of the
  summaries: the transaction is rolled back and the job fails, after the IMAP server was told to move
  the messages.
\<close>

theorem moveMail_conflict:
  "moveMail online 5 ''t'' ''b1'' ''trash'' None True
     (sample_store [sample_row ''1'' ''t'' ''b1'' False, sample_row ''2'' ''t'' ''b2'' True]
        [sample_summary ''t'' ''b1'' 1 1, sample_summary ''t'' ''b2'' 1 0])
   = ((sample_store [sample_row ''1'' ''t'' ''b1'' False, sample_row ''2'' ''t'' ''b2'' True]
        [sample_summary ''t'' ''b1'' 1 1, sample_summary ''t'' ''b2'' 1 0])\<lparr>st_imap := [MoveUids ''INBOX'' [7] ''trash'']\<rparr>,
      Some UniqueViolation)"
  by code_simp

text \<open>
  C13. When the mailbox exists and its IMAP client is usable (or not needed), deleting removes exactly
  the selected messages (those of the mailbox, or of the given threads in it), leaves no summary
  of the scope of a deleted message and adds none, and keeps the remaining summaries exact.
\<close>

theorem deleteMail_correct:
  assumes inv: "store_inv st" and box: "b \<noteq> []" "find_mailbox st b = Some box" "imapDelete \<longrightarrow> ie_usable env (mx_identityId box)"
  shows "let st' = deleteMail env b ts emptyAll imapDelete st
    in store_inv st' \<and> st_messages st' = filter (\<lambda>m. \<not> deletes b ts emptyAll m) (st_messages st)
       \<and> set (st_mailboxThreads st') \<subseteq> set (st_mailboxThreads st)
       \<and> (\<forall>m \<in> set (st_messages st). deletes b ts emptyAll m \<longrightarrow> \<not> list_ex (is_summary (row_threadId m) b) (st_mailboxThreads st'))"
proof (cases "emptyAll \<or> filter (\<lambda>t. t \<noteq> []) ts \<noteq> []")
  case True
  let ?s = "deleteMail env b ts emptyAll imapDelete st"
  obtain sent ts' where run: "same_tables sent st"
      "\<And>m. m \<in> set (st_messages st) \<Longrightarrow> deletes b ts emptyAll m \<Longrightarrow> row_threadId m \<in> set ts'" "emptyAll \<or> ts' = filter (\<lambda>t. t \<noteq> []) ts"
      "?s = delete_scope b ts' (filter (deletes b ts emptyAll) (st_messages st)) sent"
    by (rule deleteMail_run [OF box True]) (rule that)
  have "st_messages ?s = filter (\<lambda>m. \<not> deletes b ts emptyAll m) (st_messages st)"
    using inv unfolding run(4) delete_scope_tables(1) same_tables_sel(1) [OF run(1)] store_inv_def
    by (intro distinct_ids_filter) simp
  moreover have sub: "set (st_mailboxThreads ?s) \<subseteq> {r \<in> set (st_mailboxThreads st). \<not> (mt_mailboxId r = b \<and> mt_threadId r \<in> set ts')}"
    using delete_scope_tables(2) [of b ts' "filter (deletes b ts emptyAll) (st_messages st)" sent]
    by (simp add: run(4) same_tables_sel(2) [OF run(1)])
  moreover have "\<not> list_ex (is_summary (row_threadId m) b) (st_mailboxThreads ?s)"
    if "m \<in> set (st_messages st)" "deletes b ts emptyAll m" for m
    using sub run(2) [OF that] by (auto simp: list_ex_iff is_summary_def)
  ultimately show ?thesis using deleteMail_inv [OF inv, of env b ts emptyAll imapDelete] unfolding Let_def by blast
next
  case False
  then have "deleteMail env b ts emptyAll imapDelete st = st" using box by (auto simp: deleteMail_def Let_def)
  moreover have "\<not> deletes b ts emptyAll m" for m using False by (simp add: deletes_def)
  ultimately show ?thesis using inv by simp
qed

theorem deleteMail_correct_witness:
  "map row_id (st_messages (deleteMail online ''b1'' [''t''] False True
     (sample_store [sample_row ''1'' ''t'' ''b1'' False, sample_row ''2'' ''t'' ''b2'' True]
        [sample_summary ''t'' ''b1'' 1 1, sample_summary ''t'' ''b2'' 1 0]))) = [''2'']"
proof -
  let ?st = "sample_store [sample_row ''1'' ''t'' ''b1'' False, sample_row ''2'' ''t'' ''b2'' True]
        [sample_summary ''t'' ''b1'' 1 1, sample_summary ''t'' ''b2'' 1 0]"
  have "store_inv ?st" "''b1'' \<noteq> []" "find_mailbox ?st ''b1'' = Some (sample_mailbox ''b1'' ''inbox'')"
    "True \<longrightarrow> ie_usable online (mx_identityId (sample_mailbox ''b1'' ''inbox''))" by code_simp+
  from deleteMail_correct [OF this, of "[''t'']" False]
  have "st_messages (deleteMail online ''b1'' [''t''] False True ?st) = filter (\<lambda>m. \<not> deletes ''b1'' [''t''] False m) (st_messages ?st)"
    by (simp only: Let_def)
  then show ?thesis by (simp add: sample_store_def sample_row_def deletes_def)
qed

end
