(* ===== verification/RulesProcessor.thy ===== *)
theory RulesProcessor
  imports MailStore "HOL-Library.Char_ord" "HOL-Library.List_Lexorder"
begin

text \<open>
  \<open>apps/worker/lib/rules/rules-processor.ts\<close> and its \<open>rule-items\<close>: the worker loads the rules of the
  identity that owns the mailbox of a new message, evaluates each on the database row of the message
  and runs the actions of those that match, in order of priority. The worker has its own copy of the
  matcher, over an untyped row; \<open>evalCondition_core\<close> shows that on the columns of the table it
  agrees with the matcher of the core package.
\<close>

subsection \<open>The worker's matcher\<close>

definition rp_push_address :: "(string \<times> jsval) list \<Rightarrow> string list" where
  "rp_push_address obj =
     (case js_prop ''address'' obj of
        JStr a \<Rightarrow> if str_includes a ''@'' then [toLowerCase (trim a)] else []
      | _ \<Rightarrow> [])"

fun rp_walk :: "jsval \<Rightarrow> string list" where
  "rp_walk (JStr s) = map toLowerCase (rx_match_all True email_rx s)"
| "rp_walk (JArr xs) = concat (map rp_walk xs)"
| "rp_walk (JObj obj) =
     rp_push_address obj
     @ (case js_prop ''value'' obj of
          JArr items \<Rightarrow> concat (map (\<lambda>item. case item of JObj i \<Rightarrow> rp_push_address i | _ \<Rightarrow> []) items) | _ \<Rightarrow> [])
     @ (case js_prop ''text'' obj of JStr t \<Rightarrow> map toLowerCase (rx_match_all True email_rx t) | _ \<Rightarrow> [])"
| "rp_walk _ = []"

definition rp_extractEmails :: "jsval \<Rightarrow> string" where
  "rp_extractEmails v = join '', '' (set_uniq (rp_walk v))"

text \<open>\<open>message.headersJson?.[k]\<close>, and \<open>message.a ?? message.b ?? \<dots>\<close>.\<close>

definition rp_header :: "(string \<times> jsval) list \<Rightarrow> string \<Rightarrow> jsval" where
  "rp_header row k = (case js_prop ''headersJson'' row of JObj h \<Rightarrow> js_prop k h | _ \<Rightarrow> JUndef)"

definition rp_getMessageFieldValue :: "(string \<times> jsval) list \<Rightarrow> string \<Rightarrow> jsval" where
  "rp_getMessageFieldValue row field =
     (let p = (\<lambda>k. js_prop k row); h = rp_header row in
      if field = ''from'' then JStr (rp_extractEmails (coalesce (p ''from'') (h ''from'')))
      else if field = ''to'' then JStr (rp_extractEmails (coalesce (p ''to'') (h ''to'')))
      else if field = ''cc'' then JStr (rp_extractEmails (coalesce (p ''cc'') (h ''cc'')))
      else if field = ''bcc'' then JStr (rp_extractEmails (coalesce (p ''bcc'') (h ''bcc'')))
      else if field = ''reply_to''
        then JStr (rp_extractEmails (coalesce (p ''replyTo'') (coalesce (p ''reply_to'') (h ''reply-to''))))
      else if field = ''subject'' then coalesce (p ''subject'') (JStr [])
      else if field = ''text'' then coalesce (p ''text'') (JStr [])
      else if field = ''snippet'' then coalesce (p ''snippet'') (JStr [])
      else if field = ''list_id'' then coalesce (p ''listId'') (coalesce (p ''list_id'') (JStr []))
      else if field = ''subscription_key''
        then coalesce (p ''subscriptionKey'') (coalesce (p ''subscription_key'') (JStr []))
      else if field = ''has_attachments''
        then coalesce (p ''hasAttachments'') (coalesce (p ''has_attachments'') (JBool False))
      else if field = ''size_bytes''
        then coalesce (p ''sizeBytes'') (coalesce (p ''size_bytes'') (coalesce (p ''rawSizeBytes'') (JNum (JFin 0))))
      else JStr [])"

definition evalCondition :: "regex_engine \<Rightarrow> (string \<times> jsval) list \<Rightarrow> rule_condition \<Rightarrow> bool" where
  "evalCondition mk_regex row c =
     (let left = rp_getMessageFieldValue row (rc_field c); op = rc_op c; right = rc_value c in
      if op = ''exists'' then \<not> isEmptyValue left
      else if op = ''not_exists'' then isEmptyValue left
      else if rc_field c = ''has_attachments'' then
        (let l = toBool left; r = toBool right in
         if op = ''eq'' then l = r else if op = ''not_eq'' then l \<noteq> r else False)
      else if rc_field c = ''size_bytes'' then
        (let l = toNumber left; r = toNumber right in
         if op = ''eq'' then l = r
         else if op = ''not_eq'' then l \<noteq> r
         else if op = ''gt'' then l > r
         else if op = ''gte'' then l \<ge> r
         else if op = ''lt'' then l < r
         else if op = ''lte'' then l \<le> r
         else if op = ''in'' then (case right of JArr xs \<Rightarrow> l \<in> set (map toNumber xs) | _ \<Rightarrow> False)
         else if op = ''not_in'' then (case right of JArr xs \<Rightarrow> l \<notin> set (map toNumber xs) | _ \<Rightarrow> False)
         else False)
      else
        (let l = asLowerString left; rStr = asLowerString right in
         if op = ''eq'' then l = rStr
         else if op = ''not_eq'' then l \<noteq> rStr
         else if op = ''contains'' then (if rStr \<noteq> [] then str_includes l rStr else False)
         else if op = ''not_contains'' then (if rStr \<noteq> [] then \<not> str_includes l rStr else True)
         else if op = ''starts_with'' then (if rStr \<noteq> [] then startsWith l rStr else False)
         else if op = ''ends_with'' then (if rStr \<noteq> [] then endsWith l rStr else False)
         else if op = ''regex'' then
           (case (if rStr \<noteq> [] then tryRegex mk_regex (js_String right) else None) of
              Some re \<Rightarrow> re (js_String (coalesce left (JStr []))) | None \<Rightarrow> False)
         else if op = ''in'' then (case right of JArr xs \<Rightarrow> l \<in> set (map asLowerString xs) | _ \<Rightarrow> False)
         else if op = ''not_in'' then (case right of JArr xs \<Rightarrow> l \<notin> set (map asLowerString xs) | _ \<Rightarrow> True)
         else False))"

definition evalMatch :: "regex_engine \<Rightarrow> (string \<times> jsval) list \<Rightarrow> string \<Rightarrow> rule_condition list \<Rightarrow> bool" where
  "evalMatch mk_regex row logic conditions =
     (let results = map (evalCondition mk_regex row) conditions
      in if logic = ''any'' then list_ex (\<lambda>b. b) results else list_all (\<lambda>b. b) results)"

text \<open>The row of a message as the object the matcher reads.\<close>

definition str_or_null :: "string option \<Rightarrow> jsval" where
  "str_or_null v = (case v of None \<Rightarrow> JNull | Some s \<Rightarrow> JStr s)"

definition address_json :: "address_object option \<Rightarrow> jsval" where
  "address_json v =
     (case v of None \<Rightarrow> JNull
      | Some ao \<Rightarrow> JObj
          ([(''value'', case ao_value ao of None \<Rightarrow> JNull
              | Some as \<Rightarrow> JArr (map (\<lambda>a. JObj [(''name'', str_or_null (ma_name a)), (''address'', str_or_null (ma_address a))]) as)),
            (''text'', str_or_null (ao_text ao))]))"

definition row_object :: "message_row \<Rightarrow> (string \<times> jsval) list" where
  "row_object m =
     [(''from'', address_json (row_from m)), (''to'', address_json (row_to m)), (''cc'', address_json (row_cc m)),
      (''bcc'', address_json (row_bcc m)), (''replyTo'', row_replyTo m), (''subject'', str_or_null (row_subject m)),
      (''text'', str_or_null (row_text m)), (''snippet'', str_or_null (row_snippet m)),
      (''hasAttachments'', JBool (row_hasAttachments m)),
      (''sizeBytes'', case row_sizeBytes m of None \<Rightarrow> JNull | Some n \<Rightarrow> JNum (JFin (of_int n))),
      (''headersJson'', case row_headersJson m of None \<Rightarrow> JNull | Some h \<Rightarrow> JObj h)]"

subsection \<open>The actions\<close>

definition markAsRead :: "date \<Rightarrow> string \<Rightarrow> string \<Rightarrow> bool \<Rightarrow> store \<Rightarrow> store" where
  "markAsRead now threadId mailboxId markSmtp st =
     (if mailboxId = [] then st
      else let st1 = update_messages threadId mailboxId (\<lambda>m. m\<lparr>row_seen := True, row_updatedAt := now\<rparr>) st;
               st2 = update_summary threadId mailboxId (\<lambda>r. r\<lparr>mt_unreadCount := 0, mt_updatedAt := now\<rparr>) st1
           in if markSmtp then add_job (JobRefreshThread threadId) (add_job (JobSetFlags threadId mailboxId ''read'') st2)
              else st2)"

definition toggleStar :: "date \<Rightarrow> string \<Rightarrow> string \<Rightarrow> bool \<Rightarrow> store \<Rightarrow> store" where
  "toggleStar now threadId mailboxId imap st =
     (if threadId = [] \<or> mailboxId = [] then st
      else let st1 = (if imap then add_job (JobSetFlags threadId mailboxId ''flag'') st
             else refresh_summary now threadId mailboxId
               (update_messages threadId mailboxId (\<lambda>m. m\<lparr>row_updatedAt := now, row_flagged := True\<rparr>) st))
           in add_job (JobRefreshThread threadId) st1)"

definition moveToTrash :: "string \<Rightarrow> string \<Rightarrow> bool \<Rightarrow> string option \<Rightarrow> store \<Rightarrow> store" where
  "moveToTrash threadId mailboxId moveImap messageId st =
     (if mailboxId = [] then st
      else add_job (JobRefreshThread threadId) (add_job (JobMove threadId mailboxId ''trash'' None messageId moveImap) st))"

text \<open>An insert into \<open>mailbox_thread_labels\<close>, whose key is (thread, mailbox, label).\<close>

definition label_key :: "label_row \<Rightarrow> string \<times> string \<times> string" where
  "label_key l = (lb_threadId l, lb_mailboxId l, lb_labelId l)"

definition insert_label :: "label_row \<Rightarrow> store \<Rightarrow> store \<times> db_error option" where
  "insert_label l st =
     (if label_key l \<in> set (map label_key (st_labels st)) then (st, Some UniqueViolation)
      else (st\<lparr>st_labels := st_labels st @ [l]\<rparr>, None))"

definition run_action :: "date \<Rightarrow> message_row \<Rightarrow> mailbox_row \<Rightarrow> identity_row \<Rightarrow> rule_action_row \<Rightarrow> store
    \<Rightarrow> store \<times> db_error option" where
  "run_action now message mailbox identity act st =
     (let smtp = truthy (idt_smtpAccountId identity); t = row_threadId message; b = mx_id mailbox
      in if rla_actionType act = ''mark_read'' then (markAsRead now t b smtp st, None)
         else if rla_actionType act = ''flag'' then (toggleStar now t b smtp st, None)
         else if rla_actionType act = ''trash'' then (moveToTrash t b smtp (Some (row_id message)) st, None)
         else if rla_actionType act = ''add_label'' then
           (if \<not> truthy (rla_labelId act) then (st, None)
            else insert_label \<lparr>lb_threadId = t, lb_mailboxId = b, lb_ownerId = mx_ownerId mailbox,
                   lb_labelId = nullish (rla_labelId act) []\<rparr> st)
         else (st, None))"

fun run_actions :: "date \<Rightarrow> message_row \<Rightarrow> mailbox_row \<Rightarrow> identity_row \<Rightarrow> rule_action_row list \<Rightarrow> store
    \<Rightarrow> store \<times> db_error option" where
  "run_actions now message mailbox identity [] st = (st, None)"
| "run_actions now message mailbox identity (act # acts) st =
     (case run_action now message mailbox identity act st of
        (st', Some e) \<Rightarrow> (st', Some e)
      | (st', None) \<Rightarrow> run_actions now message mailbox identity acts st')"

subsection \<open>The rules\<close>

definition rule_cmp :: "rule_row \<Rightarrow> rule_row \<Rightarrow> int" where
  "rule_cmp a b = rl_priority a - rl_priority b"

definition action_row_cmp :: "rule_action_row \<Rightarrow> rule_action_row \<Rightarrow> int" where
  "action_row_cmp a b =
     (if rla_ruleId a = rla_ruleId b then rla_order a - rla_order b
      else if rla_ruleId a < rla_ruleId b then -1 else 1)"

definition rule_matches :: "regex_engine \<Rightarrow> message_row \<Rightarrow> rule_row \<Rightarrow> bool" where
  "rule_matches mk_regex message rule =
     (case rl_match rule of None \<Rightarrow> False
      | Some mt \<Rightarrow>
          (case rm_conditions mt of None \<Rightarrow> False | Some [] \<Rightarrow> False
           | Some cs \<Rightarrow> evalMatch mk_regex (row_object message) (rm_logic mt) cs))"

fun run_rules :: "regex_engine \<Rightarrow> date \<Rightarrow> message_row \<Rightarrow> mailbox_row \<Rightarrow> identity_row
    \<Rightarrow> (string, rule_action_row list) js_map \<Rightarrow> rule_row list \<Rightarrow> store \<Rightarrow> store \<times> db_error option" where
  "run_rules mk now message mailbox identity actionsByRuleId [] st = (st, None)"
| "run_rules mk now message mailbox identity actionsByRuleId (rule # rules) st =
     (if \<not> rule_matches mk message rule then run_rules mk now message mailbox identity actionsByRuleId rules st
      else case run_actions now message mailbox identity (nullish (map_of actionsByRuleId (rl_id rule)) []) st of
             (st', Some e) \<Rightarrow> (st', Some e)
           | (st', None) \<Rightarrow> if rl_stopProcessing rule then (st', None)
                            else run_rules mk now message mailbox identity actionsByRuleId rules st')"

definition active_rules :: "store \<Rightarrow> string \<Rightarrow> rule_row list" where
  "active_rules st identityId =
     js_sort rule_cmp (filter (\<lambda>r. rl_identityId r = identityId \<and> rl_enabled r) (st_rules st))"

definition actions_by_rule :: "store \<Rightarrow> rule_row list \<Rightarrow> (string, rule_action_row list) js_map" where
  "actions_by_rule st rules =
     group_into rla_ruleId
       (js_sort action_row_cmp (filter (\<lambda>a. rla_ruleId a \<in> set (map rl_id rules)) (st_ruleActions st)))"

definition processRules :: "regex_engine \<Rightarrow> date \<Rightarrow> string \<Rightarrow> store \<Rightarrow> store \<times> db_error option" where
  "processRules mk now messageId st =
     (case find (\<lambda>m. row_id m = messageId) (st_messages st) of
        None \<Rightarrow> (st, None)
      | Some message \<Rightarrow>
          (case find_mailbox st (row_mailboxId message) of
             None \<Rightarrow> (st, None)
           | Some mailbox \<Rightarrow>
               if row_threadId message \<notin> set (map tw_id (st_threads st)) then (st, None)
               else (case find_identity st (mx_identityId mailbox) of
                  None \<Rightarrow> (st, None)
                | Some identity \<Rightarrow>
                    let rules = active_rules st (idt_id identity)
                    in if rules = [] then (st, None)
                       else run_rules mk now message mailbox identity (actions_by_rule st rules) rules st)))"

subsection \<open>The worker's matcher is the matcher of the core package\<close>

text \<open>The columns of a row as the argument of the core matcher; the table has no list headers.\<close>

definition row_for_rules :: "message_row \<Rightarrow> message_for_rules" where
  "row_for_rules m =
     \<lparr>mf_from = address_json (row_from m), mf_to = address_json (row_to m), mf_cc = address_json (row_cc m),
      mf_bcc = address_json (row_bcc m), mf_replyTo = row_replyTo m, mf_subject = row_subject m,
      mf_text = row_text m, mf_snippet = row_snippet m, mf_listId = None, mf_subscriptionKey = None,
      mf_hasAttachments = Some (row_hasAttachments m),
      mf_sizeBytes = map_option (\<lambda>n. JFin (of_int n)) (row_sizeBytes m), mf_headersJson = row_headersJson m\<rparr>"

lemma rp_walk_core: "rp_walk v = walk v"
proof (induction v rule: walk.induct)
  case (4 xs)
  then have "map rp_walk xs = map walk xs" by simp
  then show ?case by (simp only: rp_walk.simps walk.simps)
next
  case (5 obj)
  have p: "rp_push_address = push_address" by (simp add: fun_eq_iff rp_push_address_def push_address_def)
  have i: "push_item_address = (\<lambda>item. case item of JObj i \<Rightarrow> push_address i | _ \<Rightarrow> [])"
    by (simp add: fun_eq_iff push_item_address_def)
  show ?case unfolding rp_walk.simps walk.simps p i pushEmail_def by (rule refl)
qed (simp_all add: pushEmail_def)

lemma rp_extractEmails_core: "rp_extractEmails = extractEmails"
  by (simp add: fun_eq_iff rp_extractEmails_def extractEmails_def rp_walk_core)

lemma rp_header_core: "rp_header (row_object m) k = header (row_for_rules m) k"
  by (simp add: rp_header_def header_def row_object_def row_for_rules_def js_prop_def split: option.split)

lemma coalesce_str_or_null: "coalesce (str_or_null v) (JStr []) = JStr (nullish v [])"
  by (simp add: str_or_null_def coalesce_def split: option.split)

lemma row_addresses:
  "js_prop ''from'' (row_object m) = mf_from (row_for_rules m)"
  "js_prop ''to'' (row_object m) = mf_to (row_for_rules m)"
  "js_prop ''cc'' (row_object m) = mf_cc (row_for_rules m)"
  "js_prop ''bcc'' (row_object m) = mf_bcc (row_for_rules m)"
  "js_prop ''replyTo'' (row_object m) = mf_replyTo (row_for_rules m)"
  by (simp_all add: row_object_def row_for_rules_def js_prop_def)

lemma row_strings:
  "js_prop ''subject'' (row_object m) = str_or_null (mf_subject (row_for_rules m))"
  "js_prop ''text'' (row_object m) = str_or_null (mf_text (row_for_rules m))"
  "js_prop ''snippet'' (row_object m) = str_or_null (mf_snippet (row_for_rules m))"
  by (simp_all add: row_object_def row_for_rules_def js_prop_def)

lemma row_missing:
  "js_prop ''reply_to'' (row_object m) = JUndef"
  "js_prop ''listId'' (row_object m) = JUndef"
  "js_prop ''list_id'' (row_object m) = JUndef"
  "js_prop ''subscriptionKey'' (row_object m) = JUndef"
  "js_prop ''subscription_key'' (row_object m) = JUndef"
  "js_prop ''has_attachments'' (row_object m) = JUndef"
  "js_prop ''size_bytes'' (row_object m) = JUndef"
  "js_prop ''rawSizeBytes'' (row_object m) = JUndef"
  by (simp_all add: row_object_def js_prop_def)

lemma row_has_attachments:
  "coalesce (js_prop ''hasAttachments'' (row_object m)) d = JBool (nullish (mf_hasAttachments (row_for_rules m)) False)"
  by (simp add: row_object_def row_for_rules_def js_prop_def coalesce_def)

lemma row_size:
  "coalesce (js_prop ''sizeBytes'' (row_object m)) (JNum (JFin 0)) = JNum (nullish (mf_sizeBytes (row_for_rules m)) (JFin 0))"
  by (cases "row_sizeBytes m") (simp_all add: row_object_def row_for_rules_def js_prop_def coalesce_def)

lemma coalesce_JUndef: "coalesce JUndef v = v"
  by (simp add: coalesce_def)

lemma row_lists: "mf_listId (row_for_rules m) = None" "mf_subscriptionKey (row_for_rules m) = None"
  by (simp_all add: row_for_rules_def)

lemma rp_getMessageFieldValue_core:
  "rp_getMessageFieldValue (row_object m) field = getMessageFieldValue (row_for_rules m) field"
  unfolding rp_getMessageFieldValue_def getMessageFieldValue_def Let_def
  by (simp only: rp_extractEmails_core rp_header_core row_addresses row_strings coalesce_str_or_null
      row_missing coalesce_JUndef row_has_attachments row_size row_lists nullish.simps)

text \<open>
  The worker evaluates a condition on a database row exactly as \<open>evaluateCondition\<close> of the core
  package does on the columns of that row: the two copies of the matcher cannot disagree about
  whether a rule fires.\<close>

theorem evalCondition_core:
  "evalCondition mk (row_object m) c = evaluateCondition mk (row_for_rules m) c"
  unfolding evalCondition_def evaluateCondition_def eval_boolean_def eval_numeric_def eval_string_def Let_def
    rp_getMessageFieldValue_core by (rule refl)

subsection \<open>What the actions keep\<close>

lemma markAsRead_inv:
  assumes "store_inv st"
  shows "store_inv (markAsRead now t b smtp st)"
proof -
  let ?f = "\<lambda>m. m\<lparr>row_seen := True, row_updatedAt := now\<rparr>" and ?g = "\<lambda>r. r\<lparr>mt_unreadCount := 0, mt_updatedAt := now\<rparr>"
  have "summaries_exact (update_summary t b ?g (update_messages t b ?f st))"
    using assms by (intro update_restores)
      (auto simp: store_inv_def summary_key_def exact_row_def is_summary_def unread_of_def any_flagged_def
        list_ex_iff in_scope_def)
  moreover have "map row_id (update_where (in_scope t b) ?f (st_messages st)) = map row_id (st_messages st)"
    by (rule map_update_where) simp
  ultimately have "store_inv (update_summary t b ?g (update_messages t b ?f st))"
    using assms by (simp add: store_inv_def store_simps)
  then show ?thesis
    using assms by (auto simp: markAsRead_def Let_def store_simps intro: store_inv_cong [THEN iffD1, rotated 2])
qed

lemma toggleStar_inv: "store_inv st \<Longrightarrow> store_inv (toggleStar now t b imap st)"
  using refresh_restores_inv [of st "\<lambda>m. m\<lparr>row_updatedAt := now, row_flagged := True\<rparr>" now t b]
  by (auto simp: toggleStar_def Let_def store_simps intro: store_inv_cong [THEN iffD1, rotated 2])

lemma moveToTrash_inv: "store_inv st \<Longrightarrow> store_inv (moveToTrash t b imap i st)"
  by (auto simp: moveToTrash_def store_simps intro: store_inv_cong [THEN iffD1, rotated 2])

lemma insert_label_inv: "store_inv st \<Longrightarrow> store_inv (fst (insert_label l st))"
  by (auto simp: insert_label_def intro: store_inv_cong [THEN iffD1, rotated 2])

lemma run_action_inv: "store_inv st \<Longrightarrow> store_inv (fst (run_action now m b i act st))"
  by (simp add: run_action_def Let_def markAsRead_inv toggleStar_inv moveToTrash_inv insert_label_inv)

text \<open>
  What a run of the rules may change: in the messages of one thread of one mailbox the read and star
  marks, which are only ever set; the jobs and the labels, which only grow; the summaries.
\<close>

definition row_marked :: "string \<Rightarrow> string \<Rightarrow> message_row \<Rightarrow> message_row \<Rightarrow> bool" where
  "row_marked t b m m' \<longleftrightarrow>
     m' = m \<or>
     (in_scope t b m
      \<and> m' = m\<lparr>row_seen := row_seen m', row_flagged := row_flagged m', row_updatedAt := row_updatedAt m'\<rparr>
      \<and> (row_seen m \<longrightarrow> row_seen m') \<and> (row_flagged m \<longrightarrow> row_flagged m'))"

definition rules_frame :: "string \<Rightarrow> string \<Rightarrow> store \<Rightarrow> store \<Rightarrow> bool" where
  "rules_frame t b st st' \<longleftrightarrow>
     list_all2 (row_marked t b) (st_messages st) (st_messages st')
     \<and> filter (\<lambda>r. \<not> is_summary t b r) (st_mailboxThreads st') = filter (\<lambda>r. \<not> is_summary t b r) (st_mailboxThreads st)
     \<and> prefix (st_jobs st) (st_jobs st') \<and> prefix (st_labels st) (st_labels st')
     \<and> st_mailboxes st' = st_mailboxes st \<and> st_identities st' = st_identities st \<and> st_threads st' = st_threads st
     \<and> st_rules st' = st_rules st \<and> st_ruleActions st' = st_ruleActions st \<and> st_imap st' = st_imap st"

lemma row_marked_refl: "row_marked t b m m"
  by (simp add: row_marked_def)

lemma row_marked_trans:
  assumes "row_marked t b m m'" "row_marked t b m' m''"
  shows "row_marked t b m m''"
  using assms
proof (cases "m' = m \<or> m'' = m'")
  case False
  then have s: "in_scope t b m"
    and 1: "m' = m\<lparr>row_seen := row_seen m', row_flagged := row_flagged m', row_updatedAt := row_updatedAt m'\<rparr>"
    and 2: "m'' = m'\<lparr>row_seen := row_seen m'', row_flagged := row_flagged m'', row_updatedAt := row_updatedAt m''\<rparr>"
    and "row_seen m \<longrightarrow> row_seen m''" "row_flagged m \<longrightarrow> row_flagged m''"
    using assms unfolding row_marked_def by blast+
  moreover have "m'' = m\<lparr>row_seen := row_seen m'', row_flagged := row_flagged m'', row_updatedAt := row_updatedAt m''\<rparr>"
    by (subst 2, subst 1) simp
  ultimately show ?thesis unfolding row_marked_def by blast
qed auto

lemma rows_marked_trans:
  "list_all2 (row_marked t b) xs ys \<Longrightarrow> list_all2 (row_marked t b) ys zs \<Longrightarrow> list_all2 (row_marked t b) xs zs"
  by (rule list_all2_trans [of "row_marked t b" "row_marked t b" "row_marked t b"]) (rule row_marked_trans)

lemma rules_frame_refl: "rules_frame t b st st"
  by (simp add: rules_frame_def row_marked_refl list_all2_refl)

lemma rules_frame_trans: "rules_frame t b st st' \<Longrightarrow> rules_frame t b st' st'' \<Longrightarrow> rules_frame t b st st''"
  unfolding rules_frame_def
  using rows_marked_trans [of t b "st_messages st" "st_messages st'" "st_messages st''"]
    prefix_order.trans [of "st_jobs st" "st_jobs st'" "st_jobs st''"]
    prefix_order.trans [of "st_labels st" "st_labels st'" "st_labels st''"]
  by simp

lemma rules_frame_update:
  assumes "\<And>m. in_scope t b m \<Longrightarrow> row_marked t b m (f m)" "\<And>r. summary_key (g r) = summary_key r"
  shows "rules_frame t b st (update_summary t b g (update_messages t b f st))"
proof -
  have "list_all2 (row_marked t b) ms (update_where (in_scope t b) f ms)" for ms
    using assms(1) by (induction ms) (auto simp: update_where_def row_marked_refl)
  moreover have "filter (\<lambda>r. \<not> is_summary t b r) (update_where (is_summary t b) g rs) = filter (\<lambda>r. \<not> is_summary t b r) rs"
    for rs using assms(2) by (intro filter_update_where_other) (simp add: is_summary_def summary_key_def)
  ultimately show ?thesis by (simp add: rules_frame_def store_simps)
qed

lemma rules_frame_add_job: "rules_frame t b st (add_job j st)"
  by (simp add: rules_frame_def store_simps row_marked_refl list_all2_refl)

lemmas rules_frame_then_job = rules_frame_trans [OF _ rules_frame_add_job]

lemma markAsRead_frame: "rules_frame t b st (markAsRead now t b smtp st)"
  unfolding markAsRead_def Let_def
  by (auto intro!: rules_frame_refl rules_frame_update rules_frame_then_job simp: row_marked_def summary_key_def)

lemma toggleStar_frame: "rules_frame t b st (toggleStar now t b imap st)"
  unfolding toggleStar_def Let_def refresh_summary_def
  by (auto intro!: rules_frame_refl rules_frame_update rules_frame_then_job simp: row_marked_def summary_key_def)

lemma moveToTrash_frame: "rules_frame t b st (moveToTrash t b imap i st)"
  unfolding moveToTrash_def by (auto intro!: rules_frame_refl rules_frame_then_job)

lemma insert_label_frame: "rules_frame t b st (fst (insert_label l st))"
  by (simp add: insert_label_def rules_frame_def row_marked_refl list_all2_refl)

lemma run_action_frame: "rules_frame (row_threadId m) (mx_id b) st (fst (run_action now m b i act st))"
  by (simp add: run_action_def Let_def markAsRead_frame toggleStar_frame moveToTrash_frame insert_label_frame rules_frame_refl)

subsection \<open>From one action to a whole run\<close>

text \<open>An effect that every action has, and that composes, is an effect of every run of the rules.\<close>

locale rule_effect =
  fixes R :: "string \<Rightarrow> string \<Rightarrow> store \<Rightarrow> store \<Rightarrow> bool"
  assumes R_refl: "R t b st st"
    and R_trans: "R t b st st' \<Longrightarrow> R t b st' st'' \<Longrightarrow> R t b st st''"
    and R_action: "R (row_threadId m) (mx_id box) st (fst (run_action now m box idt act st))"
begin

lemma run_actions_effect: "R (row_threadId m) (mx_id box) st (fst (run_actions now m box idt acts st))"
proof (induction acts arbitrary: st)
  case (Cons act acts)
  obtain st' e where r: "run_action now m box idt act st = (st', e)" by (cases "run_action now m box idt act st")
  then have "R (row_threadId m) (mx_id box) st st'" using R_action [of m box st now idt act] by simp
  then show ?case using r Cons.IH [of st'] by (cases e) (auto intro: R_trans)
qed (simp add: R_refl)

lemma run_rules_effect: "R (row_threadId m) (mx_id box) st (fst (run_rules mk now m box idt acts rules st))"
proof (induction rules arbitrary: st)
  case (Cons rule rules)
  let ?acts = "nullish (map_of acts (rl_id rule)) []"
  obtain st' e where r: "run_actions now m box idt ?acts st = (st', e)" by (cases "run_actions now m box idt ?acts st")
  then have "R (row_threadId m) (mx_id box) st st'" using run_actions_effect [of m box st now idt ?acts] by simp
  then show ?case using r Cons.IH [of st] Cons.IH [of st'] by (cases e) (auto intro: R_trans)
qed (simp add: R_refl)

lemma processRules_effect:
  assumes "find (\<lambda>m. row_id m = i) (st_messages st) = Some m"
  shows "R (row_threadId m) (row_mailboxId m) st (fst (processRules mk now i st))"
proof -
  have "mx_id box = row_mailboxId m" if "find_mailbox st (row_mailboxId m) = Some box" for box
    using that by (auto simp: find_mailbox_def find_Some_iff)
  then show ?thesis
    using assms run_rules_effect [of m]
    by (auto simp: processRules_def Let_def R_refl split: option.split) metis
qed

end

interpretation kept: rule_effect "\<lambda>t b st st'. store_inv st \<longrightarrow> store_inv st'"
  by unfold_locales (simp_all add: run_action_inv)

interpretation framed: rule_effect rules_frame
  by unfold_locales (rule rules_frame_refl, erule (1) rules_frame_trans, rule run_action_frame)

subsection \<open>The actions of a run\<close>

interpretation rule_order: key_comparator rl_priority rule_cmp
  by unfold_locales (simp add: rule_cmp_def)

interpretation action_row_order: js_comparator action_row_cmp
  by unfold_locales (auto simp: action_row_cmp_def split: if_splits)

text \<open>
  What the rules of an identity amount to: those that match, up to and including the first that
  stops the processing, each with its actions by their order number.
\<close>

definition ordered_actions :: "store \<Rightarrow> rule_row \<Rightarrow> rule_action_row list" where
  "ordered_actions st rule =
     js_sort (\<lambda>a b. rla_order a - rla_order b) (filter (\<lambda>a. rla_ruleId a = rl_id rule) (st_ruleActions st))"

definition fired_rules :: "regex_engine \<Rightarrow> message_row \<Rightarrow> rule_row list \<Rightarrow> rule_row list" where
  "fired_rules mk m rules =
     (let matching = filter (rule_matches mk m) rules
      in takeWhile (\<lambda>r. \<not> rl_stopProcessing r) matching @ take 1 (dropWhile (\<lambda>r. \<not> rl_stopProcessing r) matching))"

lemma run_actions_append:
  "run_actions now m b i (xs @ ys) st =
     (case run_actions now m b i xs st of (st', Some e) \<Rightarrow> (st', Some e) | (st', None) \<Rightarrow> run_actions now m b i ys st')"
  by (induction xs arbitrary: st) (auto split: prod.split option.split)

lemma fired_rules_Cons:
  "fired_rules mk m (rule # rules) =
     (if \<not> rule_matches mk m rule then fired_rules mk m rules
      else rule # (if rl_stopProcessing rule then [] else fired_rules mk m rules))"
  by (simp add: fired_rules_def Let_def)

lemma run_rules_fired:
  "run_rules mk now m b i acts rules st =
     run_actions now m b i (concat (map (\<lambda>r. nullish (map_of acts (rl_id r)) []) (fired_rules mk m rules))) st"
proof (induction rules arbitrary: st)
  case (Cons rule rules)
  then show ?case by (auto simp: fired_rules_Cons run_actions_append split: prod.split option.split)
qed (simp add: fired_rules_def)

lemma js_sort_cong:
  "(\<And>x y. x \<in> set xs \<Longrightarrow> y \<in> set xs \<Longrightarrow> cmp x y = cmp' x y) \<Longrightarrow> js_sort cmp xs = js_sort cmp' xs"
  using js_sort_map [of xs cmp "\<lambda>x. x" cmp'] by simp

lemma actions_by_rule_ordered:
  assumes "rule \<in> set rules"
  shows "nullish (map_of (actions_by_rule st rules) (rl_id rule)) [] = ordered_actions st rule"
proof -
  let ?sel = "\<lambda>a. rla_ruleId a \<in> set (map rl_id rules)" and ?own = "\<lambda>a. rla_ruleId a = rl_id rule"
  have "nullish (map_of (actions_by_rule st rules) (rl_id rule)) []
      = filter ?own (js_sort action_row_cmp (filter ?sel (st_ruleActions st)))"
    unfolding actions_by_rule_def by (rule nullish_group_into)
  also have "\<dots> = js_sort action_row_cmp (filter ?own (filter ?sel (st_ruleActions st)))"
    by (rule action_row_order.filter_js_sort)
  also have "filter ?own (filter ?sel (st_ruleActions st)) = filter ?own (st_ruleActions st)"
    unfolding filter_filter using assms by (intro filter_cong) auto
  also have "js_sort action_row_cmp (filter ?own (st_ruleActions st)) = ordered_actions st rule"
    unfolding ordered_actions_def by (rule js_sort_cong) (simp add: action_row_cmp_def)
  finally show ?thesis .
qed

lemma set_fired_rules: "set (fired_rules mk m rules) \<subseteq> set rules"
  by (auto simp: fired_rules_def Let_def dest!: set_takeWhileD in_set_takeD set_dropWhileD)

subsection \<open>Sample rules, for the witnesses\<close>

definition sample_rule :: "string \<Rightarrow> int \<Rightarrow> bool \<Rightarrow> rule_row" where
  "sample_rule i priority stop =
     \<lparr>rl_id = i, rl_identityId = ''i'', rl_enabled = True, rl_priority = priority,
      rl_match = Some \<lparr>rm_version = 1, rm_logic = ''all'',
        rm_conditions = Some [\<lparr>rc_field = ''subject'', rc_op = ''eq'', rc_value = JStr ''S''\<rparr>]\<rparr>, rl_stopProcessing = stop\<rparr>"

text \<open>Two rules on the same subject: the first adds a label, the second marks the thread as read.\<close>

definition sample_ruled :: "message_row list \<Rightarrow> mailbox_thread_row list \<Rightarrow> label_row list \<Rightarrow> store" where
  "sample_ruled ms rs ls =
     (sample_store ms rs)\<lparr>st_labels := ls, st_rules := [sample_rule ''read'' 2 False, sample_rule ''label'' 1 False],
       st_ruleActions :=
         [\<lparr>rla_ruleId = ''label'', rla_actionType = ''add_label'', rla_order = 0, rla_labelId = Some ''L''\<rparr>,
          \<lparr>rla_ruleId = ''read'', rla_actionType = ''mark_read'', rla_order = 0, rla_labelId = None\<rparr>]\<rparr>"

definition sample_label :: label_row where
  "sample_label = \<lparr>lb_threadId = ''t'', lb_mailboxId = ''b1'', lb_ownerId = ''o'', lb_labelId = ''L''\<rparr>"

subsection \<open>Properties\<close>

text \<open>
  C10. A rule fires on a stored message exactly when it has a non-empty list of conditions and
  \<open>evaluateMatch\<close> of the core package accepts the columns of the message: the two copies of the
  matcher cannot disagree.\<close>

theorem rule_matches_core:
  "rule_matches mk m rule \<longleftrightarrow>
     (\<exists>mt. rl_match rule = Some mt \<and> rm_conditions mt \<notin> {None, Some []}
        \<and> evaluateMatch mk (row_for_rules m) mt = Inr True)"
proof -
  have "evalCondition mk (row_object m) = evaluateCondition mk (row_for_rules m)"
    by (simp add: fun_eq_iff evalCondition_core)
  then show ?thesis
    by (auto simp: rule_matches_def evaluateMatch_def evalMatch_def Let_def split: option.splits list.splits)
qed

text \<open>
  Running the rules on a message keeps the store well formed: ids stay distinct and every
  summary row still has the unread count and the star of its messages, whichever rules fire and even
  when an action fails midway.\<close>

theorem processRules_inv: "store_inv st \<Longrightarrow> store_inv (fst (processRules mk now messageId st))"
proof (cases "find (\<lambda>m. row_id m = messageId) (st_messages st)")
  case None
  then show "store_inv st \<Longrightarrow> ?thesis" by (simp add: processRules_def)
next
  case (Some m)
  then show "store_inv st \<Longrightarrow> ?thesis" using kept.processRules_effect [OF Some] by blast
qed

theorem processRules_inv_witness:
  "store_inv (fst (processRules (\<lambda>_. None) 5 ''1''
     (sample_ruled [sample_row ''1'' ''t'' ''b1'' False] [sample_summary ''t'' ''b1'' 1 1] [])))
   \<and> map row_seen (st_messages (fst (processRules (\<lambda>_. None) 5 ''1''
     (sample_ruled [sample_row ''1'' ''t'' ''b1'' False] [sample_summary ''t'' ''b1'' 1 1] [])))) = [True]"
proof -
  have "store_inv (sample_ruled [sample_row ''1'' ''t'' ''b1'' False] [sample_summary ''t'' ''b1'' 1 1] [])" by code_simp
  moreover have "map row_seen (st_messages (fst (processRules (\<lambda>_. None) 5 ''1''
     (sample_ruled [sample_row ''1'' ''t'' ''b1'' False] [sample_summary ''t'' ''b1'' 1 1] [])))) = [True]" by code_simp
  ultimately show ?thesis using processRules_inv by blast
qed

text \<open>
  C11. Running the rules on a message touches only its thread in its mailbox: other messages and
  other summaries stay as they are, marks are only set and never cleared, nothing is moved or
  deleted at once (moves are queued), jobs and labels are only added.\<close>

theorem processRules_frame:
  "find (\<lambda>m. row_id m = messageId) (st_messages st) = Some m \<Longrightarrow>
   rules_frame (row_threadId m) (row_mailboxId m) st (fst (processRules mk now messageId st))"
  by (rule framed.processRules_effect)

theorem processRules_frame_witness:
  "rules_frame ''t'' ''b1'' (sample_ruled [sample_row ''1'' ''t'' ''b1'' False, sample_row ''2'' ''t'' ''b2'' False] [] [])
     (fst (processRules (\<lambda>_. None) 5 ''1''
       (sample_ruled [sample_row ''1'' ''t'' ''b1'' False, sample_row ''2'' ''t'' ''b2'' False] [] [])))"
  using processRules_frame [of "''1''" "sample_ruled [sample_row ''1'' ''t'' ''b1'' False, sample_row ''2'' ''t'' ''b2'' False] [] []"
      "sample_row ''1'' ''t'' ''b1'' False" "\<lambda>_. None" 5]
  by (simp add: sample_ruled_def sample_store_def sample_row_def)

text \<open>
  C9. A run of the rules is the run of one list of actions: the enabled rules of the identity
  in order of priority that match the message, cut after the first with \<open>stopProcessing\<close>, each
  with its actions in their order; a failing action ends the run.\<close>

theorem processRules_refines:
  "find (\<lambda>m. row_id m = messageId) (st_messages st) = Some m \<Longrightarrow>
   find_mailbox st (row_mailboxId m) = Some mailbox \<Longrightarrow> row_threadId m \<in> set (map tw_id (st_threads st)) \<Longrightarrow>
   find_identity st (mx_identityId mailbox) = Some identity \<Longrightarrow>
   processRules mk now messageId st =
     run_actions now m mailbox identity
       (concat (map (ordered_actions st) (fired_rules mk m (active_rules st (idt_id identity))))) st
   \<and> sorted (map rl_priority (active_rules st (idt_id identity)))
   \<and> set (active_rules st (idt_id identity)) = {r \<in> set (st_rules st). rl_identityId r = idt_id identity \<and> rl_enabled r}"
proof -
  assume a: "find (\<lambda>m. row_id m = messageId) (st_messages st) = Some m"
    "find_mailbox st (row_mailboxId m) = Some mailbox" "row_threadId m \<in> set (map tw_id (st_threads st))"
    "find_identity st (mx_identityId mailbox) = Some identity"
  let ?rules = "active_rules st (idt_id identity)"
  have "map (\<lambda>r. nullish (map_of (actions_by_rule st ?rules) (rl_id r)) []) (fired_rules mk m ?rules)
      = map (ordered_actions st) (fired_rules mk m ?rules)"
    using set_fired_rules [of mk m ?rules] by (intro map_cong refl actions_by_rule_ordered) blast
  then have "run_rules mk now m mailbox identity (actions_by_rule st ?rules) ?rules st =
      run_actions now m mailbox identity (concat (map (ordered_actions st) (fired_rules mk m ?rules))) st"
    by (simp only: run_rules_fired)
  moreover have "fired_rules mk m [] = []" by (simp add: fired_rules_def)
  ultimately have "processRules mk now messageId st =
      run_actions now m mailbox identity (concat (map (ordered_actions st) (fired_rules mk m ?rules))) st"
    using a by (auto simp: processRules_def Let_def)
  then show ?thesis using rule_order.sorted_keys by (auto simp: active_rules_def)
qed

theorem processRules_refines_witness:
  "processRules (\<lambda>_. None) 5 ''1'' (sample_ruled [sample_row ''1'' ''t'' ''b1'' False] [] []) =
     run_actions 5 (sample_row ''1'' ''t'' ''b1'' False) (sample_mailbox ''b1'' ''inbox'')
       \<lparr>idt_id = ''i'', idt_publicId = ''p'', idt_smtpAccountId = None\<rparr>
       [\<lparr>rla_ruleId = ''label'', rla_actionType = ''add_label'', rla_order = 0, rla_labelId = Some ''L''\<rparr>,
        \<lparr>rla_ruleId = ''read'', rla_actionType = ''mark_read'', rla_order = 0, rla_labelId = None\<rparr>]
       (sample_ruled [sample_row ''1'' ''t'' ''b1'' False] [] [])"
proof -
  let ?st = "sample_ruled [sample_row ''1'' ''t'' ''b1'' False] [] []"
  let ?idt = "\<lparr>idt_id = ''i'', idt_publicId = ''p'', idt_smtpAccountId = None\<rparr>"
  have h: "find (\<lambda>m. row_id m = ''1'') (st_messages ?st) = Some (sample_row ''1'' ''t'' ''b1'' False)"
    "find_mailbox ?st (row_mailboxId (sample_row ''1'' ''t'' ''b1'' False)) = Some (sample_mailbox ''b1'' ''inbox'')"
    "row_threadId (sample_row ''1'' ''t'' ''b1'' False) \<in> set (map tw_id (st_threads ?st))"
    "find_identity ?st (mx_identityId (sample_mailbox ''b1'' ''inbox'')) = Some ?idt"
    by (simp_all add: sample_ruled_def sample_store_def sample_row_def find_mailbox_def sample_mailbox_def find_identity_def)
  have "concat (map (ordered_actions ?st) (fired_rules (\<lambda>_. None) (sample_row ''1'' ''t'' ''b1'' False) (active_rules ?st (idt_id ?idt))))
      = [\<lparr>rla_ruleId = ''label'', rla_actionType = ''add_label'', rla_order = 0, rla_labelId = Some ''L''\<rparr>,
         \<lparr>rla_ruleId = ''read'', rla_actionType = ''mark_read'', rla_order = 0, rla_labelId = None\<rparr>]" by code_simp
  then show ?thesis using processRules_refines [OF h, of "\<lambda>_. None" 5] by simp
qed

text \<open>
  The label of a thread is inserted without a conflict clause: when a second message of a
  labelled thread arrives, the insert violates the primary key, the job fails before the rules of
  lower priority run, and the new message is not marked as read.\<close>

theorem processRules_label_conflict:
  "processRules (\<lambda>_. None) 5 ''2''
     (sample_ruled [sample_row ''1'' ''t'' ''b1'' True, sample_row ''2'' ''t'' ''b1'' False] [sample_summary ''t'' ''b1'' 2 1]
        [sample_label])
   = (sample_ruled [sample_row ''1'' ''t'' ''b1'' True, sample_row ''2'' ''t'' ''b1'' False] [sample_summary ''t'' ''b1'' 2 1]
        [sample_label], Some UniqueViolation)"
  by code_simp

end
