(* ===== verification/Message.thy ===== *)
theory Message
  imports JsValue Comparators
begin

text \<open>
  \<open>packages/core/src/mail/types.ts\<close> and \<open>message.ts\<close>: the records of the mail domain and the
  helpers on a single message. \<open>Buffer.from(content, 'base64').length\<close> is a parameter
  \<open>decoded_length\<close> of the compose validation.
\<close>

record address =
  ad_email :: string
  ad_name :: "string option"

record message =
  msg_id :: string
  msg_threadId :: string
  msg_mailboxId :: string
  msg_ownerId :: string
  msg_messageId :: "string option"
  msg_inReplyTo :: "string option"
  msg_references :: "string list"
  msg_subject :: string
  msg_from :: address
  msg_to :: "address list"
  msg_cc :: "address list option"
  msg_bcc :: "address list option"
  msg_replyTo :: "address option"
  msg_date :: date
  msg_text :: "string option"
  msg_html :: "string option"
  msg_snippet :: string
  msg_seen :: bool
  msg_flagged :: bool
  msg_answered :: bool
  msg_draft :: bool
  msg_hasAttachments :: bool
  msg_sizeBytes :: int
  msg_createdAt :: date
  msg_updatedAt :: date

record compose_attachment =
  ca_filename :: string
  ca_contentType :: string
  ca_content :: string

record compose_request =
  cr_identityId :: string
  cr_to :: "address list option"
  cr_cc :: "address list option"
  cr_bcc :: "address list option"
  cr_subject :: "string option"
  cr_text :: "string option"
  cr_html :: "string option"
  cr_inReplyTo :: "string option"
  cr_references :: "string list option"
  cr_attachments :: "compose_attachment list option"
  cr_scheduledAt :: "date option"
  cr_saveToDrafts :: "bool option"

text \<open>A parsed address header: absent, a plain string, or an object.\<close>

record header_address =
  ha_address :: "string option"
  ha_name :: "string option"

datatype header_value =
    HAbsent
  | HStr string
  | HObj header_address "header_address list option"

subsection \<open>Addresses\<close>

definition extract_addresses :: "header_value \<Rightarrow> address list" where
  "extract_addresses v =
     (case v of
        HAbsent \<Rightarrow> []
      | HStr s \<Rightarrow> map (\<lambda>e. \<lparr>ad_email = toLowerCase e, ad_name = None\<rparr>) (rx_match_all True email_rx s)
      | HObj own (Some items) \<Rightarrow>
          map (\<lambda>i. \<lparr>ad_email = toLowerCase (nullish (ha_address i) []), ad_name = ha_name i\<rparr>)
            (filter (\<lambda>i. truthy (ha_address i)) items)
      | HObj own None \<Rightarrow>
          (if truthy (ha_address own)
           then [\<lparr>ad_email = toLowerCase (nullish (ha_address own) []), ad_name = ha_name own\<rparr>]
           else []))"

definition formatAddress :: "address \<Rightarrow> string" where
  "formatAddress a =
     (if truthy (ad_name a) then nullish (ad_name a) [] @ '' <'' @ ad_email a @ ''>'' else ad_email a)"

definition formatAddresses :: "address list \<Rightarrow> string" where
  "formatAddresses as = join '', '' (map formatAddress as)"

subsection \<open>Snippets\<close>

definition any_char :: rx where
  "any_char = RxCls (\<lambda>_. True)"

text \<open>\<open>/<style[^>]*>[\s\S]*?<\/style>/gi\<close> and the same for \<open>script\<close>; \<open>/<[^>]+>/g\<close>; \<open>/\s+/g\<close>.\<close>

definition element_rx :: "string \<Rightarrow> rx" where
  "element_rx tag = RxSeq (rx_lit_i (''<'' @ tag)) (RxSeq (RxStar (RxCls (\<lambda>c. c \<noteq> CHR ''>'')))
     (RxSeq (rx_char CHR ''>'') (RxSeq (RxLazy any_char) (rx_lit_i (''</'' @ tag @ ''>'')))))"

definition bracket_rx :: rx where
  "bracket_rx = RxSeq (rx_char CHR ''<'')
     (RxSeq (rx_plus (RxCls (\<lambda>c. c \<noteq> CHR ''>''))) (rx_char CHR ''>''))"

definition ws_run_rx :: rx where
  "ws_run_rx = rx_plus (RxCls is_ws)"

definition strip_html :: "string \<Rightarrow> string" where
  "strip_html html =
     (let s1 = rx_replace True (element_rx ''style'') [] html;
          s2 = rx_replace True (element_rx ''script'') [] s1;
          s3 = rx_replace True bracket_rx '' '' s2;
          s4 = rx_replace True (rx_lit ''&nbsp;'') '' '' s3;
          s5 = rx_replace True (rx_lit ''&amp;'') ''&'' s4;
          s6 = rx_replace True (rx_lit ''&lt;'') ''<'' s5;
          s7 = rx_replace True (rx_lit ''&gt;'') ''>'' s6;
          s8 = rx_replace True (rx_lit ''&quot;'') [dquote] s7
      in rx_replace True (rx_lit ''&#39;'') [CHR 0x27] s8)"

definition collapse_ws :: "string \<Rightarrow> string" where
  "collapse_ws s = trim (rx_replace True ws_run_rx '' '' s)"

definition generateSnippet :: "string option \<Rightarrow> string option \<Rightarrow> int \<Rightarrow> string" where
  "generateSnippet text html maxLength =
     (let content = or_default text [];
          content = (if content = [] \<and> truthy html then strip_html (nullish html []) else content);
          content = collapse_ws content
      in if int (length content) > maxLength
         then take (nat (maxLength - 3)) content @ ''...'' else content)"

subsection \<open>Headers\<close>

definition hasAttachments :: "string option \<Rightarrow> bool" where
  "hasAttachments contentType =
     (if \<not> truthy contentType then False
      else str_includes (toLowerCase (nullish contentType [])) ''multipart/mixed''
           \<or> str_includes (toLowerCase (nullish contentType [])) ''attachment'')"

definition parseInReplyTo :: "string option \<Rightarrow> string option" where
  "parseInReplyTo inReplyTo =
     (if \<not> truthy inReplyTo then None
      else case rx_exec True bracket_rx (nullish inReplyTo []) of
             Some (p, m, r) \<Rightarrow> Some (butlast (tl m))
           | None \<Rightarrow> Some (trim (nullish inReplyTo [])))"

definition parseReferences :: "string option \<Rightarrow> string list" where
  "parseReferences references =
     (if \<not> truthy references then []
      else map (\<lambda>ref. butlast (tl ref)) (rx_match_all True bracket_rx (nullish references [])))"

text \<open>\<open>/^(re|fw|fwd):\s*/i\<close>\<close>

definition reply_rx :: rx where
  "reply_rx = RxSeq RxBol (RxSeq (RxAlt (rx_lit_i ''re'') (RxAlt (rx_lit_i ''fw'') (rx_lit_i ''fwd'')))
     (RxSeq (rx_char CHR '':'') (RxStar (RxCls is_ws))))"

definition isReply :: "string \<Rightarrow> bool" where
  "isReply subject = rx_test reply_rx subject"

definition cleanSubject :: "string \<Rightarrow> string" where
  "cleanSubject subject = trim (rx_replace True reply_rx [] subject)"

definition compareByDate :: "message \<Rightarrow> message \<Rightarrow> bool \<Rightarrow> int" where
  "compareByDate a b ascending =
     (let diff = msg_date a - msg_date b in if ascending then diff else - diff)"

subsection \<open>Compose requests\<close>

definition MAX_ATTACHMENT_SIZE :: nat where
  "MAX_ATTACHMENT_SIZE = 25 * 1024 * 1024"

definition trimmed_truthy :: "string option \<Rightarrow> bool" where
  "trimmed_truthy s = truthy (map_option trim s)"

definition validateComposeRequest :: "(string \<Rightarrow> nat) \<Rightarrow> compose_request \<Rightarrow> validation" where
  "validateComposeRequest decoded_length r =
     validation_of
       ((if cr_to r = None \<or> cr_to r = Some [] then [''At least one recipient is required''] else [])
        @ (if \<not> trimmed_truthy (cr_subject r) then [''Subject is required''] else [])
        @ (if \<not> trimmed_truthy (cr_text r) \<and> \<not> trimmed_truthy (cr_html r)
           then [''Message body is required''] else [])
        @ concat (map (\<lambda>att. if decoded_length (ca_content att) > MAX_ATTACHMENT_SIZE
             then [''Attachment '' @ [dquote] @ ca_filename att @ [dquote] @ '' exceeds maximum size of 25MB'']
             else []) (nullish (cr_attachments r) [])))"

subsection \<open>Lemmas\<close>

lemma blank_is_ws: "is_ws CHR '' ''"
  by code_simp

lemma collapse_ws_eq: "collapse_ws s = trim (collapse_runs is_ws '' '' s)"
  by (simp add: collapse_ws_def ws_run_rx_def rx_replace_plus_cls)

lemma collapse_ws_wf:
  "\<not> sublist ''  '' (collapse_ws s)" "c \<in> set (collapse_ws s) \<Longrightarrow> is_ws c \<Longrightarrow> c = CHR '' ''"
proof -
  show "\<not> sublist ''  '' (collapse_ws s)"
    unfolding collapse_ws_eq
    using collapse_runs_no_double [of is_ws, OF blank_is_ws] sublist_order.order_trans sublist_trim
    by blast
  show "c \<in> set (collapse_ws s) \<Longrightarrow> is_ws c \<Longrightarrow> c = CHR '' ''"
    unfolding collapse_ws_eq
    using set_trim set_collapse_runs [of is_ws "'' ''" s] by auto
qed

lemma rx_ms_bracket_no: "c \<noteq> CHR ''<'' \<Longrightarrow> rx_ms b bracket_rx (c # s) = []"
  by (simp add: bracket_rx_def)

lemma rx_ms_bracket_ref:
  assumes "r \<noteq> []" and "CHR ''>'' \<notin> set r"
  shows "rx_ms b bracket_rx (CHR ''<'' # r @ CHR ''>'' # s) = [(CHR ''<'' # r @ [CHR ''>''], s)]"
proof -
  let ?p = "\<lambda>c. c \<noteq> CHR ''>''"
  obtain c cs where r: "r = c # cs" using assms(1) by (cases r) auto
  have "takeWhile ?p (cs @ CHR ''>'' # s) = cs" "dropWhile ?p (cs @ CHR ''>'' # s) = CHR ''>'' # s"
    using assms(2) r by (auto intro: takeWhile_until dropWhile_until)
  moreover have "rx_ms False (RxSeq (rx_plus (RxCls ?p)) (rx_char CHR ''>'')) (c # cs @ CHR ''>'' # s)
     = (if ?p c then then_match (c # takeWhile ?p (cs @ CHR ''>'' # s), dropWhile ?p (cs @ CHR ''>'' # s))
          (rx_ms False (rx_char CHR ''>'') (dropWhile ?p (cs @ CHR ''>'' # s))) else [])"
    by (rule rx_ms_plus_cls_seq) simp
  ultimately show ?thesis
    using assms(2) unfolding bracket_rx_def rx_ms_seq_char_Cons r by auto
qed

lemma rx_match_all_bracket_Nil [simp]: "rx_match_all b bracket_rx [] = []"
  by (simp add: rx_match_all.simps [of b] bracket_rx_def)

lemma rx_match_all_bracket_refs:
  assumes "\<forall>r \<in> set refs. r \<noteq> [] \<and> CHR ''>'' \<notin> set r"
  shows "rx_match_all b bracket_rx (join '' '' (map (\<lambda>r. CHR ''<'' # r @ ''>'') refs))
       = map (\<lambda>r. CHR ''<'' # r @ ''>'') refs"
  using assms
proof (induction refs arbitrary: b)
  case Nil
  show ?case by simp
next
  case (Cons r refs)
  then have r: "r \<noteq> []" "CHR ''>'' \<notin> set r" by auto
  show ?case
  proof (cases refs)
    case Nil
    have "rx_match_all b bracket_rx (CHR ''<'' # r @ ''>'')
        = (CHR ''<'' # r @ ''>'') # rx_match_all False bracket_rx []"
      by (rule rx_match_all_hit) (use rx_ms_bracket_ref [OF r, of b "[]"] in auto)
    then show ?thesis using Nil by simp
  next
    case (Cons r2 rs)
    let ?t = "join '' '' (map (\<lambda>r. CHR ''<'' # r @ ''>'') refs)"
    have "rx_match_all b bracket_rx (CHR ''<'' # r @ CHR ''>'' # CHR '' '' # ?t)
        = (CHR ''<'' # r @ ''>'') # rx_match_all False bracket_rx (CHR '' '' # ?t)"
      by (rule rx_match_all_hit) (use rx_ms_bracket_ref [OF r, of b] in auto)
    also have "rx_match_all False bracket_rx (CHR '' '' # ?t) = rx_match_all False bracket_rx ?t"
      by (rule rx_match_all_nomatch) (simp add: rx_ms_bracket_no)
    also have "\<dots> = map (\<lambda>r. CHR ''<'' # r @ ''>'') refs"
      by (rule Cons.IH) (use Cons.prems in auto)
    finally show ?thesis using Cons by simp
  qed
qed

lemma reply_rx_hit:
  assumes "toLowerCase p \<in> {''re'', ''fw'', ''fwd''}"
  shows "\<exists>ms. rx_ms True reply_rx (p @ CHR '':'' # s)
           = (p @ CHR '':'' # takeWhile is_ws s, dropWhile is_ws s) # ms"
proof -
  obtain ms where star: "rx_ms False (RxStar (RxCls is_ws)) s = (takeWhile is_ws s, dropWhile is_ws s) # ms"
    using hd_rx_ms_star_cls by blast
  have colon: "lower_char c = CHR ''d'' \<Longrightarrow> c \<noteq> CHR '':''" for c
    by (auto simp: lower_char_def code_unit_def)
  from assms consider a b where "p = [a, b]" "lower_char a = CHR ''r''" "lower_char b = CHR ''e''"
    | a b where "p = [a, b]" "lower_char a = CHR ''f''" "lower_char b = CHR ''w''"
    | a b c where "p = [a, b, c]" "lower_char a = CHR ''f''" "lower_char b = CHR ''w''" "lower_char c = CHR ''d''"
    by (auto simp: toLowerCase_def map_eq_Cons_conv)
  moreover have ascii: "lower_char CHR ''r'' = CHR ''r''" "lower_char CHR ''e'' = CHR ''e''"
    "lower_char CHR ''f'' = CHR ''f''" "lower_char CHR ''w'' = CHR ''w''" "lower_char CHR ''d'' = CHR ''d''"
    by code_simp+
  ultimately show ?thesis
    by cases (simp_all add: reply_rx_def star colon)
qed

subsection \<open>Properties\<close>

text \<open>
  Parsing the \<open>References\<close> header that lists message ids in angle brackets separated by
  spaces gives back exactly these ids, in order.
\<close>

theorem parseReferences_roundtrip:
  assumes "\<forall>r \<in> set refs. r \<noteq> [] \<and> CHR ''>'' \<notin> set r"
  shows "parseReferences (Some (join '' '' (map (\<lambda>r. CHR ''<'' # r @ ''>'') refs))) = refs"
proof -
  have "map (\<lambda>ref. butlast (tl ref)) (map (\<lambda>r. CHR ''<'' # r @ ''>'') refs) = refs"
    by (simp add: butlast_append map_idI)
  then show ?thesis
    using rx_match_all_bracket_refs [OF assms, of True]
    by (cases refs) (auto simp: parseReferences_def)
qed

theorem parseReferences_roundtrip_witness:
  "parseReferences (Some ''<a@x> <b@y>'') = [''a@x'', ''b@y'']"
  using parseReferences_roundtrip [of "[''a@x'', ''b@y'']"] by simp



text \<open>
  \<open>cleanSubject\<close> removes one reply or forward prefix, in any case, with the white space
  around the rest.
\<close>

theorem cleanSubject_strips_prefix:
  assumes "toLowerCase p \<in> {''re'', ''fw'', ''fwd''}"
  shows "cleanSubject (p @ CHR '':'' # s) = trim s"
proof -
  obtain ms where "rx_ms True reply_rx (p @ CHR '':'' # s)
      = (p @ CHR '':'' # takeWhile is_ws s, dropWhile is_ws s) # ms"
    using reply_rx_hit [OF assms] by blast
  then have "rx_replace True reply_rx [] (p @ CHR '':'' # s) = [] @ dropWhile is_ws s"
    unfolding reply_rx_def by (rule rx_replace_bol_hit) simp
  then show ?thesis by (simp add: cleanSubject_def trim_dropWhile_ws)
qed

theorem cleanSubject_strips_prefix_witness: "cleanSubject ''FWD:  Minutes '' = ''Minutes''"
proof -
  have "toLowerCase ''FWD'' \<in> {''re'', ''fw'', ''fwd''}" by code_simp
  from cleanSubject_strips_prefix [OF this, of "''  Minutes ''"]
  have "cleanSubject ''FWD:  Minutes '' = trim ''  Minutes ''" by simp
  also have "trim ''  Minutes '' = ''Minutes''" by code_simp
  finally show ?thesis .
qed

text \<open>
  Only one prefix is removed: the cleaned form of a reply to a reply is still a reply, so
  the function is not idempotent.
\<close>

theorem cleanSubject_nested_prefix:
  "cleanSubject ''Re: Re: Minutes'' = ''Re: Minutes'' \<and> isReply (cleanSubject ''Re: Re: Minutes'')
   \<and> cleanSubject (cleanSubject ''Re: Re: Minutes'') \<noteq> cleanSubject ''Re: Re: Minutes''"
  by code_simp

text \<open>
  A compose request is accepted iff it names a recipient, has a subject and a text or HTML
  body that are not blank, and every attachment decodes to at most 25 MB.
\<close>

theorem validateComposeRequest_valid_iff:
  "fst (validateComposeRequest decoded_length r) \<longleftrightarrow>
     (\<exists>to. cr_to r = Some to \<and> to \<noteq> [])
     \<and> (\<exists>s. cr_subject r = Some s \<and> (\<exists>c \<in> set s. \<not> is_ws c))
     \<and> ((\<exists>s. cr_text r = Some s \<and> (\<exists>c \<in> set s. \<not> is_ws c))
        \<or> (\<exists>s. cr_html r = Some s \<and> (\<exists>c \<in> set s. \<not> is_ws c)))
     \<and> list_all (\<lambda>att. decoded_length (ca_content att) \<le> MAX_ATTACHMENT_SIZE)
         (nullish (cr_attachments r) [])"
proof -
  have tt: "trimmed_truthy s \<longleftrightarrow> (\<exists>t. s = Some t \<and> (\<exists>c \<in> set t. \<not> is_ws c))" for s
    by (cases s) (auto simp: trimmed_truthy_def trim_eq_Nil)
  have to: "(if cr_to r = None \<or> cr_to r = Some [] then [e] else []) = []
      \<longleftrightarrow> (\<exists>to. cr_to r = Some to \<and> to \<noteq> [])" for e :: string
    by (cases "cr_to r") auto
  have att: "concat (map (\<lambda>a. if P a then [f a] else []) xs) = [] \<longleftrightarrow> list_all (\<lambda>a. \<not> P a) xs"
    for P and f :: "compose_attachment \<Rightarrow> string" and xs
    by (induction xs) auto
  show ?thesis
    unfolding validateComposeRequest_def validation_of_iff append_is_Nil_conv to att tt not_less
    by simp
qed

end
