(* ===== verification/ThreadRollup.thy ===== *)
theory ThreadRollup
  imports MailJobs Message
begin

text \<open>
  \<open>packages/common/src/mail.ts\<close>: the summary row of a thread in a mailbox, computed from its messages
  and merged into \<open>mailbox_threads\<close>; the insertion of a parsed message by
  \<open>apps/worker/lib/message-payload-parser.ts\<close>, which calls it; and the handling of a message that the
  incremental sync (\<open>apps/worker/lib/imap/imap-delta-fetch.ts\<close>) finds in another mailbox than the
  database has it. Rows with the same date come in table order, where SQL leaves the order open.
\<close>

subsection \<open>The rollup\<close>

definition common_generateSnippet :: "string \<Rightarrow> string option" where
  "common_generateSnippet s = (if s = [] then None else Some (take 100 (rx_replace True ws_run_rx '' '' s)))"

definition extract_minis :: "address_object option \<Rightarrow> mini_address list" where
  "extract_minis obj =
     take 5 (filter (\<lambda>x. truthy (mini_e x))
       (map (\<lambda>a. \<lparr>mini_n = or_undefined (ma_name a), mini_e = or_undefined (ma_address a)\<rparr>)
         (nullish (case obj of None \<Rightarrow> None | Some ao \<Rightarrow> ao_value ao) [])))"

definition buildParticipantsSnapshot :: "message_row \<Rightarrow> participant_lists" where
  "buildParticipantsSnapshot m =
     \<lparr>pl_from = extract_minis (row_from m), pl_to = extract_minis (row_to m), pl_cc = extract_minis (row_cc m),
      pl_bcc = extract_minis (row_bcc m)\<rparr>"

text \<open>A bucket is \<open>participants[k]\<close> with \<open>seenAddr[k]\<close>.\<close>

type_synonym bucket = "mini_address list \<times> string list"

definition mini_email :: "mini_address \<Rightarrow> string" where
  "mini_email p = toLowerCase (or_default (mini_e p) [])"

fun bucket_loop :: "bucket \<Rightarrow> mini_address list \<Rightarrow> bucket" where
  "bucket_loop (ps, seen) [] = (ps, seen)"
| "bucket_loop (ps, seen) (p # snap) =
     (let email = mini_email p in
      if email = [] \<or> email \<in> set seen then bucket_loop (ps, seen) snap
      else let ps' = ps @ [p]; seen' = email # seen
           in if length ps' \<ge> 5 then (ps', seen') else bucket_loop (ps', seen') snap)"

definition bucket_row :: "bucket \<Rightarrow> mini_address list \<Rightarrow> bucket" where
  "bucket_row bk snap = (if length (fst bk) \<ge> 5 then bk else bucket_loop bk snap)"

record buckets =
  bk_from :: bucket
  bk_to :: bucket
  bk_cc :: bucket
  bk_bcc :: bucket

definition buckets_row :: "buckets \<Rightarrow> message_row \<Rightarrow> buckets" where
  "buckets_row bs r =
     (let snap = buildParticipantsSnapshot r
      in \<lparr>bk_from = bucket_row (bk_from bs) (pl_from snap), bk_to = bucket_row (bk_to bs) (pl_to snap),
          bk_cc = bucket_row (bk_cc bs) (pl_cc snap), bk_bcc = bucket_row (bk_bcc bs) (pl_bcc snap)\<rparr>)"

definition buckets_full :: "buckets \<Rightarrow> bool" where
  "buckets_full bs \<longleftrightarrow> length (fst (bk_from bs)) \<ge> 5 \<and> length (fst (bk_to bs)) \<ge> 5
     \<and> length (fst (bk_cc bs)) \<ge> 5 \<and> length (fst (bk_bcc bs)) \<ge> 5"

fun participants_loop :: "buckets \<Rightarrow> message_row list \<Rightarrow> buckets" where
  "participants_loop bs [] = bs"
| "participants_loop bs (r # rows) =
     (let bs' = buckets_row bs r in if buckets_full bs' then bs' else participants_loop bs' rows)"

definition rollup_participants :: "message_row list \<Rightarrow> participant_lists" where
  "rollup_participants rows =
     (let bs = participants_loop \<lparr>bk_from = ([], []), bk_to = ([], []), bk_cc = ([], []), bk_bcc = ([], [])\<rparr> rows
      in \<lparr>pl_from = fst (bk_from bs), pl_to = fst (bk_to bs), pl_cc = fst (bk_cc bs), pl_bcc = fst (bk_bcc bs)\<rparr>)"

text \<open>Steps 2 and 3 of \<open>upsertMailboxThreadItem\<close>: the messages of the thread here, newest first, and the payload.\<close>

definition thread_rows :: "message_row \<Rightarrow> mailbox_row \<Rightarrow> store \<Rightarrow> message_row list" where
  "thread_rows msg mbx st =
     (let rows = js_sort newest_first
        (filter (\<lambda>m. row_ownerId m = row_ownerId msg \<and> row_threadId m = row_threadId msg \<and> row_mailboxId m = mx_id mbx)
          (st_messages st))
      in if rows = [] then [msg] else rows)"

definition rollup :: "date \<Rightarrow> message_row \<Rightarrow> mailbox_row \<Rightarrow> identity_row \<Rightarrow> message_row list \<Rightarrow> mailbox_thread_row" where
  "rollup now msg mbx ident rows =
     (let newest = hd rows; oldest = last rows; s = trim (nullish (row_subject newest) [])
      in \<lparr>mt_threadId = row_threadId msg, mt_mailboxId = mx_id mbx, mt_ownerId = mx_ownerId mbx,
          mt_identityId = mx_identityId mbx, mt_identityPublicId = idt_publicId ident, mt_mailboxSlug = mx_slug mbx,
          mt_subject = Some (if s = [] then ''(no subject)'' else s),
          mt_previewText = (case row_snippet newest of Some x \<Rightarrow> Some x
             | None \<Rightarrow> common_generateSnippet (or_default (row_text newest) (or_default (row_html newest) []))),
          mt_lastActivityAt = activity newest, mt_firstMessageAt = Some (activity oldest),
          mt_messageCount = length rows, mt_unreadCount = foldl (\<lambda>acc r. acc + (if row_seen r then 0 else 1)) 0 rows,
          mt_hasAttachments = list_ex row_hasAttachments rows, mt_starred = list_ex row_flagged rows,
          mt_participants = rollup_participants rows, mt_updatedAt = now, mt_snoozedUntil = None, mt_unsnoozedAt = None\<rparr>)"

text \<open>
  The \<open>onConflictDoUpdate\<close> clause: \<open>old\<close> is the row of the table, \<open>new\<close> is \<open>EXCLUDED\<close>. Both
  participant objects have the four keys, so \<open>||\<close> takes the new ones; \<open>jsonb_strip_nulls\<close> makes a
  null name an absent one, which is the same \<open>None\<close> here. \<open>LEAST\<close> skips nulls.
\<close>

definition sql_coalesce :: "'a option \<Rightarrow> 'a option \<Rightarrow> 'a option" where
  "sql_coalesce x y = (case x of None \<Rightarrow> y | Some v \<Rightarrow> Some v)"

fun sql_least :: "date option \<Rightarrow> date option \<Rightarrow> date option" where
  "sql_least (Some x) (Some y) = Some (min x y)"
| "sql_least (Some x) None = Some x"
| "sql_least None y = y"

definition merge_summary :: "mailbox_thread_row \<Rightarrow> mailbox_thread_row \<Rightarrow> mailbox_thread_row" where
  "merge_summary new old =
     old\<lparr>mt_subject := sql_coalesce (mt_subject new) (mt_subject old),
       mt_previewText := sql_coalesce (mt_previewText new) (mt_previewText old),
       mt_lastActivityAt := max (mt_lastActivityAt new) (mt_lastActivityAt old),
       mt_firstMessageAt := sql_least (sql_coalesce (mt_firstMessageAt new) (mt_firstMessageAt old)) (mt_firstMessageAt old),
       mt_messageCount := mt_messageCount new, mt_unreadCount := mt_unreadCount new,
       mt_hasAttachments := (mt_hasAttachments old \<or> mt_hasAttachments new),
       mt_starred := (mt_starred old \<or> mt_starred new),
       mt_participants := mt_participants new, mt_identityId := mt_identityId new,
       mt_identityPublicId := mt_identityPublicId new, mt_mailboxSlug := mt_mailboxSlug new,
       mt_updatedAt := mt_updatedAt new\<rparr>"

definition upsert_summary :: "mailbox_thread_row \<Rightarrow> mailbox_thread_row list \<Rightarrow> mailbox_thread_row list" where
  "upsert_summary new rows =
     (if list_ex (is_summary (mt_threadId new) (mt_mailboxId new)) rows
      then update_where (is_summary (mt_threadId new) (mt_mailboxId new)) (merge_summary new) rows
      else rows @ [new])"

definition upsertMailboxThreadItem :: "date \<Rightarrow> string \<Rightarrow> store \<Rightarrow> db_error + store \<times> string \<times> string" where
  "upsertMailboxThreadItem now messageId st =
     (case find (\<lambda>m. row_id m = messageId) (st_messages st) of
        None \<Rightarrow> Inl (RowNotFound (''Message '' @ messageId @ '' not found''))
      | Some msg \<Rightarrow>
          (case find_mailbox st (row_mailboxId msg) of
             None \<Rightarrow> Inl (RowNotFound (''Mailbox '' @ row_mailboxId msg @ '' not found''))
           | Some mbx \<Rightarrow>
               (case find_identity st (mx_identityId mbx) of
                  None \<Rightarrow> Inl (RowNotFound (''Identity '' @ mx_identityId mbx @ '' not found''))
                | Some ident \<Rightarrow>
                    Inr (st\<lparr>st_mailboxThreads :=
                           upsert_summary (rollup now msg mbx ident (thread_rows msg mbx st)) (st_mailboxThreads st)\<rparr>,
                         row_threadId msg, mx_id mbx))))"

subsection \<open>Storing a parsed message\<close>

text \<open>
  The database part of \<open>parseAndStoreEmail\<close>: the insert does nothing when the mailbox already has the
  Message-ID, and then nothing else happens; otherwise the summary is refreshed.
\<close>

definition store_message :: "date \<Rightarrow> message_row \<Rightarrow> store \<Rightarrow> db_error + store" where
  "store_message now m st =
     (if message_key m \<in> set (map message_key (st_messages st)) then Inr st
      else case upsertMailboxThreadItem now (row_id m) (st\<lparr>st_messages := st_messages st @ [m]\<rparr>) of
             Inl e \<Rightarrow> Inl e
           | Inr (st', _) \<Rightarrow> Inr st')"

subsection \<open>A message found in another mailbox\<close>

definition relocated :: "string \<Rightarrow> string \<Rightarrow> message_row \<Rightarrow> message_row" where
  "relocated dest path m =
     m\<lparr>row_mailboxId := dest,
       row_imap := Some (case row_imap m of None \<Rightarrow> \<lparr>im_uid = None, im_mailboxPath = Some path\<rparr>
         | Some im \<Rightarrow> im\<lparr>im_mailboxPath := Some path\<rparr>)\<rparr>"

text \<open>One turn of the loop; an update that the unique index refuses is logged and skipped.\<close>

definition relocate_one :: "string \<Rightarrow> string \<Rightarrow> string \<Rightarrow> message_row \<Rightarrow> message_row list \<Rightarrow> message_row list" where
  "relocate_one ownerId dest path m ms =
     (if row_mailboxId m = dest then ms
      else if list_ex (\<lambda>d. row_ownerId d = ownerId \<and> row_messageId d = row_messageId m \<and> row_mailboxId d = dest) ms
      then filter (\<lambda>d. row_id d \<noteq> row_id m) ms
      else let ms' = update_where (\<lambda>d. row_id d = row_id m) (relocated dest path) ms
           in if distinct (map message_key ms') then ms' else ms)"

definition refresh_newest :: "date \<Rightarrow> string \<Rightarrow> store \<Rightarrow> store" where
  "refresh_newest now threadId st =
     (case js_sort newest_first (filter (\<lambda>m. row_threadId m = threadId) (st_messages st)) of
        [] \<Rightarrow> st
      | newest # _ \<Rightarrow>
          (case upsertMailboxThreadItem now (row_id newest) st of Inl _ \<Rightarrow> st | Inr (st', _) \<Rightarrow> st'))"

definition deltaFetch_existing :: "date \<Rightarrow> string \<Rightarrow> string \<Rightarrow> string \<Rightarrow> message_row \<Rightarrow> store \<Rightarrow> store" where
  "deltaFetch_existing now ownerId dest path existing st =
     (if row_mailboxId existing = dest then st
      else let t = row_threadId existing;
               all = filter (\<lambda>m. row_threadId m = t \<and> row_mailboxId m = row_mailboxId existing) (st_messages st);
               st1 = st\<lparr>st_messages := foldl (\<lambda>ms m. relocate_one ownerId dest path m ms) (st_messages st) all,
                        st_mailboxThreads := filter (\<lambda>r. mt_threadId r \<noteq> t) (st_mailboxThreads st)\<rparr>
           in add_job (JobRefreshThread t) (refresh_newest now t st1))"

subsection \<open>Lemmas: participants\<close>

text \<open>The first occurrence of each address, in order; the loops compute five of them with early exits.\<close>

fun uniq_by_email :: "string list \<Rightarrow> mini_address list \<Rightarrow> mini_address list" where
  "uniq_by_email seen [] = []"
| "uniq_by_email seen (p # ps) =
     (if mini_email p = [] \<or> mini_email p \<in> set seen then uniq_by_email seen ps
      else p # uniq_by_email (mini_email p # seen) ps)"

definition first_participants :: "(message_row \<Rightarrow> address_object option) \<Rightarrow> message_row list \<Rightarrow> mini_address list" where
  "first_participants field rows = take 5 (uniq_by_email [] (concat (map (\<lambda>r. extract_minis (field r)) rows)))"

lemma uniq_by_email_append:
  "uniq_by_email seen (xs @ ys) =
     uniq_by_email seen xs @ uniq_by_email (rev (map mini_email (uniq_by_email seen xs)) @ seen) ys"
  by (induction xs arbitrary: seen) auto

lemma uniq_by_email_distinct:
  "distinct (map mini_email (uniq_by_email seen xs)) \<and> set (map mini_email (uniq_by_email seen xs)) \<inter> set seen = {}
   \<and> [] \<notin> set (map mini_email (uniq_by_email seen xs)) \<and> set (uniq_by_email seen xs) \<subseteq> set xs"
proof (induction xs arbitrary: seen)
  case (Cons p xs)
  show ?case using Cons [of seen] Cons [of "mini_email p # seen"]
    by (cases "mini_email p = [] \<or> mini_email p \<in> set seen") auto
qed simp

lemma bucket_loop_spec:
  "length ps < 5 \<Longrightarrow>
   fst (bucket_loop (ps, seen) snap) = take 5 (ps @ uniq_by_email seen snap)
   \<and> (length (fst (bucket_loop (ps, seen) snap)) < 5 \<longrightarrow>
        snd (bucket_loop (ps, seen) snap) = rev (map mini_email (uniq_by_email seen snap)) @ seen)"
proof (induction snap arbitrary: ps seen)
  case (Cons p snap)
  show ?case
  proof (cases "mini_email p = [] \<or> mini_email p \<in> set seen")
    case False
    then show ?thesis using Cons.prems Cons.IH [of "ps @ [p]" "mini_email p # seen"]
      by (cases "length ps = 4") (simp_all add: Let_def)
  qed (use Cons in \<open>simp add: Let_def\<close>)
qed simp

lemma bucket_rows_spec:
  "length ps \<le> 5 \<Longrightarrow> fst (foldl bucket_row (ps, seen) snaps) = take 5 (ps @ uniq_by_email seen (concat snaps))"
proof (induction snaps arbitrary: ps seen)
  case (Cons snap snaps)
  show ?case
  proof (cases "length ps = 5")
    case True
    then show ?thesis using Cons.IH [of ps seen] by (simp add: bucket_row_def)
  next
    case False
    obtain ps' seen' where l: "bucket_loop (ps, seen) snap = (ps', seen')" by (cases "bucket_loop (ps, seen) snap")
    have sp: "ps' = take 5 (ps @ uniq_by_email seen snap)"
      "length ps' < 5 \<Longrightarrow> seen' = rev (map mini_email (uniq_by_email seen snap)) @ seen"
      using bucket_loop_spec [of ps seen snap] False Cons.prems l by auto
    have "bucket_row (ps, seen) snap = (ps', seen')" using False Cons.prems l by (simp add: bucket_row_def)
    moreover have "length ps' \<le> 5" unfolding sp(1) by simp
    ultimately have "fst (foldl bucket_row (ps, seen) (snap # snaps)) = take 5 (ps' @ uniq_by_email seen' (concat snaps))"
      using Cons.IH [of ps' seen'] by simp
    also have "\<dots> = take 5 (ps @ uniq_by_email seen (concat (snap # snaps)))"
    proof (cases "length ps' < 5")
      case True
      then have "ps' = ps @ uniq_by_email seen snap" using sp(1) by (simp add: min_def split: if_splits)
      then show ?thesis using sp(2) [OF True] by (simp add: uniq_by_email_append)
    next
      case full: False
      then show ?thesis using sp(1) by (auto simp: uniq_by_email_append min_def split: if_splits)
    qed
    finally show ?thesis .
  qed
qed simp

lemma buckets_row_full: "buckets_full bs \<Longrightarrow> buckets_row bs r = bs"
  by (simp add: buckets_row_def buckets_full_def bucket_row_def Let_def)

lemma participants_loop_foldl: "participants_loop bs rows = foldl buckets_row bs rows"
proof (induction rows arbitrary: bs)
  case (Cons r rows)
  have "buckets_full bs' \<Longrightarrow> foldl buckets_row bs' rows = bs'" for bs'
    by (induction rows) (simp_all add: buckets_row_full)
  then show ?case using Cons by (simp add: Let_def)
qed simp

lemma buckets_foldl:
  "bk_from (foldl buckets_row bs rows) = foldl bucket_row (bk_from bs) (map (\<lambda>r. extract_minis (row_from r)) rows)"
  "bk_to (foldl buckets_row bs rows) = foldl bucket_row (bk_to bs) (map (\<lambda>r. extract_minis (row_to r)) rows)"
  "bk_cc (foldl buckets_row bs rows) = foldl bucket_row (bk_cc bs) (map (\<lambda>r. extract_minis (row_cc r)) rows)"
  "bk_bcc (foldl buckets_row bs rows) = foldl bucket_row (bk_bcc bs) (map (\<lambda>r. extract_minis (row_bcc r)) rows)"
  by (induction rows arbitrary: bs) (simp_all add: buckets_row_def buildParticipantsSnapshot_def Let_def)

subsection \<open>Lemmas: the summary\<close>

lemma unread_foldl: "foldl (\<lambda>acc r. acc + (if row_seen r then 0 else 1)) n rows = n + unread_of rows"
  by (induction rows arbitrary: n) (simp_all add: unread_of_def)

lemma unread_of_sort: "unread_of (js_sort cmp ms) = unread_of ms"
  unfolding unread_of_def by (metis mset_filter mset_js_sort size_mset)

lemma any_flagged_set: "any_flagged ms \<longleftrightarrow> (\<exists>m \<in> set ms. row_flagged m)"
  by (simp add: any_flagged_def list_ex_iff)

text \<open>Messages belong to the owner of their mailbox, and mailboxes to an identity.\<close>

definition owned :: "store \<Rightarrow> bool" where
  "owned st \<longleftrightarrow>
     list_all (\<lambda>m. case find_mailbox st (row_mailboxId m) of None \<Rightarrow> False
        | Some b \<Rightarrow> mx_ownerId b = row_ownerId m \<and> find_identity st (mx_identityId b) \<noteq> None) (st_messages st)"

definition covered :: "store \<Rightarrow> bool" where
  "covered st \<longleftrightarrow>
     list_all (\<lambda>m. list_ex (is_summary (row_threadId m) (row_mailboxId m)) (st_mailboxThreads st)) (st_messages st)"

lemma find_mailbox_id: "find_mailbox st i = Some b \<Longrightarrow> mx_id b = i"
  by (auto simp: find_mailbox_def find_Some_iff)

lemma ownedD:
  assumes "owned st" "m \<in> set (st_messages st)"
  obtains b d where "find_mailbox st (row_mailboxId m) = Some b" "mx_ownerId b = row_ownerId m"
    "find_identity st (mx_identityId b) = Some d"
  using assms by (auto simp: owned_def list_all_iff split: option.splits dest!: bspec)

lemma owned_cong:
  assumes "st_messages st = st_messages st'" "st_mailboxes st = st_mailboxes st'" "st_identities st = st_identities st'"
  shows "owned st \<longleftrightarrow> owned st'"
proof -
  have e: "find_mailbox st = find_mailbox st'" "find_identity st = find_identity st'"
    using assms by (simp_all add: fun_eq_iff find_mailbox_def find_identity_def)
  show ?thesis unfolding owned_def e assms(1) ..
qed

lemma thread_rows_owned:
  assumes "owned st" "msg \<in> set (st_messages st)" "find_mailbox st (row_mailboxId msg) = Some mbx"
  shows "thread_rows msg mbx st = js_sort newest_first (scope_messages st (row_threadId msg) (mx_id mbx))"
proof -
  have "row_ownerId m = row_ownerId msg" if "m \<in> set (st_messages st)" "row_mailboxId m = row_mailboxId msg" for m
    using assms that by (metis ownedD option.inject)
  then have "filter (\<lambda>m. row_ownerId m = row_ownerId msg \<and> row_threadId m = row_threadId msg \<and> row_mailboxId m = mx_id mbx)
      (st_messages st) = scope_messages st (row_threadId msg) (mx_id mbx)"
    unfolding scope_messages_def in_scope_def using find_mailbox_id [OF assms(3)] by (intro filter_cong) auto
  moreover have "msg \<in> set (scope_messages st (row_threadId msg) (mx_id mbx))"
    using assms(2) find_mailbox_id [OF assms(3)] by (simp add: scope_messages_def in_scope_def)
  ultimately show ?thesis by (auto simp: thread_rows_def Let_def)
qed

lemma merge_summary_sel [simp]:
  "summary_key (merge_summary new old) = summary_key old" "mt_unreadCount (merge_summary new old) = mt_unreadCount new"
  "mt_messageCount (merge_summary new old) = mt_messageCount new"
  "mt_starred (merge_summary new old) = (mt_starred old \<or> mt_starred new)"
  "mt_threadId (merge_summary new old) = mt_threadId old" "mt_mailboxId (merge_summary new old) = mt_mailboxId old"
  by (simp_all add: merge_summary_def summary_key_def)

lemma upsert_restores:
  assumes d: "distinct (map summary_key (st_mailboxThreads st))" and new: "exact_row st new"
    and other: "\<And>r. r \<in> set (st_mailboxThreads st) \<Longrightarrow> \<not> is_summary (mt_threadId new) (mt_mailboxId new) r \<Longrightarrow> exact_row st r"
    and star: "\<And>r. r \<in> set (st_mailboxThreads st) \<Longrightarrow> is_summary (mt_threadId new) (mt_mailboxId new) r \<Longrightarrow>
      mt_starred r \<Longrightarrow> mt_starred new"
  shows "summaries_exact (st\<lparr>st_mailboxThreads := upsert_summary new (st_mailboxThreads st)\<rparr>)"
proof (cases "list_ex (is_summary (mt_threadId new) (mt_mailboxId new)) (st_mailboxThreads st)")
  case True
  let ?P = "is_summary (mt_threadId new) (mt_mailboxId new)"
  have "exact_row st (if ?P r then merge_summary new r else r)" if r: "r \<in> set (st_mailboxThreads st)" for r
  proof (cases "?P r")
    case P: True
    then have "mt_starred (merge_summary new r) = mt_starred new" using star [OF r] by auto
    then show ?thesis using P new by (simp add: exact_row_def is_summary_def)
  qed (use other [OF r] in simp)
  then have "list_all (exact_row st) (update_where ?P (merge_summary new) (st_mailboxThreads st))"
    unfolding update_where_def list_all_iff set_map ball_simps(9) by blast
  moreover have "map summary_key (update_where ?P (merge_summary new) (st_mailboxThreads st)) = map summary_key (st_mailboxThreads st)"
    by (rule map_update_where) simp
  ultimately show ?thesis using True d
    by (simp add: upsert_summary_def summaries_exact_def list_all_iff exact_row_cong [of "st\<lparr>st_mailboxThreads := x\<rparr>" st for x])
next
  case False
  then have "exact_row st r" if "r \<in> set (st_mailboxThreads st)" for r
    using that other by (auto simp: list_ex_iff)
  moreover have "summary_key new \<notin> summary_key ` set (st_mailboxThreads st)"
    using False by (auto simp: list_ex_iff is_summary_def summary_key_def)
  ultimately show ?thesis using False d new
    by (simp add: upsert_summary_def summaries_exact_def list_all_iff exact_row_cong [of "st\<lparr>st_mailboxThreads := x\<rparr>" st for x])
qed

lemma rollup_exact:
  assumes "owned st" "msg \<in> set (st_messages st)" "find_mailbox st (row_mailboxId msg) = Some mbx"
  shows "exact_row st (rollup now msg mbx ident (thread_rows msg mbx st))"
    and "mt_messageCount (rollup now msg mbx ident (thread_rows msg mbx st))
      = length (scope_messages st (row_threadId msg) (mx_id mbx))"
  using unread_foldl [of 0]
  by (simp_all add: thread_rows_owned [OF assms] rollup_def Let_def exact_row_def unread_of_sort any_flagged_set list_ex_iff)

lemma upsert_run:
  assumes "owned st" "m \<in> set (st_messages st)" "distinct (map row_id (st_messages st))"
  obtains mbx ident where "find_mailbox st (row_mailboxId m) = Some mbx"
    "upsertMailboxThreadItem now (row_id m) st =
       Inr (st\<lparr>st_mailboxThreads := upsert_summary (rollup now m mbx ident (thread_rows m mbx st)) (st_mailboxThreads st)\<rparr>,
            row_threadId m, row_mailboxId m)"
proof -
  obtain b d where bd: "find_mailbox st (row_mailboxId m) = Some b" "find_identity st (mx_identityId b) = Some d"
    using ownedD [OF assms(1,2)] by metis
  have "find (\<lambda>x. row_id x = row_id m) (st_messages st) = Some m"
    using assms(3,2) by (rule find_by_key)
  with bd show thesis using find_mailbox_id [OF bd(1)] by (intro that [OF bd(1)]) (simp add: upsertMailboxThreadItem_def)
qed

lemma upsert_covers:
  "list_ex (is_summary (mt_threadId new) (mt_mailboxId new)) (upsert_summary new rows)"
  "list_ex (is_summary t b) rows \<Longrightarrow> list_ex (is_summary t b) (upsert_summary new rows)"
proof -
  have "list_ex (is_summary t b) (update_where Q (merge_summary new) rows) = list_ex (is_summary t b) rows" for t b Q
    by (rule list_ex_update_where) (simp add: is_summary_def)
  then show "list_ex (is_summary (mt_threadId new) (mt_mailboxId new)) (upsert_summary new rows)"
    "list_ex (is_summary t b) rows \<Longrightarrow> list_ex (is_summary t b) (upsert_summary new rows)"
    by (simp_all add: upsert_summary_def) (simp_all add: is_summary_def)
qed

lemma scope_messages_snoc:
  "scope_messages (st\<lparr>st_messages := st_messages st @ [m]\<rparr>) t b =
     scope_messages st t b @ (if in_scope t b m then [m] else [])"
  by (simp add: scope_messages_def)

text \<open>The new message makes only the summary of its own scope stale, and there only a star can be missing.\<close>

lemma insert_then_upsert:
  assumes inv: "store_inv st" and ids: "row_id m \<notin> row_id ` set (st_messages st)"
    and own: "owned (st\<lparr>st_messages := st_messages st @ [m]\<rparr>)" (is "owned ?st")
  obtains st' where "upsertMailboxThreadItem now (row_id m) ?st = Inr (st', row_threadId m, row_mailboxId m)"
    "store_inv st'" "st_messages st' = st_messages st @ [m]"
    "\<And>t b. list_ex (is_summary t b) (st_mailboxThreads st) \<Longrightarrow> list_ex (is_summary t b) (st_mailboxThreads st')"
    "list_ex (is_summary (row_threadId m) (row_mailboxId m)) (st_mailboxThreads st')"
proof -
  have d: "distinct (map row_id (st_messages ?st))" using inv ids by (simp add: store_inv_def)
  have m: "m \<in> set (st_messages ?st)" by simp
  obtain mbx ident where box: "find_mailbox ?st (row_mailboxId m) = Some mbx"
    and run: "upsertMailboxThreadItem now (row_id m) ?st =
      Inr (?st\<lparr>st_mailboxThreads := upsert_summary (rollup now m mbx ident (thread_rows m mbx ?st)) (st_mailboxThreads ?st)\<rparr>,
           row_threadId m, row_mailboxId m)"
    by (rule upsert_run [OF own m d])
  let ?new = "rollup now m mbx ident (thread_rows m mbx ?st)"
  have key: "mt_threadId ?new = row_threadId m" "mt_mailboxId ?new = row_mailboxId m"
    using find_mailbox_id [OF box] by (simp_all add: rollup_def Let_def)
  have new: "exact_row ?st ?new" by (rule rollup_exact [OF own m box])
  have old: "exact_row st r" if "r \<in> set (st_mailboxThreads st)" for r
    using inv that by (simp add: store_inv_def summaries_exact_def list_all_iff)
  have "summaries_exact (?st\<lparr>st_mailboxThreads := upsert_summary ?new (st_mailboxThreads ?st)\<rparr>)"
  proof (rule upsert_restores [OF _ new])
    show "distinct (map summary_key (st_mailboxThreads ?st))" using inv by (simp add: store_inv_def summaries_exact_def)
    show "exact_row ?st r" if "r \<in> set (st_mailboxThreads ?st)" "\<not> is_summary (mt_threadId ?new) (mt_mailboxId ?new) r" for r
      using old [of r] that key by (auto simp: exact_row_def scope_messages_snoc in_scope_def is_summary_def)
    show "mt_starred ?new" if "r \<in> set (st_mailboxThreads ?st)" "is_summary (mt_threadId ?new) (mt_mailboxId ?new) r" "mt_starred r"
      for r using old [of r] that new by (auto simp: exact_row_def scope_messages_snoc is_summary_def any_flagged_set)
  qed
  then show thesis using d upsert_covers(1) [of ?new "st_mailboxThreads st"] upsert_covers(2) [of _ _ "st_mailboxThreads st" ?new] key
    by (intro that [OF run]) (simp_all add: store_inv_def)
qed

interpretation newest_order: js_comparator newest_first
  by unfold_locales (auto simp: newest_first_def)

lemma find_upsert:
  "find (is_summary (mt_threadId new) (mt_mailboxId new)) (upsert_summary new rows) =
     Some (case find (is_summary (mt_threadId new) (mt_mailboxId new)) rows of None \<Rightarrow> new | Some old \<Rightarrow> merge_summary new old)"
proof -
  let ?P = "is_summary (mt_threadId new) (mt_mailboxId new)"
  have "?P (merge_summary new r) = ?P r" for r by (simp add: is_summary_def)
  then have "find ?P (update_where ?P (merge_summary new) rows) = map_option (merge_summary new) (find ?P rows)"
    by (rule find_update_where)
  moreover have "?P new" by (simp add: is_summary_def)
  ultimately show ?thesis by (auto simp: upsert_summary_def list_ex_find find_snoc split: option.split)
qed

lemma merge_summary_last: "mt_lastActivityAt (merge_summary new old) = max (mt_lastActivityAt new) (mt_lastActivityAt old)"
  by (simp add: merge_summary_def)

subsection \<open>Lemmas: relocation\<close>

text \<open>
  What the loop keeps of the rows \<open>ms0\<close> it starts from: ids stay distinct, the other threads stay as they
  are, and each row is an old one, possibly carried from the old mailbox to the new one.
\<close>

definition relocates :: "string \<Rightarrow> string \<Rightarrow> string \<Rightarrow> message_row list \<Rightarrow> message_row list \<Rightarrow> bool" where
  "relocates t src dest ms0 ms \<longleftrightarrow>
     distinct (map row_id ms) \<and> filter (\<lambda>d. row_threadId d \<noteq> t) ms = filter (\<lambda>d. row_threadId d \<noteq> t) ms0
     \<and> (\<forall>d \<in> set ms. \<exists>d0 \<in> set ms0. row_id d = row_id d0 \<and> row_threadId d = row_threadId d0 \<and> row_ownerId d = row_ownerId d0
          \<and> (row_mailboxId d = row_mailboxId d0 \<or> row_mailboxId d = dest \<and> row_mailboxId d0 = src))"

lemma relocates_refl: "distinct (map row_id ms) \<Longrightarrow> relocates t src dest ms ms"
  by (auto simp: relocates_def)

lemma relocated_sel [simp]:
  "row_id (relocated dest path m) = row_id m" "row_threadId (relocated dest path m) = row_threadId m"
  "row_ownerId (relocated dest path m) = row_ownerId m" "row_mailboxId (relocated dest path m) = dest"
  by (simp_all add: relocated_def)

lemma relocatesE:
  assumes "relocates t src dest ms0 ms" "d \<in> set ms"
  obtains e where "e \<in> set ms0" "row_id d = row_id e" "row_threadId d = row_threadId e" "row_ownerId d = row_ownerId e"
    "row_mailboxId d = row_mailboxId e \<or> row_mailboxId d = dest \<and> row_mailboxId e = src"
  using assms unfolding relocates_def by blast

lemma relocate_one_keeps:
  assumes r: "relocates t src dest ms0 ms" and d0: "distinct (map row_id ms0)"
    and m: "m \<in> set ms0" "row_threadId m = t" "row_mailboxId m = src"
  shows "relocates t src dest ms0 (relocate_one ownerId dest path m ms)"
proof -
  have same: "row_threadId d = t" if d: "d \<in> set ms" and i: "row_id d = row_id m" for d
  proof -
    obtain e where "e \<in> set ms0" "row_id d = row_id e" "row_threadId d = row_threadId e"
      by (rule relocatesE [OF r d])
    with i have "e = m" by (intro distinct_key_eq [OF d0 _ m(1)]) simp_all
    with \<open>row_threadId d = row_threadId e\<close> m(2) show ?thesis by simp
  qed
  have drop: "relocates t src dest ms0 (filter (\<lambda>d. row_id d \<noteq> row_id m) ms)"
  proof -
    have "filter (\<lambda>d. row_threadId d \<noteq> t) (filter (\<lambda>d. row_id d \<noteq> row_id m) ms) = filter (\<lambda>d. row_threadId d \<noteq> t) ms"
      unfolding filter_filter using same by (intro filter_cong) auto
    then show ?thesis using r by (simp add: relocates_def distinct_map_filter)
  qed
  let ?u = "update_where (\<lambda>d. row_id d = row_id m) (relocated dest path) ms"
  have move: "relocates t src dest ms0 ?u"
  proof -
    have "filter (\<lambda>d. row_threadId d \<noteq> t) ?u = filter (\<lambda>d. row_threadId d \<noteq> t) ms"
      by (rule filter_update_where_members) (use same in simp)
    moreover have "map row_id ?u = map row_id ms" by (rule map_update_where) simp
    moreover have "\<exists>e \<in> set ms0. row_id d = row_id e \<and> row_threadId d = row_threadId e \<and> row_ownerId d = row_ownerId e
        \<and> (row_mailboxId d = row_mailboxId e \<or> row_mailboxId d = dest \<and> row_mailboxId e = src)" if "d \<in> set ?u" for d
    proof -
      obtain c where c: "c \<in> set ms" "d = (if row_id c = row_id m then relocated dest path c else c)"
        using \<open>d \<in> set ?u\<close> by (auto simp: update_where_def)
      obtain e where e: "e \<in> set ms0" "row_id c = row_id e" "row_threadId c = row_threadId e" "row_ownerId c = row_ownerId e"
        "row_mailboxId c = row_mailboxId e \<or> row_mailboxId c = dest \<and> row_mailboxId e = src"
        by (rule relocatesE [OF r c(1)])
      have "e = m" if "row_id c = row_id m" using that e(1,2) by (intro distinct_key_eq [OF d0 _ m(1)]) simp_all
      with c(2) e m(3) show ?thesis by (intro bexI [of _ e]) auto
    qed
    ultimately show ?thesis using r by (simp add: relocates_def)
  qed
  show ?thesis using r drop move by (simp add: relocate_one_def Let_def)
qed

lemma relocate_all_keeps:
  assumes "relocates t src dest ms0 ms" "distinct (map row_id ms0)"
    "\<forall>m \<in> set all. m \<in> set ms0 \<and> row_threadId m = t \<and> row_mailboxId m = src"
  shows "relocates t src dest ms0 (foldl (\<lambda>ms m. relocate_one ownerId dest path m ms) ms all)"
  using assms by (induction all arbitrary: ms) (simp_all add: relocate_one_keeps)

lemma relocates_owned:
  assumes "owned st" "relocates t src dest (st_messages st) ms"
    "find_mailbox st dest = Some box" "find_identity st (mx_identityId box) \<noteq> None"
    "\<And>m. m \<in> set (st_messages st) \<Longrightarrow> row_mailboxId m = src \<Longrightarrow> row_ownerId m = mx_ownerId box"
  shows "owned (st\<lparr>st_messages := ms, st_mailboxThreads := rs\<rparr>)"
proof -
  have all: "case find_mailbox st (row_mailboxId d) of None \<Rightarrow> False
      | Some b \<Rightarrow> mx_ownerId b = row_ownerId d \<and> find_identity st (mx_identityId b) \<noteq> None" if d: "d \<in> set ms" for d
  proof -
    obtain e where e: "e \<in> set (st_messages st)" "row_ownerId d = row_ownerId e"
      "row_mailboxId d = row_mailboxId e \<or> row_mailboxId d = dest \<and> row_mailboxId e = src"
      by (rule relocatesE [OF assms(2) d])
    from e(3) show ?thesis
    proof
      assume "row_mailboxId d = row_mailboxId e"
      with e(1,2) assms(1) show ?thesis by (auto elim!: ownedD [OF _ e(1)])
    next
      assume "row_mailboxId d = dest \<and> row_mailboxId e = src"
      with e(1,2) assms(3,4,5) show ?thesis by simp
    qed
  qed
  have same: "find_mailbox (st\<lparr>st_messages := ms, st_mailboxThreads := rs\<rparr>) = find_mailbox st"
    "find_identity (st\<lparr>st_messages := ms, st_mailboxThreads := rs\<rparr>) = find_identity st"
    by (simp_all add: fun_eq_iff find_mailbox_def find_identity_def)
  show ?thesis unfolding owned_def list_all_iff same using all by simp
qed

text \<open>After the summaries of the thread are dropped, the refreshed one is exact again.\<close>

lemma upsert_fresh_inv:
  assumes inv: "store_inv st" and own: "owned st" and m: "m \<in> set (st_messages st)"
    and st': "upsertMailboxThreadItem now (row_id m) st = Inr (st', k)"
  shows "store_inv st'"
proof -
  have d: "distinct (map row_id (st_messages st))" using inv by (simp add: store_inv_def)
  obtain mbx ident where box: "find_mailbox st (row_mailboxId m) = Some mbx"
    and run: "upsertMailboxThreadItem now (row_id m) st =
      Inr (st\<lparr>st_mailboxThreads := upsert_summary (rollup now m mbx ident (thread_rows m mbx st)) (st_mailboxThreads st)\<rparr>,
           row_threadId m, row_mailboxId m)"
    by (rule upsert_run [OF own m d])
  let ?new = "rollup now m mbx ident (thread_rows m mbx st)"
  have new: "exact_row st ?new" by (rule rollup_exact [OF own m box])
  have old: "exact_row st r" if "r \<in> set (st_mailboxThreads st)" for r
    using inv that by (simp add: store_inv_def summaries_exact_def list_all_iff)
  have "summaries_exact (st\<lparr>st_mailboxThreads := upsert_summary ?new (st_mailboxThreads st)\<rparr>)"
  proof (rule upsert_restores [OF _ new])
    show "distinct (map summary_key (st_mailboxThreads st))" using inv by (simp add: store_inv_def summaries_exact_def)
    show "mt_starred ?new" if "r \<in> set (st_mailboxThreads st)" "is_summary (mt_threadId ?new) (mt_mailboxId ?new) r" "mt_starred r"
      for r using old [of r] that new by (simp add: exact_row_def is_summary_def)
  qed (rule old)
  then show ?thesis using d run st' by (auto simp: store_inv_def)
qed

lemma refresh_newest_inv:
  assumes inv: "store_inv st" and own: "owned st"
  shows "store_inv (refresh_newest now t st)"
proof (cases "js_sort newest_first (filter (\<lambda>m. row_threadId m = t) (st_messages st))")
  case (Cons newest rest)
  have "newest \<in> set (js_sort newest_first (filter (\<lambda>m. row_threadId m = t) (st_messages st)))"
    unfolding Cons by simp
  then have "newest \<in> set (st_messages st)" by simp
  then show ?thesis using inv upsert_fresh_inv [OF inv own] unfolding refresh_newest_def Cons by (auto split: sum.split)
qed (simp add: refresh_newest_def inv)

lemma drop_thread_inv:
  assumes inv: "store_inv st" and r: "relocates t src dest (st_messages st) ms"
  shows "store_inv (st\<lparr>st_messages := ms, st_mailboxThreads := filter (\<lambda>r. mt_threadId r \<noteq> t) (st_mailboxThreads st)\<rparr>)"
    (is "store_inv ?st")
proof -
  have other: "filter (in_scope t' b) ms = filter (in_scope t' b) (st_messages st)" if "t' \<noteq> t" for t' b
  proof -
    have "filter (in_scope t' b) xs = filter (in_scope t' b) (filter (\<lambda>d. row_threadId d \<noteq> t) xs)" for xs
      unfolding filter_filter using that by (intro filter_cong) (auto simp: in_scope_def)
    then show ?thesis using r unfolding relocates_def by metis
  qed
  have "exact_row ?st r" if "r \<in> set (st_mailboxThreads st)" "mt_threadId r \<noteq> t" for r
    using inv that other [OF that(2)] by (simp add: exact_row_iff store_inv_def summaries_exact_def list_all_iff)
  then show ?thesis using inv r
    by (simp add: store_inv_def summaries_exact_def relocates_def list_all_iff distinct_map_filter)
qed

lemma store_message_new:
  assumes "store_inv st" "covered st" "owned (st\<lparr>st_messages := st_messages st @ [m]\<rparr>)"
    "row_id m \<notin> row_id ` set (st_messages st)" "message_key m \<notin> message_key ` set (st_messages st)"
  obtains st' where "store_message now m st = Inr st'" "store_inv st'" "covered st'" "st_messages st' = st_messages st @ [m]"
proof -
  obtain st' where st': "upsertMailboxThreadItem now (row_id m) (st\<lparr>st_messages := st_messages st @ [m]\<rparr>)
      = Inr (st', row_threadId m, row_mailboxId m)"
    "store_inv st'" "st_messages st' = st_messages st @ [m]"
    "\<And>t b. list_ex (is_summary t b) (st_mailboxThreads st) \<Longrightarrow> list_ex (is_summary t b) (st_mailboxThreads st')"
    "list_ex (is_summary (row_threadId m) (row_mailboxId m)) (st_mailboxThreads st')"
    using insert_then_upsert [OF assms(1,4,3), of now] by metis
  show thesis
  proof (rule that)
    show "covered st'" using assms(2) st'(3-5) by (simp add: covered_def list_all_iff)
    show "store_message now m st = Inr st'" using st'(1) assms(5) by (simp add: store_message_def image_iff)
  qed (rule st'(2,3))+
qed

lemma refresh_newest_sel [store_simps]:
  "st_messages (refresh_newest now t st) = st_messages st" "st_threads (refresh_newest now t st) = st_threads st"
  "st_mailboxes (refresh_newest now t st) = st_mailboxes st" "st_identities (refresh_newest now t st) = st_identities st"
  by (auto simp: refresh_newest_def upsertMailboxThreadItem_def split: list.split option.split)

lemma deltaFetch_existing_run:
  assumes "store_inv st" "owned st" "existing \<in> set (st_messages st)" "find_mailbox st dest = Some box"
    "find_identity st (mx_identityId box) \<noteq> None" "mx_ownerId box = row_ownerId existing"
  shows "store_inv (deltaFetch_existing now ownerId dest path existing st)"
    "owned (deltaFetch_existing now ownerId dest path existing st)"
    "\<exists>t src. relocates t src dest (st_messages st) (st_messages (deltaFetch_existing now ownerId dest path existing st))"
    "st_threads (deltaFetch_existing now ownerId dest path existing st) = st_threads st"
    "st_mailboxes (deltaFetch_existing now ownerId dest path existing st) = st_mailboxes st"
    "st_identities (deltaFetch_existing now ownerId dest path existing st) = st_identities st"
proof -
  let ?new = "deltaFetch_existing now ownerId dest path existing st"
  have d: "distinct (map row_id (st_messages st))" using assms(1) by (simp add: store_inv_def)
  have "store_inv ?new \<and> owned ?new \<and> (\<exists>t src. relocates t src dest (st_messages st) (st_messages ?new))
    \<and> st_threads ?new = st_threads st \<and> st_mailboxes ?new = st_mailboxes st \<and> st_identities ?new = st_identities st"
  proof (cases "row_mailboxId existing = dest")
    case True
    then show ?thesis using assms(1,2) relocates_refl [OF d] by (auto simp: deltaFetch_existing_def)
  next
    case False
    let ?t = "row_threadId existing" and ?src = "row_mailboxId existing"
    let ?all = "filter (\<lambda>m. row_threadId m = ?t \<and> row_mailboxId m = ?src) (st_messages st)"
    let ?ms = "foldl (\<lambda>ms m. relocate_one ownerId dest path m ms) (st_messages st) ?all"
    let ?st2 = "st\<lparr>st_messages := ?ms, st_mailboxThreads := filter (\<lambda>r. mt_threadId r \<noteq> ?t) (st_mailboxThreads st)\<rparr>"
    have rel: "relocates ?t ?src dest (st_messages st) ?ms"
      by (rule relocate_all_keeps [OF relocates_refl [OF d] d]) simp
    have inv2: "store_inv ?st2" by (rule drop_thread_inv [OF assms(1) rel])
    have "row_ownerId m = mx_ownerId box" if "m \<in> set (st_messages st)" "row_mailboxId m = ?src" for m
      using assms(2,3,6) that by (metis ownedD option.inject)
    then have own2: "owned ?st2" by (rule relocates_owned [OF assms(2) rel assms(4,5)])
    have new: "?new = add_job (JobRefreshThread ?t) (refresh_newest now ?t ?st2)"
      using False by (simp add: deltaFetch_existing_def Let_def)
    have "store_inv (refresh_newest now ?t ?st2)" by (rule refresh_newest_inv [OF inv2 own2])
    then have "store_inv ?new" unfolding new by (rule store_inv_cong [THEN iffD1, rotated 2]) (simp_all add: store_simps)
    moreover have "owned ?new" using own2 unfolding new by (rule owned_cong [THEN iffD1, rotated 3]) (simp_all add: store_simps)
    moreover have "st_messages ?new = ?ms" unfolding new by (simp add: store_simps)
    ultimately show ?thesis using rel unfolding new by (auto simp: store_simps)
  qed
  then show "store_inv ?new" "owned ?new" "\<exists>t src. relocates t src dest (st_messages st) (st_messages ?new)"
    "st_threads ?new = st_threads st" "st_mailboxes ?new = st_mailboxes st" "st_identities ?new = st_identities st"
    by blast+
qed

subsection \<open>Properties\<close>

text \<open>
  The nested loops that collect the participants of a thread, with their early exits and their
  sets of addresses already seen, compute for each of the four headers the first five distinct
  addresses of the messages, newest first and compared without case.\<close>

theorem rollup_participants_first:
  "rollup_participants rows =
     \<lparr>pl_from = first_participants row_from rows, pl_to = first_participants row_to rows,
      pl_cc = first_participants row_cc rows, pl_bcc = first_participants row_bcc rows\<rparr>"
  unfolding rollup_participants_def Let_def participants_loop_foldl buckets_foldl first_participants_def
  by (simp add: bucket_rows_spec)

text \<open>
  C14. Refreshing the summary of a thread corrects its counts whatever they were before: after
  \<open>upsertMailboxThreadItem\<close> on any stored message the thread has a summary in that mailbox, with the
  exact numbers of messages and of unread messages and a date no earlier than any message; its star
  is set when a message is starred, and kept when it was set before.\<close>

theorem upsert_counts_exact:
  assumes "owned st" "distinct (map row_id (st_messages st))" "m \<in> set (st_messages st)"
  shows "\<exists>st' r. upsertMailboxThreadItem now (row_id m) st = Inr (st', row_threadId m, row_mailboxId m)
     \<and> find (is_summary (row_threadId m) (row_mailboxId m)) (st_mailboxThreads st') = Some r
     \<and> mt_messageCount r = length (scope_messages st (row_threadId m) (row_mailboxId m))
     \<and> mt_unreadCount r = unread_of (scope_messages st (row_threadId m) (row_mailboxId m))
     \<and> (\<forall>x \<in> set (scope_messages st (row_threadId m) (row_mailboxId m)). activity x \<le> mt_lastActivityAt r)
     \<and> (mt_starred r \<longleftrightarrow> any_flagged (scope_messages st (row_threadId m) (row_mailboxId m))
          \<or> (case find (is_summary (row_threadId m) (row_mailboxId m)) (st_mailboxThreads st) of
               None \<Rightarrow> False | Some old \<Rightarrow> mt_starred old))"
proof -
  obtain mbx ident where box: "find_mailbox st (row_mailboxId m) = Some mbx"
    and run: "upsertMailboxThreadItem now (row_id m) st =
      Inr (st\<lparr>st_mailboxThreads := upsert_summary (rollup now m mbx ident (thread_rows m mbx st)) (st_mailboxThreads st)\<rparr>,
           row_threadId m, row_mailboxId m)"
    by (rule upsert_run [OF assms(1,3,2)])
  let ?new = "rollup now m mbx ident (thread_rows m mbx st)" and ?P = "is_summary (row_threadId m) (row_mailboxId m)"
  let ?ms = "scope_messages st (row_threadId m) (row_mailboxId m)"
  have id: "mx_id mbx = row_mailboxId m" by (rule find_mailbox_id [OF box])
  have key: "mt_threadId ?new = row_threadId m" "mt_mailboxId ?new = row_mailboxId m"
    using id by (simp_all add: rollup_def Let_def)
  have new: "mt_messageCount ?new = length ?ms" "mt_unreadCount ?new = unread_of ?ms" "mt_starred ?new = any_flagged ?ms"
    using rollup_exact [OF assms(1,3) box, of now ident] by (simp_all add: exact_row_def key id)
  have late: "\<forall>x \<in> set ?ms. activity x \<le> mt_lastActivityAt ?new"
    using newest_order.hd_js_sort_least [of _ ?ms]
    by (simp add: thread_rows_owned [OF assms(1,3) box] rollup_def Let_def id newest_first_def)
  show ?thesis unfolding run
    by (rule exI, rule exI [of _ "case find ?P (st_mailboxThreads st) of None \<Rightarrow> ?new | Some old \<Rightarrow> merge_summary ?new old"])
       (use new late in \<open>auto simp: find_upsert [of ?new, unfolded key] merge_summary_last max_def split: option.split\<close>)
qed

theorem upsert_counts_exact_witness:
  "\<exists>st' r. upsertMailboxThreadItem 5 ''2''
       (sample_store [sample_row ''1'' ''t'' ''b1'' True, sample_row ''2'' ''t'' ''b1'' False] [sample_summary ''t'' ''b1'' 9 9])
       = Inr (st', ''t'', ''b1'')
     \<and> find (is_summary ''t'' ''b1'') (st_mailboxThreads st') = Some r \<and> mt_messageCount r = 2 \<and> mt_unreadCount r = 1"
proof -
  let ?m = "sample_row ''2'' ''t'' ''b1'' False"
  let ?st = "sample_store [sample_row ''1'' ''t'' ''b1'' True, ?m] [sample_summary ''t'' ''b1'' 9 9]"
  have "owned ?st" "distinct (map row_id (st_messages ?st))" "?m \<in> set (st_messages ?st)"
    by code_simp+
  from upsert_counts_exact [OF this, of 5] show ?thesis
    by (auto simp: sample_row_def sample_store_def scope_messages_def in_scope_def unread_of_def)
qed

text \<open>
  C3. Storing an incoming message keeps the invariants of the store: ids stay distinct, every
  summary is exact, every message has a summary row, messages belong to the owner of their mailbox. The
  call succeeds, the message is stored once, and storing it again (the same Message-ID in the same
  mailbox) changes nothing.\<close>

theorem store_message_keeps:
  assumes "store_inv st" "covered st" "owned (st\<lparr>st_messages := st_messages st @ [m]\<rparr>)"
    "row_id m \<notin> row_id ` set (st_messages st)" "message_key m \<notin> message_key ` set (st_messages st)"
  shows "\<exists>st'. store_message now m st = Inr st' \<and> store_inv st' \<and> covered st'
     \<and> st_messages st' = st_messages st @ [m] \<and> store_message later m st' = Inr st'"
proof -
  obtain st' where st': "store_message now m st = Inr st'" "store_inv st'" "covered st'" "st_messages st' = st_messages st @ [m]"
    by (rule store_message_new [OF assms])
  moreover have "store_message later m st' = Inr st'" by (simp add: store_message_def st'(4))
  ultimately show ?thesis by blast
qed

theorem store_message_keeps_witness:
  "\<exists>st'. store_message 5 (sample_row ''2'' ''t'' ''b1'' False)
       (sample_store [sample_row ''1'' ''t'' ''b1'' True] [sample_summary ''t'' ''b1'' 1 0]) = Inr st'
     \<and> store_inv st' \<and> covered st' \<and> map row_id (st_messages st') = [''1'', ''2'']"
proof -
  let ?m = "sample_row ''2'' ''t'' ''b1'' False"
  let ?st = "sample_store [sample_row ''1'' ''t'' ''b1'' True] [sample_summary ''t'' ''b1'' 1 0]"
  have h: "store_inv ?st" "covered ?st" "owned (?st\<lparr>st_messages := st_messages ?st @ [?m]\<rparr>)"
    "row_id ?m \<notin> row_id ` set (st_messages ?st)" "message_key ?m \<notin> message_key ` set (st_messages ?st)"
    by code_simp+
  from store_message_keeps [OF h, of 5 6] obtain st' where st': "store_message 5 ?m ?st = Inr st'" "store_inv st'" "covered st'" "st_messages st' = st_messages ?st @ [?m]"
    by (elim exE conjE)
  moreover have "map row_id (st_messages st') = [''1'', ''2'']"
    unfolding st'(4) by (simp add: sample_store_def sample_row_def)
  ultimately show ?thesis by (intro exI [of _ st'] conjI)
qed

text \<open>
  When the incremental sync finds a message in another mailbox of the same owner, carrying
  its thread over keeps the ids distinct and every remaining summary exact, whichever duplicates it
  drops on the way.\<close>

theorem deltaFetch_existing_inv:
  assumes "store_inv st" "owned st" "existing \<in> set (st_messages st)" "find_mailbox st dest = Some box"
    "find_identity st (mx_identityId box) \<noteq> None" "mx_ownerId box = row_ownerId existing"
  shows "store_inv (deltaFetch_existing now ownerId dest path existing st)"
  by (rule deltaFetch_existing_run [OF assms])

theorem deltaFetch_existing_inv_witness:
  "store_inv (deltaFetch_existing 5 ''o'' ''b2'' ''Trash'' (sample_row ''1'' ''t'' ''b1'' False)
     (sample_store [sample_row ''1'' ''t'' ''b1'' False] [sample_summary ''t'' ''b1'' 1 1]))"
proof (rule deltaFetch_existing_inv [where box = "sample_mailbox ''b2'' ''trash''"])
  let ?st = "sample_store [sample_row ''1'' ''t'' ''b1'' False] [sample_summary ''t'' ''b1'' 1 1]"
  show "store_inv ?st" "owned ?st" "find_identity ?st (mx_identityId (sample_mailbox ''b2'' ''trash'')) \<noteq> None"
    by code_simp+
  show "find_mailbox ?st ''b2'' = Some (sample_mailbox ''b2'' ''trash'')"
    by (simp add: sample_store_def find_mailbox_def sample_mailbox_def)
qed (simp_all add: sample_store_def sample_mailbox_def sample_row_def)

text \<open>
  That handling deletes the summaries of the thread in every mailbox and rebuilds only the
  one of the newest message: here the thread also has a message in a third mailbox, which was in the
  listing of that mailbox before the sync and is in none afterwards, although it is still stored.\<close>

theorem deltaFetch_existing_drops_summary:
  "let st = sample_store [sample_row ''1'' ''t'' ''b1'' False, (sample_row ''2'' ''t'' ''b3'' True)\<lparr>row_date := Some (-1)\<rparr>]
         [sample_summary ''t'' ''b1'' 1 1, sample_summary ''t'' ''b3'' 1 0];
       st' = deltaFetch_existing 5 ''o'' ''b2'' ''Trash'' (sample_row ''1'' ''t'' ''b1'' False) st
   in covered st \<and> \<not> covered st' \<and> map row_id (scope_messages st' ''t'' ''b3'') = [''2'']
      \<and> map summary_key (st_mailboxThreads st') = [(''t'', ''b2'')]"
  by code_simp

end
