(* ===== verification/RealTime.thy ===== *)
theory RealTime
  imports MailStore JsValue
begin

text \<open>
  What the IMAP server reports while a connection idles: \<open>apps/worker/lib/imap/imap-idle-sync.ts\<close>. A flags
  event sets the marks of a message, an expunge event deletes one; both then bring the summary of its
  thread up to date. The IMAP client is an argument: the uid it finds for a sequence number.

  \<open>int8\<close> is how the database driver hands a \<open>bigint\<close> to JavaScript, as a number or as a text; the code
  compares such a count with the number 0.
\<close>

subsection \<open>The rows an event is about\<close>

definition event_mailbox :: "string \<Rightarrow> string \<Rightarrow> store \<Rightarrow> mailbox_row option" where
  "event_mailbox identityId mailboxPath st =
     find (\<lambda>b. mx_identityId b = identityId \<and> mx_imapPath b = Some mailboxPath) (st_mailboxes st)"

definition event_message :: "string \<Rightarrow> int \<Rightarrow> store \<Rightarrow> message_row option" where
  "event_message mailboxId uid st =
     find (\<lambda>m. row_mailboxId m = mailboxId \<and> Option.bind (row_imap m) im_uid = Some uid) (st_messages st)"

subsection \<open>Flags\<close>

definition handleFlagsUpdate :: "date \<Rightarrow> string \<Rightarrow> int \<Rightarrow> string \<Rightarrow> bool \<Rightarrow> bool \<Rightarrow> bool \<Rightarrow> store \<Rightarrow> store" where
  "handleFlagsUpdate now identityId uid mailboxPath isFlagged isSeen isAnswered st =
     (case event_mailbox identityId mailboxPath st of
        None \<Rightarrow> st
      | Some mailbox \<Rightarrow>
          (case event_message (mx_id mailbox) uid st of
             None \<Rightarrow> st
           | Some message \<Rightarrow>
               if row_flagged message = isFlagged \<and> row_seen message = isSeen then st
               else refresh_summary now (row_threadId message) (mx_id mailbox)
                      (st\<lparr>st_messages := update_where (\<lambda>m. row_id m = row_id message)
                         (\<lambda>m. m\<lparr>row_flagged := isFlagged, row_seen := isSeen, row_answered := isAnswered, row_updatedAt := now\<rparr>)
                         (st_messages st)\<rparr>)))"

subsection \<open>Expunge\<close>

text \<open>The summary gets the figures, but not the number, of the messages that are left.\<close>

definition handleExpunge :: "(nat \<Rightarrow> jsval) \<Rightarrow> date \<Rightarrow> string \<Rightarrow> string \<Rightarrow> int \<Rightarrow> store \<Rightarrow> store" where
  "handleExpunge int8 now identityId mailboxPath uid st =
     (case event_mailbox identityId mailboxPath st of
        None \<Rightarrow> st
      | Some mailbox \<Rightarrow>
          (case event_message (mx_id mailbox) uid st of
             None \<Rightarrow> st
           | Some message \<Rightarrow>
               let t = row_threadId message; b = mx_id mailbox;
                   st1 = st\<lparr>st_messages := filter (\<lambda>m. row_id m \<noteq> row_id message) (st_messages st)\<rparr>
               in if int8 (length (scope_messages st1 t b)) = JNum (JFin 0)
                  then st1\<lparr>st_mailboxThreads := filter (\<lambda>r. \<not> is_summary t b r) (st_mailboxThreads st1)\<rparr>
                  else refresh_summary now t b st1))"

subsection \<open>The event handlers\<close>

record flags_event =
  fl_uid :: "int option"
  fl_path :: string
  fl_flags :: "string list"

definition real_uid :: "int option \<Rightarrow> int option" where
  "real_uid u = (case u of Some n \<Rightarrow> if n \<noteq> 0 then Some n else None | None \<Rightarrow> None)"

definition on_flags :: "date \<Rightarrow> string \<Rightarrow> int option \<Rightarrow> flags_event \<Rightarrow> store \<Rightarrow> store" where
  "on_flags now identityId fetched ev st =
     (case (case real_uid (fl_uid ev) of Some n \<Rightarrow> Some n | None \<Rightarrow> real_uid fetched) of
        None \<Rightarrow> st
      | Some uid \<Rightarrow>
          handleFlagsUpdate now identityId uid (fl_path ev) (backslash # ''Flagged'' \<in> set (fl_flags ev))
            (backslash # ''Seen'' \<in> set (fl_flags ev)) (backslash # ''Answered'' \<in> set (fl_flags ev)) st)"

definition on_expunge :: "(nat \<Rightarrow> jsval) \<Rightarrow> date \<Rightarrow> string \<Rightarrow> int option \<Rightarrow> string \<Rightarrow> store \<Rightarrow> store" where
  "on_expunge int8 now identityId uid mailboxPath st =
     (case real_uid uid of None \<Rightarrow> st | Some n \<Rightarrow> handleExpunge int8 now identityId mailboxPath n st)"

subsection \<open>Lemmas\<close>

lemma event_messageD:
  assumes "event_message b uid st = Some m"
  shows "m \<in> set (st_messages st)" "row_mailboxId m = b"
  using find_mem [OF assms [unfolded event_message_def]] by simp_all

lemma single_row_scope:
  assumes "distinct (map row_id ms)" "m \<in> set ms"
  shows "update_where (\<lambda>x. row_id x = row_id m) f ms
    = update_where (in_scope (row_threadId m) (row_mailboxId m)) (\<lambda>x. if row_id x = row_id m then f x else x) ms"
proof -
  have "x = m" if "x \<in> set ms" "row_id x = row_id m" for x using distinct_key_eq [OF assms(1) that(1) assms(2) that(2)] .
  then show ?thesis unfolding update_where_def by (intro map_cong refl) (auto simp: in_scope_def)
qed

lemma flags_restores:
  assumes "store_inv st" "m \<in> set (st_messages st)"
    "\<And>x. row_threadId (f x) = row_threadId x \<and> row_mailboxId (f x) = row_mailboxId x \<and> row_id (f x) = row_id x"
  shows "store_inv (refresh_summary now (row_threadId m) (row_mailboxId m)
    (st\<lparr>st_messages := update_where (\<lambda>x. row_id x = row_id m) f (st_messages st)\<rparr>))"
proof -
  have d: "distinct (map row_id (st_messages st))" using assms(1) by (simp add: store_inv_def)
  have "st\<lparr>st_messages := update_where (\<lambda>x. row_id x = row_id m) f (st_messages st)\<rparr>
    = update_messages (row_threadId m) (row_mailboxId m) (\<lambda>x. if row_id x = row_id m then f x else x) st"
    by (simp add: update_messages_def single_row_scope [OF d assms(2)])
  then show ?thesis using refresh_restores_inv [OF assms(1), of "\<lambda>x. if row_id x = row_id m then f x else x"] assms(3) by simp
qed

lemma dropped_scope:
  assumes d: "distinct (map row_id ms)" "m \<in> set ms" and o': "\<not> in_scope t b m"
  shows "filter (in_scope t b) (filter (\<lambda>x. row_id x \<noteq> row_id m) ms) = filter (in_scope t b) ms"
proof -
  have "x = m" if "x \<in> set ms" "row_id x = row_id m" for x using distinct_key_eq [OF d(1) that(1) d(2) that(2)] .
  then show ?thesis unfolding filter_filter using o' by (intro filter_cong) auto
qed

lemma drop_row_inv:
  assumes "store_inv st" "m \<in> set (st_messages st)"
    "st1 = st\<lparr>st_messages := filter (\<lambda>x. row_id x \<noteq> row_id m) (st_messages st)\<rparr>"
  shows "store_inv (refresh_summary now (row_threadId m) (row_mailboxId m) st1)"
    "scope_messages st1 (row_threadId m) (row_mailboxId m) = [] \<Longrightarrow>
     store_inv (st1\<lparr>st_mailboxThreads := filter (\<lambda>r. \<not> is_summary (row_threadId m) (row_mailboxId m) r) (st_mailboxThreads st1)\<rparr>)"
proof -
  let ?t = "row_threadId m" and ?b = "row_mailboxId m"
  have d: "distinct (map row_id (st_messages st))" and ds: "distinct (map summary_key (st_mailboxThreads st))"
    using assms(1) by (simp_all add: store_inv_def summaries_exact_def)
  have d1: "distinct (map row_id (st_messages st1))" using d by (simp add: assms(3) distinct_map_filter)
  have other: "exact_row st1 r" if "r \<in> set (st_mailboxThreads st)" "\<not> is_summary ?t ?b r" for r
  proof -
    have "\<not> in_scope (mt_threadId r) (mt_mailboxId r) m" using that(2) by (auto simp: in_scope_def is_summary_def)
    from dropped_scope [OF d assms(2) this] show ?thesis
      using assms(1) that(1) by (simp add: exact_row_iff assms(3) store_inv_def summaries_exact_def list_all_iff)
  qed
  have cong: "exact_row (refresh_summary now ?t ?b st1) r \<longleftrightarrow> exact_row st1 r" for r by (rule exact_row_cong) (simp add: store_simps)
  have keys: "map summary_key (st_mailboxThreads (refresh_summary now ?t ?b st1)) = map summary_key (st_mailboxThreads st)"
    by (simp add: refresh_summary_def Let_def store_simps assms(3) map_update_where summary_key_def)
  have "exact_row st1 r" if r: "r \<in> set (st_mailboxThreads (refresh_summary now ?t ?b st1))" for r
  proof -
    let ?g = "\<lambda>r. r\<lparr>mt_unreadCount := unread_of (scope_messages st1 ?t ?b), mt_starred := any_flagged (scope_messages st1 ?t ?b), mt_updatedAt := now\<rparr>"
    obtain q where q: "q \<in> set (st_mailboxThreads st)" "r = (if is_summary ?t ?b q then ?g q else q)"
      using r by (auto simp: refresh_summary_def Let_def store_simps assms(3) update_where_def)
    show ?thesis
    proof (cases "is_summary ?t ?b q")
      case True
      then show ?thesis using q(2) by (simp add: exact_row_def is_summary_def)
    qed (use other [OF q(1)] q(2) in simp)
  qed
  then show "store_inv (refresh_summary now ?t ?b st1)"
    using d1 ds keys by (simp add: store_inv_def summaries_exact_def list_all_iff cong store_simps)
  let ?s = "st1\<lparr>st_mailboxThreads := filter (\<lambda>r. \<not> is_summary ?t ?b r) (st_mailboxThreads st1)\<rparr>"
  have "exact_row ?s r \<longleftrightarrow> exact_row st1 r" for r by (rule exact_row_cong) simp
  then show "store_inv ?s" using d1 ds other by (simp add: store_inv_def summaries_exact_def list_all_iff assms(3) distinct_map_filter)
qed

lemma refresh_keys: "map summary_key (st_mailboxThreads (refresh_summary now t b st)) = map summary_key (st_mailboxThreads st)"
  by (simp add: refresh_summary_def Let_def store_simps map_update_where summary_key_def)

lemma handleFlagsUpdate_inv: "store_inv st \<Longrightarrow> store_inv (handleFlagsUpdate now i uid p fl se an st)"
  using flags_restores event_messageD
  by (fastforce simp: handleFlagsUpdate_def split: option.split)

lemma handleExpunge_inv:
  assumes "store_inv st" "\<And>n. int8 n = JNum (JFin 0) \<Longrightarrow> n = 0"
  shows "store_inv (handleExpunge int8 now i p uid st)"
proof -
  have "store_inv (if int8 (length (scope_messages st1 t b)) = JNum (JFin 0)
      then st1\<lparr>st_mailboxThreads := filter (\<lambda>r. \<not> is_summary t b r) (st_mailboxThreads st1)\<rparr> else refresh_summary now t b st1)"
    if "event_message b uid st = Some m" "t = row_threadId m" "st1 = st\<lparr>st_messages := filter (\<lambda>x. row_id x \<noteq> row_id m) (st_messages st)\<rparr>"
    for b m t st1
    using drop_row_inv [OF assms(1) event_messageD(1) [OF that(1)] that(3)] event_messageD(2) [OF that(1)] assms(2) that(2) by auto
  then show ?thesis using assms(1) by (auto simp: handleExpunge_def Let_def split: option.split)
qed

subsection \<open>Properties\<close>

text \<open>
  C34. A flags event sets the star and the seen mark of its message to what the server reports, leaves
  every other message alone and keeps every summary exact.\<close>

theorem handleFlagsUpdate_correct:
  assumes "store_inv st" "event_mailbox i p st = Some box" "event_message (mx_id box) uid st = Some m"
  shows "let st' = handleFlagsUpdate now i uid p isFlagged isSeen isAnswered st
    in store_inv st' \<and> map row_id (st_messages st') = map row_id (st_messages st)
       \<and> (\<exists>m' \<in> set (st_messages st'). row_id m' = row_id m \<and> row_flagged m' = isFlagged \<and> row_seen m' = isSeen)
       \<and> (\<forall>d \<in> set (st_messages st). row_id d \<noteq> row_id m \<longrightarrow> d \<in> set (st_messages st'))"
proof (cases "row_flagged m = isFlagged \<and> row_seen m = isSeen")
  case True
  then have "handleFlagsUpdate now i uid p isFlagged isSeen isAnswered st = st" using assms(2,3) by (simp add: handleFlagsUpdate_def)
  then show ?thesis using assms(1) event_messageD(1) [OF assms(3)] True by (auto simp: Let_def)
next
  case False
  let ?f = "\<lambda>m. m\<lparr>row_flagged := isFlagged, row_seen := isSeen, row_answered := isAnswered, row_updatedAt := now\<rparr>"
  have ms: "st_messages (handleFlagsUpdate now i uid p isFlagged isSeen isAnswered st)
      = update_where (\<lambda>d. row_id d = row_id m) ?f (st_messages st)"
    using assms(2,3) False by (auto simp: handleFlagsUpdate_def store_simps)
  have "?f m \<in> set (update_where (\<lambda>d. row_id d = row_id m) ?f (st_messages st))"
    using event_messageD(1) [OF assms(3)] unfolding update_where_def set_map by (intro image_eqI [of _ _ m]) simp_all
  moreover have "d \<in> set (update_where (\<lambda>d. row_id d = row_id m) ?f (st_messages st))" if "d \<in> set (st_messages st)" "row_id d \<noteq> row_id m" for d
    using that unfolding update_where_def set_map by (intro image_eqI [of _ _ d]) simp_all
  moreover have "map row_id (update_where (\<lambda>d. row_id d = row_id m) ?f (st_messages st)) = map row_id (st_messages st)"
    by (rule map_update_where) simp
  ultimately show ?thesis unfolding Let_def ms using handleFlagsUpdate_inv [OF assms(1)]
    by (intro conjI ballI impI bexI [of _ "?f m"]) simp_all
qed

definition sample_idle :: store where
  "sample_idle = (sample_store [sample_row ''1'' ''t'' ''b1'' True] [sample_summary ''t'' ''b1'' 1 0])
     \<lparr>st_mailboxes := [(sample_mailbox ''b1'' ''inbox'')\<lparr>mx_imapPath := Some ''INBOX''\<rparr>]\<rparr>"

lemma sample_idle_rows:
  "event_mailbox ''i'' ''INBOX'' sample_idle = Some ((sample_mailbox ''b1'' ''inbox'')\<lparr>mx_imapPath := Some ''INBOX''\<rparr>)"
  "event_message (mx_id ((sample_mailbox ''b1'' ''inbox'')\<lparr>mx_imapPath := Some ''INBOX''\<rparr>)) 7 sample_idle = Some (sample_row ''1'' ''t'' ''b1'' True)"
  "store_inv sample_idle"
  by code_simp+

theorem handleFlagsUpdate_correct_witness:
  "let st' = handleFlagsUpdate 5 ''i'' 7 ''INBOX'' True False False sample_idle
   in store_inv st' \<and> map row_id (st_messages st') = [''1''] \<and> map mt_unreadCount (st_mailboxThreads st') = [1]"
proof -
  have "map row_id (st_messages sample_idle) = [''1'']"
    "map mt_unreadCount (st_mailboxThreads (handleFlagsUpdate 5 ''i'' 7 ''INBOX'' True False False sample_idle)) = [1]" by code_simp+
  then show ?thesis using handleFlagsUpdate_correct [OF sample_idle_rows(3,1,2), of 5 True False False] by (simp add: Let_def)
qed

text \<open>
  A flags event that changes only the answered mark is lost: the handler looks at the star and the
  seen mark alone and leaves the tables as they are.\<close>

theorem answered_flag_missed:
  "handleFlagsUpdate now ''i'' 7 ''INBOX'' False True True sample_idle = sample_idle
   \<and> map row_answered (st_messages sample_idle) = [False]"
proof
  have f: "row_flagged (sample_row ''1'' ''t'' ''b1'' True) = False" "row_seen (sample_row ''1'' ''t'' ''b1'' True) = True"
    by (simp_all add: sample_row_def)
  show "handleFlagsUpdate now ''i'' 7 ''INBOX'' False True True sample_idle = sample_idle"
    unfolding handleFlagsUpdate_def sample_idle_rows option.case using f by simp
  show "map row_answered (st_messages sample_idle) = [False]" by code_simp
qed

text \<open>
  C39. An expunge event deletes exactly its message, keeps every summary exact and leaves the rows of other
  threads alone. A thread whose last message goes disappears from the listing of the mailbox if the driver
  gives counts as numbers.\<close>

theorem handleExpunge_correct:
  assumes "store_inv st" "event_mailbox i p st = Some box" "event_message (mx_id box) uid st = Some m"
    "\<And>n. int8 n = JNum (JFin 0) \<Longrightarrow> n = 0"
  shows "let st' = handleExpunge int8 now i p uid st
    in store_inv st' \<and> st_messages st' = filter (\<lambda>d. row_id d \<noteq> row_id m) (st_messages st)
       \<and> (int8 0 = JNum (JFin 0) \<and> scope_messages st' (row_threadId m) (mx_id box) = []
            \<longrightarrow> \<not> list_ex (is_summary (row_threadId m) (mx_id box)) (st_mailboxThreads st'))
       \<and> (\<forall>r \<in> set (st_mailboxThreads st). \<not> is_summary (row_threadId m) (mx_id box) r \<longrightarrow> r \<in> set (st_mailboxThreads st'))"
proof -
  let ?t = "row_threadId m" and ?b = "mx_id box" and ?ms = "filter (\<lambda>d. row_id d \<noteq> row_id m) (st_messages st)"
  define st1 where "st1 = st\<lparr>st_messages := ?ms\<rparr>"
  have inv: "store_inv (handleExpunge int8 now i p uid st)" by (rule handleExpunge_inv [OF assms(1)]) (rule assms(4))
  define gone where "gone \<longleftrightarrow> int8 (length (scope_messages st1 ?t ?b)) = JNum (JFin 0)"
  have run: "handleExpunge int8 now i p uid st = (if gone
      then st1\<lparr>st_mailboxThreads := filter (\<lambda>r. \<not> is_summary ?t ?b r) (st_mailboxThreads st1)\<rparr> else refresh_summary now ?t ?b st1)"
    using assms(2,3) by (simp add: handleExpunge_def Let_def st1_def gone_def)
  show ?thesis
  proof (cases gone)
    case True
    then show ?thesis using inv by (auto simp: run st1_def Let_def list_ex_iff)
  next
    case False
    then have "int8 0 \<noteq> JNum (JFin 0)" if "scope_messages (refresh_summary now ?t ?b st1) ?t ?b = []"
      using that by (simp add: scope_messages_def store_simps gone_def)
    moreover have "r \<in> set (st_mailboxThreads (refresh_summary now ?t ?b st1))" if "r \<in> set (st_mailboxThreads st)" "\<not> is_summary ?t ?b r" for r
      using that unfolding refresh_summary_def Let_def store_simps update_where_def set_map by (intro image_eqI [of _ _ r]) (simp_all add: st1_def)
    ultimately show ?thesis using inv False by (simp add: run Let_def store_simps) (auto simp: st1_def)
  qed
qed

theorem handleExpunge_correct_witness:
  "let st' = handleExpunge (\<lambda>n. JStr (show_nat n)) 5 ''i'' ''INBOX'' 7 sample_idle
   in store_inv st' \<and> st_messages st' = []"
proof -
  have "filter (\<lambda>d. row_id d \<noteq> row_id (sample_row ''1'' ''t'' ''b1'' True)) (st_messages sample_idle) = []" by code_simp
  then show ?thesis using handleExpunge_correct [OF sample_idle_rows(3,1,2), of "\<lambda>n. JStr (show_nat n)" 5] by (simp add: Let_def)
qed

text \<open>
  The driver of the program gives a \<open>bigint\<close> as a text, which never equals the number 0: the summary of
  a thread stays in the listing of the mailbox after its last message there was expunged.\<close>

theorem expunged_thread_stays:
  assumes "event_mailbox i p st = Some box" "event_message (mx_id box) uid st = Some m" "\<And>n. int8 n = JStr (show_nat n)"
  shows "map summary_key (st_mailboxThreads (handleExpunge int8 now i p uid st)) = map summary_key (st_mailboxThreads st)"
  using assms by (simp add: handleExpunge_def Let_def refresh_keys)

theorem expunged_thread_stays_witness:
  "map summary_key (st_mailboxThreads (handleExpunge (\<lambda>n. JStr (show_nat n)) 5 ''i'' ''INBOX'' 7 sample_idle)) = [(''t'', ''b1'')]
   \<and> st_messages (handleExpunge (\<lambda>n. JStr (show_nat n)) 5 ''i'' ''INBOX'' 7 sample_idle) = []"
proof
  have "map summary_key (st_mailboxThreads sample_idle) = [(''t'', ''b1'')]" by code_simp
  then show "map summary_key (st_mailboxThreads (handleExpunge (\<lambda>n. JStr (show_nat n)) 5 ''i'' ''INBOX'' 7 sample_idle)) = [(''t'', ''b1'')]"
    using expunged_thread_stays [OF sample_idle_rows(1,2), of "\<lambda>n. JStr (show_nat n)" 5] by simp
  show "st_messages (handleExpunge (\<lambda>n. JStr (show_nat n)) 5 ''i'' ''INBOX'' 7 sample_idle) = []" by code_simp
qed

end
