(* ===== verification/WebActions.thy ===== *)
theory WebActions
  imports MailJobs ThreadRollup Comparators
begin

text \<open>
  What a user does to mail in the web client: the server actions of \<open>apps/web/lib/actions/mailbox.ts\<close> that
  change marks, queue moves and deletions, and list the threads of a mailbox, and the snooze tick of the
  worker (\<open>apps/worker/server/plugins/common-worker.ts\<close>).

  \<open>accepts\<close> says which jobs the queue takes. \<open>settledWithLogging\<close> logs the refused ones and goes on; an
  \<open>add\<close> that is awaited alone throws. \<open>string | string[]\<close> of thread ids is the list of its values; the cache
  of rendered pages is no part of the model. The statements run under row-level security: the mailbox and
  the rows they name are those of the user, so the store of the model is the part the user sees. The queue of
  the index and that of the worker are two; only the order within each of them is that of the code.
\<close>

subsection \<open>Marks\<close>

definition settledWithLogging :: "(job \<Rightarrow> bool) \<Rightarrow> job list \<Rightarrow> store \<Rightarrow> store" where
  "settledWithLogging accepts js st = st\<lparr>st_jobs := st_jobs st @ filter accepts js\<rparr>"

definition clean_ids :: "string list \<Rightarrow> string list" where
  "clean_ids threadIds = filter (\<lambda>t. t \<noteq> []) threadIds"

text \<open>\<open>thread_id IN (ids) AND mailbox_id = b\<close>.\<close>

definition update_threads_messages :: "string list \<Rightarrow> string \<Rightarrow> (message_row \<Rightarrow> message_row) \<Rightarrow> store \<Rightarrow> store" where
  "update_threads_messages ids b f st =
     st\<lparr>st_messages := update_where (\<lambda>m. row_threadId m \<in> set ids \<and> row_mailboxId m = b) f (st_messages st)\<rparr>"

definition update_threads_summaries :: "string list \<Rightarrow> string \<Rightarrow> (mailbox_thread_row \<Rightarrow> mailbox_thread_row) \<Rightarrow> store \<Rightarrow> store" where
  "update_threads_summaries ids b g st =
     st\<lparr>st_mailboxThreads := update_where (\<lambda>r. mt_threadId r \<in> set ids \<and> mt_mailboxId r = b) g (st_mailboxThreads st)\<rparr>"

definition flag_jobs :: "(job \<Rightarrow> bool) \<Rightarrow> string list \<Rightarrow> string \<Rightarrow> string \<Rightarrow> store \<Rightarrow> store" where
  "flag_jobs accepts ids b op st =
     settledWithLogging accepts (map JobRefreshThread ids) (settledWithLogging accepts (map (\<lambda>t. JobSetFlags t b op) ids) st)"

definition web_markAsRead :: "date \<Rightarrow> (job \<Rightarrow> bool) \<Rightarrow> string list \<Rightarrow> string \<Rightarrow> bool \<Rightarrow> store \<Rightarrow> store" where
  "web_markAsRead now accepts threadIds mailboxId markSmtp st =
     (let ids = clean_ids threadIds
      in if ids = [] \<or> mailboxId = [] then st
         else let st1 = update_threads_messages ids mailboxId (\<lambda>m. m\<lparr>row_seen := True, row_updatedAt := now\<rparr>) st;
                  st2 = update_threads_summaries ids mailboxId (\<lambda>r. r\<lparr>mt_unreadCount := 0, mt_updatedAt := now\<rparr>) st1
              in if markSmtp then flag_jobs accepts ids mailboxId ''read'' st2 else st2)"

text \<open>The counts of the unread messages by thread: a thread without any has no entry.\<close>

definition unread_count_of :: "string \<Rightarrow> string \<Rightarrow> store \<Rightarrow> nat option" where
  "unread_count_of t b st = (let n = unread_of (scope_messages st t b) in if n = 0 then None else Some n)"

definition web_markAsUnread :: "date \<Rightarrow> (job \<Rightarrow> bool) \<Rightarrow> string list \<Rightarrow> string \<Rightarrow> bool \<Rightarrow> store \<Rightarrow> store" where
  "web_markAsUnread now accepts threadIds mailboxId markSmtp st =
     (let ids = clean_ids threadIds
      in if ids = [] \<or> mailboxId = [] then st
         else let st1 = update_threads_messages ids mailboxId (\<lambda>m. m\<lparr>row_seen := False, row_updatedAt := now\<rparr>) st;
                  st2 = foldl (\<lambda>s t. update_summary t mailboxId
                          (\<lambda>r. r\<lparr>mt_unreadCount := nullish (unread_count_of t mailboxId st1) 1, mt_updatedAt := now\<rparr>) s) st1 ids
              in if markSmtp then flag_jobs accepts ids mailboxId ''unread'' st2 else st2)"

text \<open>The star; the flag says whether the action threw.\<close>

definition add_refresh :: "(job \<Rightarrow> bool) \<Rightarrow> string \<Rightarrow> store \<Rightarrow> store \<times> bool" where
  "add_refresh accepts t st = (if accepts (JobRefreshThread t) then (add_job (JobRefreshThread t) st, False) else (st, True))"

definition web_toggleStar :: "date \<Rightarrow> (job \<Rightarrow> bool) \<Rightarrow> string \<Rightarrow> string \<Rightarrow> bool \<Rightarrow> bool \<Rightarrow> store \<Rightarrow> store \<times> bool" where
  "web_toggleStar now accepts threadId mailboxId starred starImap st =
     (if threadId = [] \<or> mailboxId = [] then (st, False)
      else let op = (if starred then ''unflag'' else ''flag''); j = JobSetFlags threadId mailboxId op
           in if starImap
              then (if accepts j then add_refresh accepts threadId (add_job j st) else (st, True))
              else add_refresh accepts threadId
                     (refresh_summary now threadId mailboxId
                       (update_messages threadId mailboxId
                         (\<lambda>m. let m1 = m\<lparr>row_updatedAt := now\<rparr>; m2 = (if op = ''flag'' then m1\<lparr>row_flagged := True\<rparr> else m1)
                              in if op = ''unflag'' then m2\<lparr>row_flagged := False\<rparr> else m2) st)))"

subsection \<open>Moves and deletions\<close>

definition web_moveToTrash :: "(job \<Rightarrow> bool) \<Rightarrow> string list \<Rightarrow> string \<Rightarrow> bool \<Rightarrow> string option \<Rightarrow> store \<Rightarrow> store" where
  "web_moveToTrash accepts threadIds mailboxId moveImap messageId st =
     (let ids = clean_ids threadIds
      in if ids = [] \<or> mailboxId = [] then st
         else settledWithLogging accepts (map JobRefreshThread ids)
                (settledWithLogging accepts (map (\<lambda>t. JobMove t mailboxId ''trash'' None messageId moveImap) ids) st))"

definition web_moveToFolder :: "(job \<Rightarrow> bool) \<Rightarrow> string list \<Rightarrow> string \<Rightarrow> string \<Rightarrow> bool \<Rightarrow> string option \<Rightarrow> store \<Rightarrow> store" where
  "web_moveToFolder accepts threadIds fromMailboxId toMailboxId moveImap messageId st =
     (let ids = clean_ids threadIds
      in if ids = [] \<or> fromMailboxId = [] \<or> toMailboxId = [] \<or> fromMailboxId = toMailboxId then st
         else settledWithLogging accepts (map JobRefreshThread ids)
                (settledWithLogging accepts (map (\<lambda>t. JobMove t fromMailboxId ''move'' (Some toMailboxId) messageId moveImap) ids) st))"

definition web_deleteForever :: "(job \<Rightarrow> bool) \<Rightarrow> string list \<Rightarrow> string \<Rightarrow> bool \<Rightarrow> bool \<Rightarrow> store \<Rightarrow> store \<times> bool" where
  "web_deleteForever accepts threadIds mailboxId imapDelete emptyAll st =
     (if emptyAll
      then (let j = JobDelete mailboxId None True imapDelete in if accepts j then (add_job j st, False) else (st, True))
      else let ids = clean_ids threadIds
           in if ids = [] \<or> mailboxId = [] then (st, False)
              else (foldl (\<lambda>s t. let j = JobDelete mailboxId (Some t) False imapDelete
                      in if accepts j then fst (add_refresh accepts t (add_job j s)) else s) st ids, False))"

subsection \<open>Listing\<close>

definition PAGE_SIZE :: nat where "PAGE_SIZE = 50"

text \<open>Ids are compared by their code units, as the database compares the bytes of a uuid.\<close>

fun str_less :: "string \<Rightarrow> string \<Rightarrow> bool" where
  "str_less xs [] = False"
| "str_less [] (y # ys) = True"
| "str_less (x # xs) (y # ys) = (if x = y then str_less xs ys else (of_char x :: nat) < of_char y)"

definition effective_activity :: "mailbox_thread_row \<Rightarrow> date" where
  "effective_activity r = nullish (mt_unsnoozedAt r) (mt_lastActivityAt r)"

definition listing_order :: "mailbox_thread_row \<Rightarrow> mailbox_thread_row \<Rightarrow> int" where
  "listing_order a b =
     (if effective_activity a \<noteq> effective_activity b then effective_activity b - effective_activity a
      else if mt_lastActivityAt a \<noteq> mt_lastActivityAt b then mt_lastActivityAt b - mt_lastActivityAt a
      else if mt_threadId a = mt_threadId b then 0 else if str_less (mt_threadId b) (mt_threadId a) then -1 else 1)"

definition visible_at :: "date \<Rightarrow> mailbox_thread_row \<Rightarrow> bool" where
  "visible_at now r \<longleftrightarrow> (case mt_snoozedUntil r of None \<Rightarrow> True | Some u \<Rightarrow> u \<le> now)"

definition fetchMailboxThreads :: "date \<Rightarrow> string \<Rightarrow> string \<Rightarrow> int \<Rightarrow> store \<Rightarrow> mailbox_thread_row list" where
  "fetchMailboxThreads now identityPublicId mailboxSlug page st =
     (let p = (if page > 0 then page else 1);
          rows = js_sort listing_order (filter (\<lambda>r. mt_identityPublicId r = identityPublicId \<and> mt_mailboxSlug r = Some mailboxSlug
            \<and> visible_at now r) (st_mailboxThreads st))
      in take PAGE_SIZE (drop (nat (p - 1) * PAGE_SIZE) rows))"

definition fetchIdentitySnoozedThreads :: "date \<Rightarrow> string \<Rightarrow> store \<Rightarrow> mailbox_thread_row list" where
  "fetchIdentitySnoozedThreads now identityPublicId st =
     js_sort (\<lambda>a b. if mt_snoozedUntil a \<noteq> mt_snoozedUntil b
         then nullish (mt_snoozedUntil b) 0 - nullish (mt_snoozedUntil a) 0 else mt_lastActivityAt b - mt_lastActivityAt a)
       (filter (\<lambda>r. case mt_snoozedUntil r of None \<Rightarrow> False | Some u \<Rightarrow> u > now) (st_mailboxThreads st))"

text \<open>The rank of an id is its last place in the list; the map keeps the last entry of a key.\<close>

fun rank_from :: "int \<Rightarrow> string list \<Rightarrow> string \<Rightarrow> int option" where
  "rank_from i [] k = None"
| "rank_from i (x # xs) k = (case rank_from (i + 1) xs k of Some j \<Rightarrow> Some j | None \<Rightarrow> if x = k then Some i else None)"

definition MAX_SAFE_INTEGER :: int where "MAX_SAFE_INTEGER = 9007199254740991"

definition rank_order :: "string list \<Rightarrow> mailbox_thread_row \<Rightarrow> mailbox_thread_row \<Rightarrow> int" where
  "rank_order ids a b =
     nullish (rank_from 0 ids (mt_threadId a)) MAX_SAFE_INTEGER - nullish (rank_from 0 ids (mt_threadId b)) MAX_SAFE_INTEGER"

definition fetchMailboxThreadsList :: "string \<Rightarrow> string list \<Rightarrow> store \<Rightarrow> mailbox_thread_row list \<times> string list" where
  "fetchMailboxThreadsList mailboxId threadIds st =
     (if threadIds = [] then ([], [])
      else let rows = js_sort (rank_order threadIds)
                 (filter (\<lambda>r. mt_mailboxId r = mailboxId \<and> mt_threadId r \<in> set threadIds) (st_mailboxThreads st))
           in (rows, filter (\<lambda>i. i \<notin> mt_threadId ` set rows) threadIds))"

subsection \<open>Snoozing\<close>

definition snoozeThread :: "date \<Rightarrow> string \<Rightarrow> string \<Rightarrow> date option \<Rightarrow> store \<Rightarrow> store" where
  "snoozeThread now threadId mailboxId snoozedUntil st =
     update_summary threadId mailboxId
       (\<lambda>r. r\<lparr>mt_snoozedUntil := snoozedUntil,
              mt_unsnoozedAt := (case snoozedUntil of None \<Rightarrow> Some now | Some _ \<Rightarrow> None), mt_updatedAt := now\<rparr>) st"

definition snooze_tick :: "date \<Rightarrow> store \<Rightarrow> store" where
  "snooze_tick now st =
     st\<lparr>st_mailboxThreads := update_where
         (\<lambda>r. (case mt_snoozedUntil r of None \<Rightarrow> False | Some u \<Rightarrow> u \<le> now) \<and> mt_unsnoozedAt r = None)
         (\<lambda>r. r\<lparr>mt_snoozedUntil := None, mt_unsnoozedAt := Some now, mt_updatedAt := now\<rparr>) (st_mailboxThreads st)\<rparr>"

subsection \<open>Lemmas: the orders\<close>

lemma str_less_irrefl [simp]: "\<not> str_less x x"
  by (induction x) auto

lemma str_less_total: "x \<noteq> y \<Longrightarrow> str_less x y \<or> str_less y x"
proof (induction x y rule: str_less.induct)
  case (3 x xs y ys)
  then show ?case by (cases "x = y") (auto simp: of_char_eq_iff [where 'a = nat, symmetric] simp del: of_char_eq_iff)
next
  case (1 xs)
  then show ?case by (cases xs) auto
qed simp

lemma str_less_trans: "str_less x y \<Longrightarrow> str_less y z \<Longrightarrow> str_less x z"
proof (induction x y arbitrary: z rule: str_less.induct)
  case (2 y ys)
  then show ?case by (cases z) auto
next
  case (3 x xs y ys)
  then show ?case by (cases z) (auto split: if_splits)
qed simp

interpretation listing: js_comparator listing_order
proof
  fix a b c :: mailbox_thread_row
  have asym: "\<not> (str_less x y \<and> str_less y x)" for x y using str_less_trans str_less_irrefl by blast
  show "listing_order a b < 0 \<longleftrightarrow> 0 < listing_order b a"
    using str_less_total [of "mt_threadId a" "mt_threadId b"] asym [of "mt_threadId a" "mt_threadId b"]
    by (auto simp: listing_order_def)
  have eq: "listing_order x y \<le> 0 \<longleftrightarrow> effective_activity y < effective_activity x \<or> effective_activity x = effective_activity y \<and>
      (mt_lastActivityAt y < mt_lastActivityAt x \<or> mt_lastActivityAt x = mt_lastActivityAt y \<and>
        (mt_threadId x = mt_threadId y \<or> str_less (mt_threadId y) (mt_threadId x)))" for x y
    by (auto simp: listing_order_def)
  show "listing_order a b \<le> 0 \<Longrightarrow> listing_order b c \<le> 0 \<Longrightarrow> listing_order a c \<le> 0"
    unfolding eq using str_less_trans by force
qed

interpretation ranks: key_comparator "\<lambda>r. nullish (rank_from 0 ids (mt_threadId r)) MAX_SAFE_INTEGER" "rank_order ids" for ids
  by unfold_locales (simp add: rank_order_def)

lemma rank_from_None [simp]: "rank_from i xs k = None \<longleftrightarrow> k \<notin> set xs"
proof (induction xs arbitrary: i)
  case (Cons x xs)
  show ?case using Cons.IH [of "i + 1"] by (cases "rank_from (i + 1) xs k") auto
qed simp

lemma rank_from_notin [simp]: "k \<notin> set xs \<Longrightarrow> rank_from i xs k = None"
  by simp

lemma rank_from_nth: "distinct xs \<Longrightarrow> n < length xs \<Longrightarrow> rank_from i xs (xs ! n) = Some (i + int n)"
proof (induction xs arbitrary: i n)
  case (Cons x xs)
  then show ?case by (cases n) (auto simp del: rank_from_None)
qed simp

lemma rank_inj:
  assumes "distinct ids" "i \<in> set ids" "j \<in> set ids" "rank_from 0 ids i = rank_from 0 ids j"
  shows "i = j"
proof -
  obtain n m where "n < length ids" "i = ids ! n" "m < length ids" "j = ids ! m" using assms(2,3) by (auto simp: in_set_conv_nth)
  then show ?thesis using assms(1,4) rank_from_nth [OF assms(1), of n 0] rank_from_nth [OF assms(1), of m 0] by simp
qed

text \<open>A list sorted by rank without repetitions is the part of the ids that it contains.\<close>

lemma sorted_by_rank:
  assumes d: "distinct ids" and xs: "distinct xs" "set xs \<subseteq> set ids" "sorted (map (\<lambda>x. the (rank_from 0 ids x)) xs)"
  shows "xs = filter (\<lambda>i. i \<in> set xs) ids"
proof -
  let ?k = "\<lambda>x. the (rank_from 0 ids x)" and ?ys = "filter (\<lambda>i. i \<in> set xs) ids"
  have inj: "inj_on ?k (set ids)"
  proof (rule inj_onI)
    fix i j assume ij: "i \<in> set ids" "j \<in> set ids" "?k i = ?k j"
    obtain a b where "rank_from 0 ids i = Some a" "rank_from 0 ids j = Some b" using ij(1,2) by fastforce
    then show "i = j" using rank_inj [OF d ij(1,2)] ij(3) by simp
  qed
  have "map ?k ids = map int [0..<length ids]" by (rule nth_equalityI) (simp_all add: rank_from_nth [OF d])
  then have "sorted (map ?k ids)" by (simp add: sorted_map sorted_wrt_iff_nth_less)
  then have ys: "sorted (map ?k ?ys)" by (rule sorted_filter)
  have "set xs = set ?ys" using xs(2) by auto
  moreover have "distinct ?ys" using d by simp
  ultimately have "mset xs = mset ?ys" using xs(1) set_eq_iff_mset_eq_distinct by blast
  then have "mset (map ?k xs) = mset (map ?k ?ys)" by (simp add: mset_map)
  then have "sort (map ?k ?ys) = map ?k xs" using xs(3) by (rule properties_for_sort)
  then have eq: "map ?k xs = map ?k ?ys" using sorted_sort_id [OF ys] by simp
  have "set xs \<union> set ?ys \<subseteq> set ids" using xs(2) by auto
  then have "inj_on ?k (set xs \<union> set ?ys)" by (rule inj_on_subset [OF inj])
  then show ?thesis by (rule map_inj_on [OF eq])
qed

subsection \<open>Lemmas: marks on several threads\<close>

lemma many_scopes:
  assumes "\<And>m. row_threadId (f m) = row_threadId m \<and> row_mailboxId (f m) = row_mailboxId m"
  shows "scope_messages (update_threads_messages ids b f st) t' b'
    = (if t' \<in> set ids \<and> b' = b then map f (scope_messages st t' b') else scope_messages st t' b')"
proof -
  have "filter (in_scope t' b') (update_where (\<lambda>m. row_threadId m \<in> set ids \<and> row_mailboxId m = b) f ms)
    = (if t' \<in> set ids \<and> b' = b then map f (filter (in_scope t' b') ms) else filter (in_scope t' b') ms)" for ms
    using assms by (induction ms) (auto simp: update_where_def in_scope_def)
  then show ?thesis by (simp add: scope_messages_def update_threads_messages_def)
qed

lemma update_threads_restores:
  assumes inv: "store_inv st"
    and f: "\<And>m. row_threadId (f m) = row_threadId m \<and> row_mailboxId (f m) = row_mailboxId m \<and> row_id (f m) = row_id m"
    and g: "\<And>r. summary_key (g r) = summary_key r"
    and fig: "\<And>r. r \<in> set (st_mailboxThreads st) \<Longrightarrow> mt_threadId r \<in> set ids \<Longrightarrow> mt_mailboxId r = b \<Longrightarrow> exact_row st r \<Longrightarrow>
      mt_unreadCount (g r) = unread_of (map f (scope_messages st (mt_threadId r) b))
      \<and> mt_starred (g r) = any_flagged (map f (scope_messages st (mt_threadId r) b))"
  shows "store_inv (update_threads_summaries ids b g (update_threads_messages ids b f st))" (is "store_inv ?s")
proof -
  have sc: "scope_messages ?s = scope_messages (update_threads_messages ids b f st)"
    by (rule scope_messages_cong) (simp add: update_threads_summaries_def)
  have ex: "exact_row ?s (if mt_threadId r \<in> set ids \<and> mt_mailboxId r = b then g r else r)" if "r \<in> set (st_mailboxThreads st)" for r
  proof -
    have r: "exact_row st r" using inv that by (simp add: store_inv_def summaries_exact_def list_all_iff)
    have k: "mt_threadId (g r) = mt_threadId r" "mt_mailboxId (g r) = mt_mailboxId r" using g [of r] by (simp_all add: summary_key_def)
    show ?thesis using r fig [OF that _ _ r] by (auto simp: exact_row_def sc many_scopes f k)
  qed
  have "map row_id (st_messages ?s) = map row_id (st_messages st)"
    unfolding update_threads_summaries_def update_threads_messages_def using f by (simp add: map_update_where)
  moreover have rows: "st_mailboxThreads ?s = update_where (\<lambda>r. mt_threadId r \<in> set ids \<and> mt_mailboxId r = b) g (st_mailboxThreads st)"
    by (simp add: update_threads_summaries_def update_threads_messages_def)
  moreover have "map summary_key (st_mailboxThreads ?s) = map summary_key (st_mailboxThreads st)"
    unfolding rows by (rule map_update_where) (rule g)
  moreover have "list_all (exact_row ?s) (st_mailboxThreads ?s)"
    unfolding rows update_where_def list_all_iff set_map ball_simps(9) using ex by blast
  ultimately show ?thesis using inv by (simp add: store_inv_def summaries_exact_def)
qed

lemma jobs_inv [simp]: "store_inv (settledWithLogging accepts js st) = store_inv st" "store_inv (flag_jobs accepts ids b op st) = store_inv st"
  using store_inv_cong [of "settledWithLogging accepts js st" st] store_inv_cong [of "flag_jobs accepts ids b op st" st]
  by (simp_all add: settledWithLogging_def flag_jobs_def)

lemma jobs_sel [simp]:
  "st_messages (settledWithLogging accepts js st) = st_messages st" "st_mailboxThreads (settledWithLogging accepts js st) = st_mailboxThreads st"
  "st_messages (flag_jobs accepts ids b op st) = st_messages st" "st_mailboxThreads (flag_jobs accepts ids b op st) = st_mailboxThreads st"
  by (simp_all add: settledWithLogging_def flag_jobs_def)

text \<open>The loop over the ids is one update of their summaries.\<close>

lemma foldl_summaries:
  assumes g: "\<And>t r. summary_key (g t r) = summary_key r" "\<And>t r. g t (g t r) = g t r"
  shows "foldl (\<lambda>s t. update_summary t b (g t) s) st ids = update_threads_summaries ids b (\<lambda>r. g (mt_threadId r) r) st"
proof (induction ids rule: rev_induct)
  case Nil
  show ?case by (simp add: update_threads_summaries_def update_where_def)
next
  case (snoc t ids)
  have k: "mt_threadId (g u r) = mt_threadId r" "mt_mailboxId (g u r) = mt_mailboxId r" for u r using g(1) [of u r] by (simp_all add: summary_key_def)
  have "foldl (\<lambda>s t. update_summary t b (g t) s) st (ids @ [t])
      = update_summary t b (g t) (update_threads_summaries ids b (\<lambda>r. g (mt_threadId r) r) st)" by (simp only: foldl_append foldl.simps snoc)
  also have "\<dots> = update_threads_summaries (ids @ [t]) b (\<lambda>r. g (mt_threadId r) r) st"
  proof -
    have "(\<lambda>x. if is_summary t b x then g t x else x) \<circ> (\<lambda>x. if mt_threadId x \<in> set ids \<and> mt_mailboxId x = b then g (mt_threadId x) x else x)
        = (\<lambda>x. if mt_threadId x \<in> set (ids @ [t]) \<and> mt_mailboxId x = b then g (mt_threadId x) x else x)"
      by (auto simp: fun_eq_iff is_summary_def k g(2))
    then show ?thesis by (simp add: update_threads_summaries_def update_summary_def update_where_def)
  qed
  finally show ?case .
qed

subsection \<open>Lemmas: the actions keep the summaries exact\<close>

lemma read_marks_inv:
  "store_inv st \<Longrightarrow> store_inv (update_threads_summaries ids b (\<lambda>r. r\<lparr>mt_unreadCount := 0, mt_updatedAt := now\<rparr>)
    (update_threads_messages ids b (\<lambda>m. m\<lparr>row_seen := True, row_updatedAt := now\<rparr>) st))"
  by (erule update_threads_restores)
     (simp_all add: summary_key_def unread_of_def any_flagged_def list.pred_map comp_def exact_row_def list_ex_iff)

lemma web_markAsRead_inv: "store_inv st \<Longrightarrow> store_inv (web_markAsRead now accepts ts b markSmtp st)"
  using read_marks_inv [of st "clean_ids ts" b now] by (simp add: web_markAsRead_def Let_def)

text \<open>After the messages are marked as unread, the count of a thread is the number of its messages.\<close>

lemma unread_marks_count:
  assumes "t \<in> set ids" "scope_messages st t b \<noteq> []"
  shows "nullish (unread_count_of t b (update_threads_messages ids b (\<lambda>m. m\<lparr>row_seen := False, row_updatedAt := now\<rparr>) st)) 1
    = length (scope_messages st t b)"
proof -
  have "unread_of (map (\<lambda>m. m\<lparr>row_seen := False, row_updatedAt := now\<rparr>) ms) = length ms" for ms
    by (simp add: unread_of_def filter_map comp_def)
  then show ?thesis using assms by (simp add: unread_count_of_def many_scopes Let_def)
qed

lemma web_markAsUnread_run:
  assumes "clean_ids ts \<noteq> []" "b \<noteq> []"
    "st1 = update_threads_messages (clean_ids ts) b (\<lambda>m. m\<lparr>row_seen := False, row_updatedAt := now\<rparr>) st"
    "st2 = update_threads_summaries (clean_ids ts) b
      (\<lambda>r. r\<lparr>mt_unreadCount := nullish (unread_count_of (mt_threadId r) b st1) 1, mt_updatedAt := now\<rparr>) st1"
  shows "web_markAsUnread now accepts ts b markSmtp st = (if markSmtp then flag_jobs accepts (clean_ids ts) b ''unread'' st2 else st2)"
proof -
  let ?g = "\<lambda>t r. r\<lparr>mt_unreadCount := nullish (unread_count_of t b st1) 1, mt_updatedAt := now\<rparr>"
  have "foldl (\<lambda>s t. update_summary t b (?g t) s) st1 (clean_ids ts) = st2"
    unfolding assms(4) by (rule foldl_summaries) (simp_all add: summary_key_def)
  then show ?thesis using assms(1,2) by (simp add: web_markAsUnread_def Let_def assms(3) [symmetric])
qed

lemma unread_marks_inv:
  assumes "store_inv st" "\<And>r. r \<in> set (st_mailboxThreads st) \<Longrightarrow> mt_threadId r \<in> set ids \<Longrightarrow> mt_mailboxId r = b \<Longrightarrow>
      scope_messages st (mt_threadId r) b \<noteq> []"
    "st1 = update_threads_messages ids b (\<lambda>m. m\<lparr>row_seen := False, row_updatedAt := now\<rparr>) st"
  shows "store_inv (update_threads_summaries ids b
    (\<lambda>r. r\<lparr>mt_unreadCount := nullish (unread_count_of (mt_threadId r) b st1) 1, mt_updatedAt := now\<rparr>) st1)"
  unfolding assms(3)
proof (rule update_threads_restores [OF assms(1)])
  let ?f = "\<lambda>m. m\<lparr>row_seen := False, row_updatedAt := now\<rparr>"
  fix r assume r: "r \<in> set (st_mailboxThreads st)" "mt_threadId r \<in> set ids" "mt_mailboxId r = b" "exact_row st r"
  have "nullish (unread_count_of (mt_threadId r) b (update_threads_messages ids b ?f st)) 1 = length (scope_messages st (mt_threadId r) b)"
    by (rule unread_marks_count [OF r(2) assms(2) [OF r(1-3)]])
  moreover have "unread_of (map ?f ms) = length ms" for ms by (simp add: unread_of_def filter_map comp_def)
  ultimately show "mt_unreadCount (r\<lparr>mt_unreadCount := nullish (unread_count_of (mt_threadId r) b (update_threads_messages ids b ?f st)) 1, mt_updatedAt := now\<rparr>)
      = unread_of (map ?f (scope_messages st (mt_threadId r) b))
    \<and> mt_starred (r\<lparr>mt_unreadCount := nullish (unread_count_of (mt_threadId r) b (update_threads_messages ids b ?f st)) 1, mt_updatedAt := now\<rparr>)
      = any_flagged (map ?f (scope_messages st (mt_threadId r) b))"
    using r(4) r(3) by (simp add: exact_row_def any_flagged_def list_ex_iff)
qed (simp_all add: summary_key_def)

text \<open>The threads of the list that the mailbox lists have a message there.\<close>

definition listed_have_messages :: "string list \<Rightarrow> string \<Rightarrow> store \<Rightarrow> bool" where
  "listed_have_messages ts b st \<longleftrightarrow>
     list_all (\<lambda>t. list_ex (is_summary t b) (st_mailboxThreads st) \<longrightarrow> scope_messages st t b \<noteq> []) ts"

lemma listed_have_messagesD:
  "listed_have_messages ts b st \<Longrightarrow> r \<in> set (st_mailboxThreads st) \<Longrightarrow> mt_threadId r \<in> set (clean_ids ts) \<Longrightarrow> mt_mailboxId r = b \<Longrightarrow>
    scope_messages st (mt_threadId r) b \<noteq> []"
  unfolding listed_have_messages_def clean_ids_def list_all_iff list_ex_iff is_summary_def by auto

lemma web_markAsUnread_inv:
  assumes "store_inv st" "listed_have_messages ts b st"
  shows "store_inv (web_markAsUnread now accepts ts b markSmtp st)"
proof (cases "clean_ids ts = [] \<or> b = []")
  case True
  then show ?thesis using assms(1) by (simp add: web_markAsUnread_def Let_def)
next
  case False
  define st1 where "st1 = update_threads_messages (clean_ids ts) b (\<lambda>m. m\<lparr>row_seen := False, row_updatedAt := now\<rparr>) st"
  define st2 where "st2 = update_threads_summaries (clean_ids ts) b
    (\<lambda>r. r\<lparr>mt_unreadCount := nullish (unread_count_of (mt_threadId r) b st1) 1, mt_updatedAt := now\<rparr>) st1"
  have "store_inv st2" unfolding st2_def
    by (rule unread_marks_inv [OF assms(1) _ st1_def]) (rule listed_have_messagesD [OF assms(2)])
  then show ?thesis using web_markAsUnread_run [OF _ _ st1_def st2_def, of accepts markSmtp] False by simp
qed

lemma web_toggleStar_inv: "store_inv st \<Longrightarrow> store_inv (fst (web_toggleStar now accepts t b starred starImap st))"
proof -
  have "store_inv (fst (add_refresh accepts t s)) = store_inv s" "store_inv (add_job j s) = store_inv s" for s j
    using store_inv_cong [of "fst (add_refresh accepts t s)" s] store_inv_cong [of "add_job j s" s]
    by (simp_all add: add_refresh_def store_simps)
  moreover assume "store_inv st"
  ultimately show ?thesis
    using refresh_restores_inv [of st _ now t b] by (simp add: web_toggleStar_def Let_def)
qed

text \<open>Snoozing changes neither counts nor stars.\<close>

lemma plain_rows_inv:
  assumes "store_inv st" "\<And>r. summary_key (g r) = summary_key r \<and> mt_unreadCount (g r) = mt_unreadCount r \<and> mt_starred (g r) = mt_starred r"
  shows "store_inv (st\<lparr>st_mailboxThreads := update_where P g (st_mailboxThreads st)\<rparr>)" (is "store_inv ?s")
proof -
  have k: "mt_threadId (g r) = mt_threadId r" "mt_mailboxId (g r) = mt_mailboxId r" for r using assms(2) [of r] by (simp_all add: summary_key_def)
  have "exact_row ?s (if P r then g r else r) \<longleftrightarrow> exact_row st r" for r
    using assms(2) [of r] by (simp add: exact_row_iff k)
  then have "list_all (exact_row ?s) (st_mailboxThreads ?s) = list_all (exact_row st) (st_mailboxThreads st)"
    by (simp add: update_where_def list.pred_map comp_def)
  moreover have "map summary_key (st_mailboxThreads ?s) = map summary_key (st_mailboxThreads st)"
    using assms(2) by (simp add: map_update_where)
  ultimately show ?thesis using assms(1) by (simp add: store_inv_def summaries_exact_def)
qed

lemma snooze_inv: "store_inv st \<Longrightarrow> store_inv (snoozeThread now t b u st)" "store_inv st \<Longrightarrow> store_inv (snooze_tick now st)"
  using plain_rows_inv [of st] by (simp_all add: snoozeThread_def update_summary_def snooze_tick_def summary_key_def)

subsection \<open>Properties\<close>

text \<open>
  C30. Marking threads as read sets the seen mark of exactly their messages in the mailbox, keeps every
  summary exact, and with the server to be told it queues one flag job for each thread that the queue
  accepts, in order, then the refreshes of the index.\<close>

theorem web_markAsRead_correct:
  assumes "store_inv st" "clean_ids ts \<noteq> []" "b \<noteq> []"
  shows "let st' = web_markAsRead now accepts ts b markSmtp st
    in store_inv st' \<and> map row_id (st_messages st') = map row_id (st_messages st)
       \<and> (\<forall>m \<in> set (st_messages st'). row_threadId m \<in> set (clean_ids ts) \<and> row_mailboxId m = b \<longrightarrow> row_seen m)
       \<and> (\<forall>m \<in> set (st_messages st). \<not> (row_threadId m \<in> set (clean_ids ts) \<and> row_mailboxId m = b) \<longrightarrow> m \<in> set (st_messages st'))
       \<and> st_jobs st' = st_jobs st @ (if markSmtp then filter accepts (map (\<lambda>t. JobSetFlags t b ''read'') (clean_ids ts))
            @ filter accepts (map JobRefreshThread (clean_ids ts)) else [])"
proof -
  let ?f = "\<lambda>m. m\<lparr>row_seen := True, row_updatedAt := now\<rparr>" and ?g = "\<lambda>r. r\<lparr>mt_unreadCount := 0, mt_updatedAt := now\<rparr>"
  define st2 where "st2 = update_threads_summaries (clean_ids ts) b ?g (update_threads_messages (clean_ids ts) b ?f st)"
  have run: "web_markAsRead now accepts ts b markSmtp st = (if markSmtp then flag_jobs accepts (clean_ids ts) b ''read'' st2 else st2)"
    using assms(2,3) by (simp add: web_markAsRead_def Let_def st2_def)
  have inv: "store_inv st2" unfolding st2_def using assms(1) by (rule read_marks_inv)
  have ms: "st_messages st2 = update_where (\<lambda>m. row_threadId m \<in> set (clean_ids ts) \<and> row_mailboxId m = b) ?f (st_messages st)"
    "st_jobs st2 = st_jobs st"
    by (simp_all add: st2_def update_threads_summaries_def update_threads_messages_def)
  have "m \<in> set (st_messages st2)" if "m \<in> set (st_messages st)" "\<not> (row_threadId m \<in> set (clean_ids ts) \<and> row_mailboxId m = b)" for m
    unfolding ms by (rule in_update_whereI(1)) (use that in simp_all)
  moreover have "\<forall>m \<in> set (st_messages st2). row_threadId m \<in> set (clean_ids ts) \<and> row_mailboxId m = b \<longrightarrow> row_seen m"
    unfolding ms by (auto dest!: in_update_whereD split: if_splits)
  moreover have "map row_id (st_messages st2) = map row_id (st_messages st)" unfolding ms by (rule map_update_where) simp
  ultimately show ?thesis using inv by (simp add: run Let_def ms(2)) (simp add: flag_jobs_def settledWithLogging_def ms(2))
qed

theorem web_markAsRead_correct_witness:
  "let st' = web_markAsRead 5 (\<lambda>_. True) [''t'', []] ''b1'' True (sample_store [sample_row ''1'' ''t'' ''b1'' False] [sample_summary ''t'' ''b1'' 1 1])
   in store_inv st' \<and> map row_seen (st_messages st') = [True] \<and> st_jobs st' = [JobSetFlags ''t'' ''b1'' ''read'', JobRefreshThread ''t'']"
proof -
  let ?st = "sample_store [sample_row ''1'' ''t'' ''b1'' False] [sample_summary ''t'' ''b1'' 1 1]"
  have h: "store_inv ?st" "clean_ids [''t'', []] \<noteq> []" "''b1'' \<noteq> []" by code_simp+
  have e: "map row_seen (st_messages (web_markAsRead 5 (\<lambda>_. True) [''t'', []] ''b1'' True ?st)) = [True]"
    "st_jobs (web_markAsRead 5 (\<lambda>_. True) [''t'', []] ''b1'' True ?st) = [JobSetFlags ''t'' ''b1'' ''read'', JobRefreshThread ''t'']" by code_simp+
  show ?thesis using web_markAsRead_correct [OF h, of 5 "\<lambda>_. True" True] e by (simp add: Let_def)
qed



text \<open>
  A thread that is listed without messages is shown with one unread message after it was marked as
  unread: the missing count falls back to 1, and the summary is not exact any more.\<close>

theorem unread_count_fallback:
  "let st = sample_store [] [sample_summary ''t'' ''b1'' 0 0]; st' = web_markAsUnread 5 (\<lambda>_. True) [''t''] ''b1'' False st
   in store_inv st \<and> \<not> store_inv st' \<and> map mt_unreadCount (st_mailboxThreads st') = [1]"
  by code_simp

text \<open>
  New mail does not raise a thread that was brought back from a snooze: the listing orders it by the time of
  its return, which the upsert of its summary keeps.\<close>

theorem new_mail_keeps_unsnoozed_rank:
  assumes "mt_unsnoozedAt old = Some u"
  shows "effective_activity (merge_summary new old) = u"
  using assms by (simp add: effective_activity_def merge_summary_def)

theorem new_mail_keeps_unsnoozed_rank_witness:
  "effective_activity (merge_summary (sample_summary ''t'' ''b1'' 2 1) ((sample_summary ''t'' ''b1'' 1 0)\<lparr>mt_unsnoozedAt := Some 3\<rparr>)) = 3"
  by (rule new_mail_keeps_unsnoozed_rank) simp

text \<open>
  C32. The pages of a mailbox are the pieces, fifty rows each, of one sorted list: no visible thread is
  missing or shown twice, and the order is by activity over all pages.\<close>

theorem fetchMailboxThreads_pages:
  assumes "length (st_mailboxThreads st) \<le> PAGE_SIZE * n"
  shows "let pages = concat (map (\<lambda>p. fetchMailboxThreads now i slug (int p) st) [1..<Suc n])
    in mset pages = mset (filter (\<lambda>r. mt_identityPublicId r = i \<and> mt_mailboxSlug r = Some slug \<and> visible_at now r) (st_mailboxThreads st))
       \<and> sorted_wrt (\<lambda>x y. listing_order x y \<le> 0) pages \<and> (\<forall>p. length (fetchMailboxThreads now i slug p st) \<le> PAGE_SIZE)"
proof -
  define rows where "rows = js_sort listing_order (filter (\<lambda>r. mt_identityPublicId r = i \<and> mt_mailboxSlug r = Some slug \<and> visible_at now r) (st_mailboxThreads st))"
  have pages: "concat (map (\<lambda>p. fetchMailboxThreads now i slug (int p) st) [1..<Suc k]) = take (PAGE_SIZE * k) rows" for k
  proof (induction k)
    case (Suc k)
    have "fetchMailboxThreads now i slug (int (Suc k)) st = take PAGE_SIZE (drop (PAGE_SIZE * k) rows)"
      by (simp add: fetchMailboxThreads_def rows_def Let_def mult.commute)
    moreover have "[1..<Suc (Suc k)] = [1..<Suc k] @ [Suc k]" by simp
    moreover have "take (PAGE_SIZE * Suc k) rows = take (PAGE_SIZE * k) rows @ take PAGE_SIZE (drop (PAGE_SIZE * k) rows)"
      by (metis add.commute mult_Suc_right take_add)
    ultimately show ?case using Suc by (simp only: map_append concat_append list.map concat.simps append_Nil2)
  qed simp
  have "length rows \<le> PAGE_SIZE * n" using assms length_filter_le [of _ "st_mailboxThreads st"] unfolding rows_def length_js_sort by (rule order.trans [rotated])
  then have "concat (map (\<lambda>p. fetchMailboxThreads now i slug (int p) st) [1..<Suc n]) = rows" using pages [of n] by (simp del: upt_Suc One_nat_def)
  moreover have "length (fetchMailboxThreads now i slug p st) \<le> PAGE_SIZE" for p by (simp add: fetchMailboxThreads_def Let_def)
  ultimately show ?thesis using listing.sorted_js_sort by (simp add: Let_def rows_def mset_js_sort del: upt_Suc)
qed

theorem fetchMailboxThreads_pages_witness:
  "concat (map (\<lambda>p. fetchMailboxThreads 5 ''p'' ''inbox'' (int p)
       (sample_store [] [(sample_summary ''t'' ''b1'' 1 0)\<lparr>mt_mailboxSlug := Some ''inbox''\<rparr>])) [1..<Suc 1])
     = [(sample_summary ''t'' ''b1'' 1 0)\<lparr>mt_mailboxSlug := Some ''inbox''\<rparr>]"
proof -
  let ?r = "(sample_summary ''t'' ''b1'' 1 0)\<lparr>mt_mailboxSlug := Some ''inbox''\<rparr>" and ?st = "sample_store [] [(sample_summary ''t'' ''b1'' 1 0)\<lparr>mt_mailboxSlug := Some ''inbox''\<rparr>]"
  let ?ps = "concat (map (\<lambda>p. fetchMailboxThreads 5 ''p'' ''inbox'' (int p) ?st) [1..<Suc 1])"
  have "length (st_mailboxThreads ?st) \<le> PAGE_SIZE * 1" by (simp add: sample_store_def PAGE_SIZE_def)
  from fetchMailboxThreads_pages [OF this, of 5 "''p''" "''inbox''"]
  have "mset ?ps = mset (filter (\<lambda>r. mt_identityPublicId r = ''p'' \<and> mt_mailboxSlug r = Some ''inbox'' \<and> visible_at 5 r) (st_mailboxThreads ?st))"
    by (simp add: Let_def del: upt_Suc)
  also have "\<dots> = mset [?r]" by (simp add: sample_store_def sample_summary_def visible_at_def)
  finally have "mset ?ps = {#?r#}" by simp
  then show ?thesis by (metis mset_single_iff mset.simps(1) mset.simps(2))
qed

text \<open>
  Looking up threads by a list of distinct ids gives the rows that the mailbox has, in the order of the
  list, and reports the other ids as missing, in order.\<close>

theorem fetchMailboxThreadsList_correct:
  assumes "distinct ids" "distinct (map summary_key (st_mailboxThreads st))" "fetchMailboxThreadsList b ids st = (rows, missing)"
  shows "map mt_threadId rows = filter (\<lambda>i. list_ex (is_summary i b) (st_mailboxThreads st)) ids
     \<and> missing = filter (\<lambda>i. \<not> list_ex (is_summary i b) (st_mailboxThreads st)) ids
     \<and> set rows \<subseteq> set (st_mailboxThreads st)"
proof (cases "ids = []")
  case True
  then show ?thesis using assms(3) by (simp add: fetchMailboxThreadsList_def)
next
  case False
  let ?sel = "filter (\<lambda>r. mt_mailboxId r = b \<and> mt_threadId r \<in> set ids) (st_mailboxThreads st)"
  have rows: "rows = js_sort (rank_order ids) ?sel" "missing = filter (\<lambda>i. i \<notin> mt_threadId ` set rows) ids"
    using assms(3) False by (auto simp: fetchMailboxThreadsList_def Let_def)
  have set: "set rows = set ?sel" by (simp add: rows)
  have "sorted (map (\<lambda>r. nullish (rank_from 0 ids (mt_threadId r)) MAX_SAFE_INTEGER) rows)" unfolding rows by (rule ranks.sorted_keys)
  moreover have "nullish (rank_from 0 ids (mt_threadId r)) MAX_SAFE_INTEGER = the (rank_from 0 ids (mt_threadId r))" if "r \<in> set rows" for r
  proof -
    have "rank_from 0 ids (mt_threadId r) \<noteq> None" using that set by simp
    then show ?thesis by (cases "rank_from 0 ids (mt_threadId r)") simp_all
  qed
  then have "map (\<lambda>r. nullish (rank_from 0 ids (mt_threadId r)) MAX_SAFE_INTEGER) rows = map (\<lambda>x. the (rank_from 0 ids x)) (map mt_threadId rows)"
    by simp
  ultimately have s: "sorted (map (\<lambda>x. the (rank_from 0 ids x)) (map mt_threadId rows))" by metis
  have "distinct (map summary_key ?sel)" using assms(2) by (rule distinct_map_filter)
  then have "inj_on mt_threadId (set rows)" "distinct ?sel"
    unfolding distinct_map set by (auto simp: inj_on_def summary_key_def)
  moreover have "distinct rows = distinct ?sel" unfolding rows(1) by (rule mset_eq_imp_distinct_iff) (rule mset_js_sort)
  ultimately have d: "distinct (map mt_threadId rows)" by (simp only: distinct_map)
  have eq: "map mt_threadId rows = filter (\<lambda>i. i \<in> set (map mt_threadId rows)) ids"
    by (rule sorted_by_rank [OF assms(1) d _ s]) (use set in auto)
  have mem: "i \<in> set (map mt_threadId rows) \<longleftrightarrow> list_ex (is_summary i b) (st_mailboxThreads st)" if "i \<in> set ids" for i
    using that set by (auto simp: list_ex_iff is_summary_def)
  have "filter (\<lambda>i. i \<in> set (map mt_threadId rows)) ids = filter (\<lambda>i. list_ex (is_summary i b) (st_mailboxThreads st)) ids"
    "filter (\<lambda>i. i \<notin> mt_threadId ` set rows) ids = filter (\<lambda>i. \<not> list_ex (is_summary i b) (st_mailboxThreads st)) ids"
    using mem by (auto intro!: filter_cong)
  then show ?thesis using eq rows(2) set by auto
qed

theorem fetchMailboxThreadsList_correct_witness:
  "\<exists>rows. fetchMailboxThreadsList ''b1'' [''x'', ''t''] (sample_store [] [sample_summary ''t'' ''b1'' 1 0]) = (rows, [''x''])
     \<and> map mt_threadId rows = [''t'']"
proof -
  let ?st = "sample_store [] [sample_summary ''t'' ''b1'' 1 0]"
  obtain rows missing where r: "fetchMailboxThreadsList ''b1'' [''x'', ''t''] ?st = (rows, missing)" by fastforce
  have h: "distinct [''x'', ''t'']" "distinct (map summary_key (st_mailboxThreads ?st))" by code_simp+
  have e: "filter (\<lambda>i. list_ex (is_summary i ''b1'') (st_mailboxThreads ?st)) [''x'', ''t''] = [''t'']"
    "filter (\<lambda>i. \<not> list_ex (is_summary i ''b1'') (st_mailboxThreads ?st)) [''x'', ''t''] = [''x'']" by code_simp+
  note c = fetchMailboxThreadsList_correct [OF h r, unfolded e]
  show ?thesis by (intro exI [of _ rows]) (simp only: r c)
qed

text \<open>
  C33. A snoozed thread is on no page before its time; the first tick of the worker at or after that time
  brings it back, as active at the time of the tick, and a tick before it changes nothing about it.\<close>

theorem snoozed_until_tick:
  assumes "distinct (map summary_key (st_mailboxThreads st))" "r \<in> set (st_mailboxThreads st)" "is_summary t b r"
  shows "let st' = snoozeThread now t b (Some u) st
    in (\<forall>later i slug p. later < u \<longrightarrow> \<not> list_ex (is_summary t b) (fetchMailboxThreads later i slug p st'))
       \<and> (\<forall>tick. \<exists>x \<in> set (st_mailboxThreads (snooze_tick tick st')). is_summary t b x
            \<and> (if u \<le> tick then visible_at tick x \<and> effective_activity x = tick else mt_snoozedUntil x = Some u))"
proof -
  define st' where "st' = snoozeThread now t b (Some u) st"
  let ?g = "\<lambda>r. r\<lparr>mt_snoozedUntil := Some u, mt_unsnoozedAt := None, mt_updatedAt := now\<rparr>"
  have rows: "st_mailboxThreads st' = update_where (is_summary t b) ?g (st_mailboxThreads st)"
    by (simp add: st'_def snoozeThread_def store_simps)
  have snoozed: "mt_snoozedUntil x = Some u" if "x \<in> set (st_mailboxThreads st')" "is_summary t b x" for x
  proof -
    from in_update_whereD [OF that(1) [unfolded rows]] obtain y where "x = (if is_summary t b y then ?g y else y)" by blast
    then show ?thesis using that(2) by (cases "is_summary t b y") simp_all
  qed
  have "\<not> list_ex (is_summary t b) (fetchMailboxThreads later i slug p st')" if "later < u" for later i slug p
  proof -
    have "\<not> is_summary t b x" if "x \<in> set (fetchMailboxThreads later i slug p st')" for x
    proof
      have "x \<in> set (st_mailboxThreads st')" "visible_at later x"
        using that by (auto simp: fetchMailboxThreads_def Let_def dest!: in_set_takeD in_set_dropD)
      moreover assume "is_summary t b x"
      ultimately show False using snoozed \<open>later < u\<close> by (auto simp: visible_at_def)
    qed
    then show ?thesis by (simp add: list_ex_iff)
  qed
  moreover have "\<exists>x \<in> set (st_mailboxThreads (snooze_tick tick st')). is_summary t b x
      \<and> (if u \<le> tick then visible_at tick x \<and> effective_activity x = tick else mt_snoozedUntil x = Some u)" for tick
  proof -
    let ?k = "\<lambda>r. r\<lparr>mt_snoozedUntil := None, mt_unsnoozedAt := Some tick, mt_updatedAt := tick\<rparr>"
    have g: "?g r \<in> set (st_mailboxThreads st')" unfolding rows by (rule in_update_whereI(2)) (rule assms)+
    have tick_rows: "st_mailboxThreads (snooze_tick tick st') = update_where
        (\<lambda>r. (case mt_snoozedUntil r of None \<Rightarrow> False | Some u \<Rightarrow> u \<le> tick) \<and> mt_unsnoozedAt r = None) ?k (st_mailboxThreads st')"
      by (simp add: snooze_tick_def)
    show ?thesis
    proof (cases "u \<le> tick")
      case True
      have "?k (?g r) \<in> set (st_mailboxThreads (snooze_tick tick st'))"
        unfolding tick_rows by (rule in_update_whereI(2), rule g) (simp add: True)
      then show ?thesis using assms(3) True
        by (intro bexI [of _ "?k (?g r)"]) (simp_all add: is_summary_def visible_at_def effective_activity_def)
    next
      case False
      have "?g r \<in> set (st_mailboxThreads (snooze_tick tick st'))"
        unfolding tick_rows by (rule in_update_whereI(1), rule g) (simp add: False)
      then show ?thesis using assms(3) False by (intro bexI [of _ "?g r"]) (simp_all add: is_summary_def)
    qed
  qed
  ultimately show ?thesis unfolding st'_def Let_def by blast
qed

theorem snoozed_until_tick_witness:
  "let st' = snoozeThread 5 ''t'' ''b1'' (Some 9) (sample_store [] [sample_summary ''t'' ''b1'' 1 0])
   in \<not> list_ex (is_summary ''t'' ''b1'') (fetchMailboxThreads 7 ''p'' ''inbox'' 1 st')
     \<and> (\<exists>x \<in> set (st_mailboxThreads (snooze_tick 9 st')). is_summary ''t'' ''b1'' x \<and> visible_at 9 x \<and> effective_activity x = 9)"
proof -
  let ?r = "sample_summary ''t'' ''b1'' 1 0"
  have h: "distinct (map summary_key (st_mailboxThreads (sample_store [] [?r])))" "?r \<in> set (st_mailboxThreads (sample_store [] [?r]))"
    "is_summary ''t'' ''b1'' ?r" by (simp_all add: sample_store_def is_summary_def sample_summary_def)
  note c = snoozed_until_tick [OF h, of 5 9, unfolded Let_def]
  have "\<not> list_ex (is_summary ''t'' ''b1'') (fetchMailboxThreads 7 ''p'' ''inbox'' 1 (snoozeThread 5 ''t'' ''b1'' (Some 9) (sample_store [] [?r])))"
    using c by (auto dest: spec [of _ "7 :: int"])
  moreover have "\<exists>x \<in> set (st_mailboxThreads (snooze_tick 9 (snoozeThread 5 ''t'' ''b1'' (Some 9) (sample_store [] [?r])))).
      is_summary ''t'' ''b1'' x \<and> visible_at 9 x \<and> effective_activity x = 9"
    using spec [OF conjunct2 [OF c], of 9] by simp
  ultimately show ?thesis by (simp add: Let_def)
qed

text \<open>
  The list of the snoozed threads of an identity is that of all identities: the identity asked for is
  not part of the query.\<close>

theorem snoozed_threads_of_any_identity:
  "fetchIdentitySnoozedThreads now i st = fetchIdentitySnoozedThreads now i' st"
  by (simp add: fetchIdentitySnoozedThreads_def)

end
