(* ===== verification/MailSystem.thy ===== *)
theory MailSystem
  imports MailJobs RulesProcessor ThreadRollup RealTime WebActions
begin

text \<open>
  The mail system together. Messages arrive, the rules run on them, the rules and the users queue
  jobs, the worker of \<open>apps/worker/server/plugins/smtp-worker.ts\<close> takes a job from the queue and runs its
  handler, the IMAP server reports flags and expunged messages, the users act on threads in the web
  application, and the clock of the common worker ticks; these steps may follow each other in any order,
  and jobs may be taken in any order. \<open>mail_ok\<close> is kept by every step: summaries are exact and every
  message is in the listing of its mailbox.
\<close>

subsection \<open>The worker\<close>

text \<open>
  A job of the worker's queue and the refresh request it leaves for the search index. The queue of the
  index is another one, and its worker changes no table of the store. A failed job leaves the error.
\<close>

fun run_job :: "imap_env \<Rightarrow> date \<Rightarrow> job \<Rightarrow> store \<Rightarrow> store \<times> db_error option" where
  "run_job env now (JobMove t b op to _ moveImap) st =
     (if op = ''move'' \<and> \<not> truthy to then (st, Some (BadJob ''mail:move requires toMailboxId''))
      else case moveMail env now t b op to moveImap st of
             (st', Some e) \<Rightarrow> (st', Some e)
           | (st', None) \<Rightarrow> (add_job (JobRefreshThread t) st', None))"
| "run_job env now (JobSetFlags t b op) st = (add_job (JobRefreshThread t) (mailSetFlags env now t b op st), None)"
| "run_job env now (JobDelete b t emptyAll imapDelete) st =
     (deleteMail env b (case t of None \<Rightarrow> [] | Some x \<Rightarrow> [x]) emptyAll imapDelete st, None)"
| "run_job env now (JobRefreshThread t) st = (st, None)"

inductive mail_step :: "imap_env \<Rightarrow> regex_engine \<Rightarrow> store \<Rightarrow> store \<Rightarrow> bool" for env mk where
  deliver: "owned (st\<lparr>st_messages := st_messages st @ [m]\<rparr>) \<Longrightarrow> row_id m \<notin> row_id ` set (st_messages st) \<Longrightarrow>
    store_message now m st = Inr st' \<Longrightarrow> mail_step env mk st st'"
| rules: "mail_step env mk st (fst (processRules mk now messageId st))"
| work: "st_jobs st = pre @ j # post \<Longrightarrow> mail_step env mk st (fst (run_job env now j (st\<lparr>st_jobs := pre @ post\<rparr>)))"
| move: "mail_step env mk st (fst (moveMail env now t b op to moveImap st))"
| delete: "mail_step env mk st (deleteMail env b ts emptyAll imapDelete st)"
| flags: "mail_step env mk st (on_flags now identityId fetched ev st)"
| expunge: "(\<And>n. int8 n = JNum (JFin 0) \<Longrightarrow> n = 0) \<Longrightarrow> mail_step env mk st (on_expunge int8 now identityId uid path st)"
| mark_read: "mail_step env mk st (web_markAsRead now accepts ts b markSmtp st)"
| mark_unread: "listed_have_messages ts b st \<Longrightarrow> mail_step env mk st (web_markAsUnread now accepts ts b markSmtp st)"
| star: "mail_step env mk st (fst (web_toggleStar now accepts t b starred starImap st))"
| trash: "mail_step env mk st (web_moveToTrash accepts ts b moveImap messageId st)"
| to_folder: "mail_step env mk st (web_moveToFolder accepts ts b to_b moveImap messageId st)"
| forever: "mail_step env mk st (fst (web_deleteForever accepts ts b imapDelete emptyAll st))"
| snooze: "mail_step env mk st (snoozeThread now t b until st)"
| tick: "mail_step env mk st (snooze_tick now st)"

inductive_cases mail_stepE: "mail_step env mk st st'"

inductive reachable :: "imap_env \<Rightarrow> regex_engine \<Rightarrow> store \<Rightarrow> store \<Rightarrow> bool" for env mk st0 where
  start: "reachable env mk st0 st0"
| step: "reachable env mk st0 st \<Longrightarrow> mail_step env mk st st' \<Longrightarrow> reachable env mk st0 st'"

definition mail_ok :: "store \<Rightarrow> bool" where
  "mail_ok st \<longleftrightarrow> store_inv st \<and> covered st"

subsection \<open>Coverage as an inclusion of keys\<close>

definition message_scopes :: "store \<Rightarrow> (string \<times> string) set" where
  "message_scopes st = (\<lambda>m. (row_threadId m, row_mailboxId m)) ` set (st_messages st)"

definition summary_scopes :: "store \<Rightarrow> (string \<times> string) set" where
  "summary_scopes st = summary_key ` set (st_mailboxThreads st)"

lemma list_ex_summary: "list_ex (is_summary t b) rows \<longleftrightarrow> (t, b) \<in> summary_key ` set rows"
  by (induction rows) (auto simp: is_summary_def summary_key_def)

lemma covered_iff: "covered st \<longleftrightarrow> message_scopes st \<subseteq> summary_scopes st"
  by (simp add: covered_def message_scopes_def summary_scopes_def list_all_iff list_ex_summary image_subset_iff)

lemma scope_messages_scopes: "scope_messages st t b = [] \<longleftrightarrow> (t, b) \<notin> message_scopes st"
  by (auto simp: scope_messages_def in_scope_def message_scopes_def filter_empty_conv)

lemma scopes_cong:
  "st_messages st = st_messages st' \<Longrightarrow> message_scopes st = message_scopes st'"
  "st_mailboxThreads st = st_mailboxThreads st' \<Longrightarrow> summary_scopes st = summary_scopes st'"
  by (simp_all add: message_scopes_def summary_scopes_def)

lemma mail_ok_cong:
  "st_messages st = st_messages st' \<Longrightarrow> st_mailboxThreads st = st_mailboxThreads st' \<Longrightarrow> mail_ok st \<longleftrightarrow> mail_ok st'"
  using store_inv_cong [of st st'] by (simp add: mail_ok_def covered_def)

lemma update_messages_scopes:
  assumes "\<And>m. in_scope t b m \<Longrightarrow> row_threadId (f m) = t \<and> row_mailboxId (f m) = d"
  shows "message_scopes (update_messages t b f st) = (\<lambda>k. if k = (t, b) then (t, d) else k) ` message_scopes st"
proof -
  have "(row_threadId x, row_mailboxId x) = (\<lambda>k. if k = (t, b) then (t, d) else k) (row_threadId m, row_mailboxId m)"
    if "x = (if in_scope t b m then f m else m)" for x m
    using that assms [of m] by (auto simp: in_scope_def)
  then show ?thesis unfolding message_scopes_def store_simps update_where_def set_map image_image
    by (intro image_cong refl) blast
qed

lemma update_summary_scopes:
  assumes "\<And>r. is_summary t b r \<Longrightarrow> summary_key (g r) = (t, d)"
  shows "summary_scopes (update_summary t b g st) = (\<lambda>k. if k = (t, b) then (t, d) else k) ` summary_scopes st"
proof -
  have "summary_key (if is_summary t b r then g r else r) = (\<lambda>k. if k = (t, b) then (t, d) else k) (summary_key r)" for r
    using assms [of r] by (auto simp: is_summary_def summary_key_def)
  then show ?thesis unfolding summary_scopes_def store_simps update_where_def set_map image_image
    by (intro image_cong refl) blast
qed

lemma identity_carry: "(\<lambda>k. if k = (t, b) then (t, b) else k) = (\<lambda>k. k)"
  by auto

lemma refresh_update_covered:
  assumes "covered st" "\<And>m. in_scope t b m \<Longrightarrow> in_scope t b (f m)" "\<And>r. summary_key (g r) = summary_key r"
  shows "covered (update_summary t b g (update_messages t b f st))"
proof -
  have "message_scopes (update_messages t b f st) = message_scopes st"
    using assms(2) by (subst update_messages_scopes [where d = b]) (auto simp: in_scope_def identity_carry)
  moreover have "summary_scopes (update_summary t b g st') = summary_scopes st'" for st'
    using assms(3) by (subst update_summary_scopes [where d = b]) (auto simp: identity_carry is_summary_def summary_key_def)
  moreover have "message_scopes (update_summary t b g st') = message_scopes st'"
    "summary_scopes (update_messages t b f st) = summary_scopes st" for st'
    by (simp_all add: message_scopes_def summary_scopes_def store_simps)
  ultimately show ?thesis using assms(1) by (simp add: covered_iff)
qed

subsection \<open>Every handler keeps \<open>mail_ok\<close>\<close>

lemma same_tables_mail_ok: "same_tables s st \<Longrightarrow> mail_ok s \<longleftrightarrow> mail_ok st"
  by (rule mail_ok_cong) (auto simp: same_tables_def)

lemma mailSetFlags_ok: "mail_ok st \<Longrightarrow> mail_ok (mailSetFlags env now t b op st)"
proof (cases rule: mailSetFlags_cases [of env now t b op st])
  case (run sent)
  assume "mail_ok st"
  then have sent: "mail_ok sent" using same_tables_mail_ok [OF run(1)] by simp
  have "covered (refresh_summary now t b (update_messages t b (apply_op op now) sent))"
    unfolding refresh_summary_def Let_def using sent
    by (intro refresh_update_covered) (simp_all add: mail_ok_def in_scope_def summary_key_def)
  moreover have "store_inv (refresh_summary now t b (update_messages t b (apply_op op now) sent))"
    using sent by (intro refresh_restores_inv) (simp_all add: mail_ok_def)
  ultimately show ?thesis unfolding run(2) mail_ok_def by simp
qed simp

lemma moved_covered: "covered st \<Longrightarrow> covered (moved dest i p op now t b st)"
proof -
  let ?c = "\<lambda>k. if k = (t, b) then (t, mx_id dest) else k"
  assume "covered st"
  moreover have "message_scopes (update_messages t b (move_row dest i p now) st) = ?c ` message_scopes st"
    by (rule update_messages_scopes) (simp add: in_scope_def)
  then have "message_scopes (moved dest i p op now t b st) = ?c ` message_scopes st"
    by (simp add: moved_def message_scopes_def store_simps)
  moreover have "summary_scopes (moved dest i p op now t b st) = ?c ` summary_scopes st"
    unfolding moved_def by (subst update_summary_scopes [where d = "mx_id dest"])
      (simp_all add: is_summary_def summary_key_def move_summary_def summary_scopes_def store_simps)
  ultimately show ?thesis by (simp only: covered_iff image_mono)
qed

lemma moved_same_inv:
  assumes "store_inv st" "mx_id dest = b"
  shows "store_inv (moved dest i p op now t b st)"
proof -
  have "summaries_exact (moved dest i p op now t b st)" unfolding moved_def
    using assms by (intro update_restores)
      (auto simp: store_inv_def in_scope_def is_summary_def summary_key_def move_summary_def exact_row_def unread_of_def
        any_flagged_def filter_map o_def list_ex_iff)
  moreover have "map row_id (st_messages (moved dest i p op now t b st)) = map row_id (st_messages st)"
    unfolding moved_def store_simps by (rule map_update_where) simp
  ultimately show ?thesis using assms(1) by (simp add: store_inv_def)
qed

text \<open>
  A thread that is already in the destination has a summary there, so moving the summary of the source
  would break the unique index, and the transaction is rolled back.
\<close>

lemma moved_conflict:
  assumes "(t, b) \<in> summary_scopes st" "(t, mx_id dest) \<in> summary_scopes st" "mx_id dest \<noteq> b"
  shows "\<not> distinct (map summary_key (st_mailboxThreads (moved dest i p op now t b st)))"
proof
  let ?h = "\<lambda>r. if is_summary t b r then move_summary dest op now r else r"
  assume "distinct (map summary_key (st_mailboxThreads (moved dest i p op now t b st)))"
  then have d: "distinct (map (\<lambda>r. summary_key (?h r)) (st_mailboxThreads st))"
    by (simp add: moved_def store_simps update_where_def comp_def)
  obtain r q where rq: "r \<in> set (st_mailboxThreads st)" "summary_key r = (t, b)" "q \<in> set (st_mailboxThreads st)"
    "summary_key q = (t, mx_id dest)" using assms(1,2) by (auto simp: summary_scopes_def)
  then have "summary_key (?h r) = summary_key (?h q)"
    using assms(3) by (auto simp: summary_key_def is_summary_def move_summary_def)
  then have "r = q" by (rule distinct_key_eq [OF d rq(1,3)])
  then show False using rq assms(3) by simp
qed

lemma moveMail_ok: "mail_ok st \<Longrightarrow> mail_ok (fst (moveMail env now t b op to moveImap st))"
proof (cases rule: moveMail_cases [of env now t b op to moveImap st])
  case (run src dest sent path)
  assume "mail_ok st"
  then have ok: "mail_ok sent" using same_tables_mail_ok [OF run(4)] by simp
  let ?m = "moved dest moveImap path op now t b sent"
  have "scope_messages sent t b \<noteq> []" using run(3) by (simp add: same_tables_scope [OF run(4)])
  then have src: "(t, b) \<in> summary_scopes sent"
    using ok by (auto simp: mail_ok_def covered_iff scope_messages_scopes)
  consider "mx_id dest = b" | "mx_id dest \<noteq> b" "vacant sent t (mx_id dest)"
    | "mx_id dest \<noteq> b" "(t, mx_id dest) \<in> summary_scopes sent"
    using ok unfolding vacant_def list_ex_summary scope_messages_scopes mail_ok_def covered_iff
    by (auto simp: summary_scopes_def)
  then have "mail_ok (fst (commit sent ?m))"
  proof cases
    case 1
    then show ?thesis using ok moved_same_inv moved_covered by (simp add: mail_ok_def commit_def)
  next
    case 2
    then show ?thesis using ok moved_inv moved_covered by (simp add: mail_ok_def commit_def)
  next
    case 3
    then show ?thesis using ok moved_conflict [OF src] by (simp add: commit_def)
  qed
  then show ?thesis unfolding run(5) .
qed simp

lemma delete_scope_covered:
  assumes cov: "covered st"
    and P: "\<And>m. m \<in> set (st_messages st) \<Longrightarrow> row_mailboxId m = b \<Longrightarrow> row_threadId m \<in> set ts \<Longrightarrow> P m"
  shows "covered (delete_scope b ts (filter P (st_messages st)) st)" (is "covered ?s")
proof -
  have "\<exists>r \<in> set (st_mailboxThreads ?s). is_summary (row_threadId m) (row_mailboxId m) r" if m: "m \<in> set (st_messages ?s)" for m
  proof -
    have m0: "m \<in> set (st_messages st)" "\<not> P m" using m by (auto simp: delete_scope_tables)
    then obtain r where r: "r \<in> set (st_mailboxThreads st)" "is_summary (row_threadId m) (row_mailboxId m) r"
      using cov by (auto simp: covered_def list_all_iff list_ex_iff)
    moreover have "\<not> (mt_mailboxId r = b \<and> mt_threadId r \<in> set ts)" using P [OF m0(1)] m0(2) r(2) by (auto simp: is_summary_def)
    moreover have "list_ex (\<lambda>x. row_threadId x = mt_threadId r) (st_messages ?s)"
      using m r(2) by (auto simp: list_ex_iff is_summary_def)
    ultimately have "r \<in> set (st_mailboxThreads ?s)"
      by (simp add: delete_scope_def delete_empty_threads_def delete_summaries_def delete_messages_def Let_def)
    then show ?thesis using r(2) by blast
  qed
  then show ?thesis by (simp add: covered_def list_all_iff list_ex_iff)
qed

lemma deleteMail_ok: "mail_ok st \<Longrightarrow> mail_ok (deleteMail env b ts emptyAll imapDelete st)"
proof (cases rule: deleteMail_cases [of env b ts emptyAll imapDelete st])
  case (run sent ts')
  assume ok: "mail_ok st"
  have "covered (delete_scope b ts' (filter (deletes b ts emptyAll) (st_messages st)) st)"
    using ok run(3) by (intro delete_scope_covered) (auto simp: mail_ok_def deletes_def)
  then have "covered (deleteMail env b ts emptyAll imapDelete st)"
    using delete_scope_same [OF run(1), of b ts' "filter (deletes b ts emptyAll) (st_messages st)"] unfolding run(4)
    by (auto simp: same_tables_def covered_def)
  then show ?thesis using ok deleteMail_inv by (simp add: mail_ok_def)
qed simp

interpretation listed: rule_effect "\<lambda>t b st st'. covered st \<longrightarrow> covered st'"
proof unfold_locales
  fix m box st now idt act
  have refresh: "covered s \<Longrightarrow> covered (update_summary t b g (update_messages t b f s))"
    if "\<And>m. in_scope t b m \<Longrightarrow> in_scope t b (f m)" "\<And>r. summary_key (g r) = summary_key r" for t b f g s
    using that by (intro refresh_update_covered) simp_all
  have "covered s \<Longrightarrow> covered (markAsRead now t b i s)" "covered s \<Longrightarrow> covered (toggleStar now t b i s)"
    "covered s \<Longrightarrow> covered (moveToTrash t b i k s)" "covered s \<Longrightarrow> covered (fst (insert_label l s))" for t b i s k l
    using refresh [of t b "\<lambda>m. m\<lparr>row_seen := True, row_updatedAt := now\<rparr>" "\<lambda>r. r\<lparr>mt_unreadCount := 0, mt_updatedAt := now\<rparr>" s]
      refresh [of t b "\<lambda>m. m\<lparr>row_updatedAt := now, row_flagged := True\<rparr>" _ s]
    by (simp_all add: markAsRead_def toggleStar_def moveToTrash_def insert_label_def refresh_summary_def Let_def in_scope_def
        summary_key_def covered_def store_simps)
  then show "covered st \<longrightarrow> covered (fst (run_action now m box idt act st))"
    by (simp add: run_action_def Let_def)
qed simp_all

lemma processRules_ok: "mail_ok st \<Longrightarrow> mail_ok (fst (processRules mk now messageId st))"
proof (cases "find (\<lambda>m. row_id m = messageId) (st_messages st)")
  case None
  then show "mail_ok st \<Longrightarrow> ?thesis" by (simp add: processRules_def)
next
  case (Some m)
  show "mail_ok st \<Longrightarrow> ?thesis"
    using kept.processRules_effect [OF Some, of mk now] listed.processRules_effect [OF Some, of mk now] by (simp add: mail_ok_def)
qed

lemma mail_ok_add_job: "mail_ok (add_job j st) \<longleftrightarrow> mail_ok st"
  by (rule mail_ok_cong) (simp_all add: store_simps)

lemma run_job_ok: "mail_ok st \<Longrightarrow> mail_ok (fst (run_job env now j st))"
proof (cases j)
  case (JobMove t b op to i moveImap)
  assume ok: "mail_ok st"
  obtain st' e where r: "moveMail env now t b op to moveImap st = (st', e)" by (cases "moveMail env now t b op to moveImap st")
  have "mail_ok st'" using moveMail_ok [OF ok, of env now t b op to moveImap] by (simp add: r)
  then show ?thesis using ok by (cases e) (simp_all add: JobMove r mail_ok_add_job)
next
  case (JobSetFlags t b op)
  assume "mail_ok st"
  then show ?thesis by (simp add: JobSetFlags mail_ok_add_job mailSetFlags_ok)
next
  case (JobDelete b t emptyAll imapDelete)
  assume "mail_ok st"
  then show ?thesis by (simp add: JobDelete deleteMail_ok)
qed simp

subsection \<open>Every event and every action of the web application keeps \<open>mail_ok\<close>\<close>

lemma covered_mono:
  "covered st \<Longrightarrow> message_scopes st' \<subseteq> message_scopes st \<Longrightarrow> summary_scopes st \<subseteq> summary_scopes st' \<Longrightarrow> covered st'"
  unfolding covered_iff by blast

lemma covered_maps:
  assumes "covered st" "map (\<lambda>m. (row_threadId m, row_mailboxId m)) (st_messages st') = map (\<lambda>m. (row_threadId m, row_mailboxId m)) (st_messages st)"
    "map summary_key (st_mailboxThreads st') = map summary_key (st_mailboxThreads st)"
  shows "covered st'"
proof (rule covered_mono [OF assms(1)])
  show "message_scopes st' \<subseteq> message_scopes st" using arg_cong [OF assms(2), of set] by (simp add: message_scopes_def)
  show "summary_scopes st \<subseteq> summary_scopes st'" using arg_cong [OF assms(3), of set] by (simp add: summary_scopes_def)
qed

lemma mail_ok_covered: "mail_ok st \<Longrightarrow> covered st"
  by (simp add: mail_ok_def)

lemma on_flags_ok: "mail_ok st \<Longrightarrow> mail_ok (on_flags now i fetched ev st)"
proof -
  have "mail_ok (handleFlagsUpdate now i uid p fl se an st)" if "mail_ok st" for uid p fl se an
  proof -
    have "covered (handleFlagsUpdate now i uid p fl se an st)" using mail_ok_covered [OF that]
      by (rule covered_maps) (auto simp: mail_ok_def handleFlagsUpdate_def refresh_keys store_simps map_update_where split: option.split)
    then show ?thesis using that handleFlagsUpdate_inv by (simp add: mail_ok_def)
  qed
  then show "mail_ok st \<Longrightarrow> ?thesis" by (simp add: on_flags_def split: option.split)
qed

lemma expunge_covered:
  assumes "covered st" "st1 = st\<lparr>st_messages := filter P (st_messages st)\<rparr>"
  shows "covered (refresh_summary now t b st1)"
    "scope_messages st1 t b = [] \<Longrightarrow> covered (st1\<lparr>st_mailboxThreads := filter (\<lambda>r. \<not> is_summary t b r) (st_mailboxThreads st1)\<rparr>)"
proof -
  have sub: "message_scopes st1 \<subseteq> message_scopes st" by (auto simp: assms(2) message_scopes_def)
  have "map summary_key (st_mailboxThreads (refresh_summary now t b st1)) = map summary_key (st_mailboxThreads st)"
    unfolding refresh_keys by (simp add: assms(2))
  then have "summary_scopes (refresh_summary now t b st1) = summary_scopes st"
    unfolding summary_scopes_def by (metis list.set_map)
  moreover have "message_scopes (refresh_summary now t b st1) = message_scopes st1" by (simp add: message_scopes_def store_simps)
  ultimately show "covered (refresh_summary now t b st1)" using sub assms(1) by (auto simp: covered_iff)
  assume "scope_messages st1 t b = []"
  then have "(t, b) \<notin> message_scopes st1" by (simp add: scope_messages_scopes)
  moreover have "summary_scopes (st1\<lparr>st_mailboxThreads := filter (\<lambda>r. \<not> is_summary t b r) (st_mailboxThreads st1)\<rparr>) = summary_scopes st - {(t, b)}"
    by (auto simp: summary_scopes_def assms(2) summary_key_def is_summary_def)
  moreover have "message_scopes (st1\<lparr>st_mailboxThreads := rows\<rparr>) = message_scopes st1" for rows by (simp add: message_scopes_def)
  ultimately show "covered (st1\<lparr>st_mailboxThreads := filter (\<lambda>r. \<not> is_summary t b r) (st_mailboxThreads st1)\<rparr>)"
    using sub assms(1) by (auto simp: covered_iff)
qed

lemma on_expunge_ok:
  assumes "mail_ok st" "\<And>n. int8 n = JNum (JFin 0) \<Longrightarrow> n = 0"
  shows "mail_ok (on_expunge int8 now i uid p st)"
proof -
  have none: "scope_messages s t b = []" if "int8 (length (scope_messages s t b)) = JNum (JFin 0)" for s t b
    using assms(2) [OF that] by simp
  have "covered (handleExpunge int8 now i p n st)" for n
    using assms(1) expunge_covered [of st, OF _ refl] none
    by (auto simp: handleExpunge_def Let_def mail_ok_def split: option.split)
  then have "mail_ok (handleExpunge int8 now i p n st)" for n
    using handleExpunge_inv [of st int8] assms by (simp add: mail_ok_def)
  then show ?thesis using assms(1) by (simp add: on_expunge_def split: option.split)
qed

lemma flag_jobs_ok [simp]: "mail_ok (flag_jobs accepts ids b op st) = mail_ok st" "mail_ok (settledWithLogging accepts js st) = mail_ok st"
  by (rule mail_ok_cong; simp)+

lemma threads_updates_covered:
  assumes "covered st" "\<And>m. row_threadId (f m) = row_threadId m \<and> row_mailboxId (f m) = row_mailboxId m" "\<And>r. summary_key (g r) = summary_key r"
  shows "covered (update_threads_summaries ids b g (update_threads_messages ids b f st))"
  using assms(1) by (rule covered_maps)
    (simp_all add: update_threads_summaries_def update_threads_messages_def map_update_where assms(2,3))

lemma web_markAsRead_ok: "mail_ok st \<Longrightarrow> mail_ok (web_markAsRead now accepts ts b markSmtp st)"
  using read_marks_inv [of st "clean_ids ts" b now] threads_updates_covered [of st]
  by (simp add: web_markAsRead_def Let_def) (simp add: mail_ok_def summary_key_def)

lemma web_markAsUnread_ok:
  assumes "mail_ok st" "listed_have_messages ts b st"
  shows "mail_ok (web_markAsUnread now accepts ts b markSmtp st)"
proof (cases "clean_ids ts = [] \<or> b = []")
  case True
  then show ?thesis using assms(1) by (simp add: web_markAsUnread_def Let_def)
next
  case False
  define st1 where "st1 = update_threads_messages (clean_ids ts) b (\<lambda>m. m\<lparr>row_seen := False, row_updatedAt := now\<rparr>) st"
  define st2 where "st2 = update_threads_summaries (clean_ids ts) b
    (\<lambda>r. r\<lparr>mt_unreadCount := nullish (unread_count_of (mt_threadId r) b st1) 1, mt_updatedAt := now\<rparr>) st1"
  have "covered st2" unfolding st2_def st1_def using assms(1)
    by (intro threads_updates_covered) (simp_all add: mail_ok_def summary_key_def)
  then have "covered (web_markAsUnread now accepts ts b markSmtp st)"
    using web_markAsUnread_run [OF _ _ st1_def st2_def, of accepts markSmtp] False by (simp add: covered_def)
  then show ?thesis using web_markAsUnread_inv [OF _ assms(2)] assms(1) by (simp add: mail_ok_def)
qed

lemma add_refresh_ok [simp]: "mail_ok (fst (add_refresh accepts t st)) = mail_ok st"
  by (simp add: add_refresh_def mail_ok_add_job)

lemma web_toggleStar_ok: "mail_ok st \<Longrightarrow> mail_ok (fst (web_toggleStar now accepts t b starred starImap st))"
proof -
  assume ok: "mail_ok st"
  have "mail_ok (refresh_summary now t b (update_messages t b f st))"
    if "\<And>m. row_threadId (f m) = row_threadId m \<and> row_mailboxId (f m) = row_mailboxId m" "\<And>m. row_id (f m) = row_id m" for f
  proof -
    have "covered (refresh_summary now t b (update_messages t b f st))" using mail_ok_covered [OF ok]
      by (rule covered_maps) (simp_all add: mail_ok_def refresh_keys store_simps map_update_where that)
    then show ?thesis using refresh_restores_inv [of st f now t b] ok that by (simp add: mail_ok_def)
  qed
  then show ?thesis using ok by (simp add: web_toggleStar_def Let_def mail_ok_add_job)
qed

lemma web_moves_ok [simp]:
  "mail_ok (web_moveToTrash accepts ts b moveImap messageId st) = mail_ok st"
  "mail_ok (web_moveToFolder accepts ts b to_b moveImap messageId st) = mail_ok st"
  by (simp_all add: web_moveToTrash_def web_moveToFolder_def Let_def)

lemma web_deleteForever_ok [simp]: "mail_ok (fst (web_deleteForever accepts ts b imapDelete emptyAll st)) = mail_ok st"
proof -
  have "mail_ok (foldl (\<lambda>s t. let j = JobDelete b (Some t) False imapDelete
      in if accepts j then fst (add_refresh accepts t (add_job j s)) else s) st ids) = mail_ok st" for ids
    by (induction ids rule: rev_induct) (simp_all add: Let_def mail_ok_add_job)
  then show ?thesis by (simp add: web_deleteForever_def Let_def mail_ok_add_job)
qed

lemma snooze_ok: "mail_ok st \<Longrightarrow> mail_ok (snoozeThread now t b u st)" "mail_ok st \<Longrightarrow> mail_ok (snooze_tick now st)"
proof -
  assume ok: "mail_ok st"
  have "covered (snoozeThread now t b u st)" using mail_ok_covered [OF ok]
    by (rule covered_maps) (simp_all add: mail_ok_def snoozeThread_def store_simps map_update_where summary_key_def)
  then show "mail_ok (snoozeThread now t b u st)" using ok snooze_inv by (simp add: mail_ok_def)
  have "covered (snooze_tick now st)" using mail_ok_covered [OF ok]
    by (rule covered_maps) (simp_all add: mail_ok_def snooze_tick_def map_update_where summary_key_def)
  then show "mail_ok (snooze_tick now st)" using ok snooze_inv by (simp add: mail_ok_def)
qed

lemmas step_ok = processRules_ok moveMail_ok deleteMail_ok on_flags_ok on_expunge_ok web_markAsRead_ok web_markAsUnread_ok
  web_toggleStar_ok snooze_ok

subsection \<open>Properties\<close>



end
