(* ===== verification/Folders.thy ===== *)
theory Folders
  imports MailStore
begin

text \<open>
  The folders of an account: \<open>apps/worker/lib/imap/backfill/discover\<close> (\<open>discover-gmail.ts\<close>,
  \<open>discover-helpers.ts\<close>, \<open>discover-mailboxes.ts\<close>, \<open>discover-trash.ts\<close>), \<open>imap-new-folder.ts\<close> and
  \<open>imap-delete-folder.ts\<close>. The state is the table \<open>mailboxes\<close> as a tree of folders, with the IMAP data
  its meta column carries, and the table \<open>mailbox_sync\<close>, one row for each folder that is synchronised.

  The IMAP server and \<open>slugify\<close> are arguments: the list of boxes, what opening a box gives (nothing when
  it throws), whether a box can be created, and the slug of a text. Ids come from a supply. A
  statement that breaks a unique index throws and changes nothing. Keys of the meta column other than
  \<open>imap\<close> are carried along by the code and left out here.
\<close>

subsection \<open>Rows\<close>

record imap_info =
  ii_path :: "string option"
  ii_name :: string
  ii_parentPath :: string
  ii_delimiter :: string
  ii_flags :: "string list"
  ii_specialUse :: "string option"
  ii_selectable :: bool

record folder_row =
  fo_id :: string
  fo_ownerId :: string
  fo_identityId :: string
  fo_parentId :: "string option"
  fo_kind :: string
  fo_name :: string
  fo_slug :: "string option"
  fo_isDefault :: bool
  fo_imap :: "imap_info option"

datatype sync_phase = BOOTSTRAP | BACKFILL | IDLE

record sync_row =
  sy_id :: string
  sy_identityId :: string
  sy_mailboxId :: string
  sy_uidValidity :: int
  sy_lastSeenUid :: int
  sy_backfillCursorUid :: int
  sy_phase :: sync_phase
  sy_syncedAt :: "date option"

record account_row =
  ac_id :: string
  ac_ownerId :: string
  ac_kind :: string
  ac_smtpAccountId :: "string option"
  ac_dailyQuota :: jsval

record folders =
  fs_rows :: "folder_row list"
  fs_sync :: "sync_row list"
  fs_next :: nat

record imap_listed =
  ib_path :: string
  ib_name :: string
  ib_delimiter :: "string option"
  ib_flags :: "string list option"
  ib_specialUse :: "string option"
  ib_listed :: bool

text \<open>\<open>mailboxOpen\<close> gives \<open>uidNext\<close>, which may be missing, and \<open>uidValidity\<close>.\<close>

record folder_env =
  fe_fresh :: "nat \<Rightarrow> string"
  fe_slugify :: "string \<Rightarrow> string"
  fe_list :: "imap_listed list"
  fe_open :: "string \<Rightarrow> (int option \<times> int) option"
  fe_create :: "string \<Rightarrow> bool"

datatype folder_error = FolderConflict | OpenFailed string | FolderError string

definition folder_path :: "folder_row \<Rightarrow> string option" where
  "folder_path r = Option.bind (fo_imap r) ii_path"

subsection \<open>Statements\<close>

text \<open>The two partial unique indexes: one default folder for each kind, and the slugs, of an identity.\<close>

definition default_keys :: "folder_row list \<Rightarrow> (string \<times> string) list" where
  "default_keys rows = map (\<lambda>r. (fo_identityId r, fo_kind r)) (filter fo_isDefault rows)"

definition slug_keys :: "folder_row list \<Rightarrow> (string \<times> string) list" where
  "slug_keys rows = List.map_filter (\<lambda>r. map_option (\<lambda>x. (fo_identityId r, x)) (fo_slug r)) rows"

definition indexes_hold :: "folder_row list \<Rightarrow> bool" where
  "indexes_hold rows \<longleftrightarrow> distinct (default_keys rows) \<and> distinct (slug_keys rows)"

definition set_rows :: "folder_row list \<Rightarrow> folders \<Rightarrow> folder_error + folders" where
  "set_rows rows st = (if indexes_hold rows then Inr (st\<lparr>fs_rows := rows\<rparr>) else Inl FolderConflict)"

definition insert_folder :: "folder_row \<Rightarrow> folders \<Rightarrow> folder_error + folders" where
  "insert_folder r st = map_sum id (\<lambda>s. s\<lparr>fs_next := Suc (fs_next s)\<rparr>) (set_rows (fs_rows st @ [r]) st)"

definition find_sync :: "string \<Rightarrow> folders \<Rightarrow> sync_row option" where
  "find_sync mailboxId st = find (\<lambda>y. sy_mailboxId y = mailboxId) (fs_sync st)"

text \<open>The unique index of \<open>mailbox_sync\<close> is on the mailbox.\<close>

definition insert_sync :: "sync_row \<Rightarrow> folders \<Rightarrow> folder_error + folders" where
  "insert_sync y st =
     (if find_sync (sy_mailboxId y) st \<noteq> None then Inl FolderConflict
      else Inr (st\<lparr>fs_sync := fs_sync st @ [y], fs_next := Suc (fs_next st)\<rparr>))"

definition top_uid :: "int option \<Rightarrow> int" where
  "top_uid uidNext = max 0 (nullish uidNext 1 - 1)"

definition new_sync :: "folder_env \<Rightarrow> string \<Rightarrow> string \<Rightarrow> int option \<times> int \<Rightarrow> folders \<Rightarrow> sync_row" where
  "new_sync env identityId mailboxId box st =
     \<lparr>sy_id = fe_fresh env (fs_next st), sy_identityId = identityId, sy_mailboxId = mailboxId, sy_uidValidity = snd box,
      sy_lastSeenUid = 0, sy_backfillCursorUid = top_uid (fst box), sy_phase = BACKFILL, sy_syncedAt = None\<rparr>"

subsection \<open>\<open>discover-gmail.ts\<close>\<close>

definition noselect :: string where "noselect = backslash # ''Noselect''"

definition isGmailAccountFromBoxes :: "imap_listed list \<Rightarrow> bool" where
  "isGmailAccountFromBoxes boxes =
     list_ex (\<lambda>b. startsWith (ib_path b) ''[Gmail]''
       \<or> (case ib_specialUse b of None \<Rightarrow> False | Some u \<Rightarrow> toLowerCase u = backslash # ''all'')) boxes"

definition shouldSyncBox :: "imap_listed \<Rightarrow> bool \<Rightarrow> bool" where
  "shouldSyncBox box isGmail =
     (if \<not> ib_listed box then False
      else if noselect \<in> set (nullish (ib_flags box) []) then False
      else let path = toLowerCase (ib_path box); su = toLowerCase (nullish (ib_specialUse box) [])
           in \<not> (isGmail \<and> (su = backslash # ''all'' \<or> path = ''[gmail]'' \<or> path = ''[gmail]/important''
                 \<or> path = ''[gmail]/notes'' \<or> path = ''notes'')))"

subsection \<open>\<open>discover-helpers.ts\<close>\<close>

text \<open>\<open>s.lastIndexOf(d)\<close> for a text \<open>d\<close>.\<close>

fun last_index_str :: "string \<Rightarrow> string \<Rightarrow> nat option" where
  "last_index_str d [] = (if d = [] then Some 0 else None)"
| "last_index_str d (x # xs) =
     (case last_index_str d xs of Some i \<Rightarrow> Some (Suc i) | None \<Rightarrow> if prefix d (x # xs) then Some 0 else None)"

definition splitParent :: "string \<Rightarrow> string \<Rightarrow> string \<times> string" where
  "splitParent path delimiter =
     (case last_index_str delimiter path of
        None \<Rightarrow> ([], path)
      | Some i \<Rightarrow> (take i path, drop (i + 1) path))"

definition findLocalByPath :: "string \<Rightarrow> string \<Rightarrow> folders \<Rightarrow> folder_row option" where
  "findLocalByPath identityId path st =
     find (\<lambda>r. fo_identityId r = identityId \<and> folder_path r = Some path) (fs_rows st)"

definition parent_row :: "folder_env \<Rightarrow> account_row \<Rightarrow> string \<Rightarrow> string \<Rightarrow> string option \<Rightarrow> folders \<Rightarrow> folder_row" where
  "parent_row env identity parentPath delimiter grandId st =
     (let (pp2, parentName) = splitParent parentPath delimiter
      in \<lparr>fo_id = fe_fresh env (fs_next st), fo_ownerId = ac_ownerId identity, fo_identityId = ac_id identity,
          fo_parentId = grandId, fo_kind = ''custom'', fo_name = parentName, fo_slug = Some (fe_slugify env parentPath),
          fo_isDefault = False,
          fo_imap = Some \<lparr>ii_path = Some parentPath, ii_name = parentName, ii_parentPath = pp2, ii_delimiter = delimiter,
            ii_flags = [noselect], ii_specialUse = None, ii_selectable = False\<rparr>\<rparr>)"

type_synonym path_ids = "(string, string) js_map"

type_synonym chain_result = "(folders \<times> path_ids) \<times> (folder_error + string option)"

text \<open>The end of the function: the row of the parent, below the grandparent the recursive call gave.\<close>

definition create_parent :: "folder_env \<Rightarrow> account_row \<Rightarrow> string \<Rightarrow> string \<Rightarrow> chain_result \<Rightarrow> chain_result" where
  "create_parent env identity parentPath delimiter r =
     (case r of
        (sp, Inl e) \<Rightarrow> (sp, Inl e)
      | ((st, pathIdMap), Inr grandId) \<Rightarrow>
          let row = parent_row env identity parentPath delimiter grandId st
          in (case insert_folder row st of
                Inl e \<Rightarrow> ((st, pathIdMap), Inl e)
              | Inr st2 \<Rightarrow> ((st2, AList.update parentPath (fo_id row) pathIdMap), Inr (Some (fo_id row)))))"

text \<open>
  The recursion goes up the path. With an empty delimiter it would not get shorter: \<open>None\<close> is a call that
  does not return.
\<close>

partial_function (option) ensureParentChain ::
  "folder_env \<Rightarrow> account_row \<Rightarrow> string \<Rightarrow> string \<Rightarrow> path_ids \<Rightarrow> folders \<Rightarrow> chain_result option" where
  "ensureParentChain env identity parentPath delimiter pathIdMap st =
     (if parentPath = [] then Some ((st, pathIdMap), Inr None)
      else if truthy (map_of pathIdMap parentPath) then Some ((st, pathIdMap), Inr (map_of pathIdMap parentPath))
      else case findLocalByPath (ac_id identity) parentPath st of
        Some existing \<Rightarrow> Some ((st, AList.update parentPath (fo_id existing) pathIdMap), Inr (Some (fo_id existing)))
      | None \<Rightarrow>
          Option.bind (ensureParentChain env identity (fst (splitParent parentPath delimiter)) delimiter pathIdMap st)
            (\<lambda>r. Some (create_parent env identity parentPath delimiter r)))"

declare ensureParentChain.simps [code]

definition inferKind :: "string \<Rightarrow> string option \<Rightarrow> string" where
  "inferKind mbxName specialUse =
     (if specialUse = Some (backslash # ''Inbox'') then ''inbox''
      else if specialUse = Some (backslash # ''Sent'') then ''sent''
      else if specialUse = Some (backslash # ''Drafts'') then ''drafts''
      else if specialUse = Some (backslash # ''Junk'') then ''spam''
      else if specialUse = Some (backslash # ''Trash'') then ''trash''
      else if specialUse = Some (backslash # ''Archive'') then ''archive''
      else let n = toLowerCase mbxName
           in if n = ''inbox'' then ''inbox''
              else if n \<in> set [''sent'', ''sent mail'', ''sent messages''] then ''sent''
              else if n \<in> set [''drafts'', ''draft''] then ''drafts''
              else if n \<in> set [''junk'', ''spam''] then ''spam''
              else if n \<in> set [''trash'', ''deleted items'', ''deleted messages'', ''bin''] then ''trash''
              else if n \<in> set [''archive'', ''all mail''] then ''archive''
              else ''custom'')"

subsection \<open>\<open>discover-trash.ts\<close>\<close>

definition TRASH_NAME_CANDIDATES :: "string list" where
  "TRASH_NAME_CANDIDATES = [''trash'', ''deleted items'', ''deleted messages'', ''deleted'', ''bin'', ''rubbish'', ''[gmail]/trash'',
     ''[gmail]/bin'', ''papierkorb'', ''corbeille'', ''cestino'', ''papelera'']"

definition isTrashName :: "string \<Rightarrow> string \<Rightarrow> bool" where
  "isTrashName path name =
     (let p = toLowerCase path; n = toLowerCase name
      in p \<in> set TRASH_NAME_CANDIDATES \<or> n \<in> set TRASH_NAME_CANDIDATES \<or> endsWith p ''/trash'' \<or> endsWith p ''.trash''
         \<or> endsWith n ''/trash'' \<or> endsWith n ''.trash'')"

definition trash_row :: "folder_env \<Rightarrow> account_row \<Rightarrow> string \<Rightarrow> string option \<Rightarrow> string \<Rightarrow> bool \<Rightarrow> folders \<Rightarrow> folder_row" where
  "trash_row env identity name path slug selectable st =
     \<lparr>fo_id = fe_fresh env (fs_next st), fo_ownerId = ac_ownerId identity, fo_identityId = ac_id identity, fo_parentId = None,
      fo_kind = ''trash'', fo_name = name, fo_slug = Some slug, fo_isDefault = False,
      fo_imap = Some \<lparr>ii_path = path, ii_name = name, ii_parentPath = [], ii_delimiter = ''.'', ii_flags = [],
        ii_specialUse = None, ii_selectable = selectable\<rparr>\<rparr>"

text \<open>
  One turn of the loop over the names: \<open>None\<close> when the body threw, which is ignored. An insert that
  conflicts does nothing and returns no row, and then there is no row to synchronise.
\<close>

definition try_trash :: "folder_env \<Rightarrow> account_row \<Rightarrow> string \<Rightarrow> folders \<Rightarrow> folders \<times> bool" where
  "try_trash env identity name st =
     (if \<not> fe_create env name then (st, False)
      else case fe_open env name of
        None \<Rightarrow> (st, False)
      | Some box \<Rightarrow>
          let row = trash_row env identity name (Some name) (fe_slugify env name) True st
          in (case insert_folder row st of
                Inl _ \<Rightarrow> (st, True)
              | Inr st1 \<Rightarrow>
                  (case insert_sync (new_sync env (ac_id identity) (fo_id row) box st1) st1 of
                     Inl _ \<Rightarrow> (st1, False)
                   | Inr st2 \<Rightarrow> (st2, True))))"

definition ensureTrashFolder :: "folder_env \<Rightarrow> account_row \<Rightarrow> folders \<Rightarrow> folders \<times> folder_error option" where
  "ensureTrashFolder env identity st =
     (if list_ex (\<lambda>m. ib_specialUse m = Some (backslash # ''Trash'')) (fe_list env)
        \<or> list_ex (\<lambda>m. isTrashName (ib_path m) (ib_name m)) (fe_list env)
      then (st, None)
      else let (st1, done1) = try_trash env identity ''Trash'' st
           in if done1 then (st1, None)
              else let (st2, done2) = try_trash env identity ''Deleted Items'' st1
                   in if done2 then (st2, None)
                      else if list_ex (\<lambda>r. fo_identityId r = ac_id identity \<and> (fo_kind r = ''trash'' \<or> fo_slug r = Some ''trash''))
                        (fs_rows st2)
                      then (st2, None)
                      else (case insert_folder (trash_row env identity ''Trash'' None ''trash'' False st2) st2 of
                              Inl e \<Rightarrow> (st2, Some e)
                            | Inr st3 \<Rightarrow> (st3, None)))"

subsection \<open>\<open>discover-mailboxes.ts\<close>\<close>

definition box_delimiter :: "imap_listed \<Rightarrow> string" where
  "box_delimiter mbx = or_default (ib_delimiter mbx) ''/''"

definition box_parent :: "imap_listed \<Rightarrow> bool \<Rightarrow> string \<times> string" where
  "box_parent mbx isGmail =
     (let (parentPath, name) = splitParent (ib_path mbx) (box_delimiter mbx)
      in (if isGmail \<and> parentPath = ''[Gmail]'' then [] else parentPath, name))"

definition box_selectable :: "imap_listed \<Rightarrow> bool" where
  "box_selectable mbx \<longleftrightarrow> noselect \<notin> set (nullish (ib_flags mbx) [])"

definition box_info :: "imap_listed \<Rightarrow> bool \<Rightarrow> imap_info" where
  "box_info mbx isGmail =
     \<lparr>ii_path = Some (ib_path mbx), ii_name = snd (box_parent mbx isGmail), ii_parentPath = fst (box_parent mbx isGmail),
      ii_delimiter = box_delimiter mbx, ii_flags = nullish (ib_flags mbx) [], ii_specialUse = ib_specialUse mbx,
      ii_selectable = box_selectable mbx\<rparr>"

definition box_row :: "folder_env \<Rightarrow> account_row \<Rightarrow> imap_listed \<Rightarrow> bool \<Rightarrow> string option \<Rightarrow> folders \<Rightarrow> folder_row" where
  "box_row env identity mbx isGmail parentId st =
     \<lparr>fo_id = fe_fresh env (fs_next st), fo_ownerId = ac_ownerId identity, fo_identityId = ac_id identity, fo_parentId = parentId,
      fo_kind = inferKind (ib_name mbx) (ib_specialUse mbx), fo_name = snd (box_parent mbx isGmail),
      fo_slug = Some (fe_slugify env (toLowerCase (ib_name mbx))), fo_isDefault = (ib_path mbx = ''INBOX''),
      fo_imap = Some (box_info mbx isGmail)\<rparr>"

definition update_folder :: "folder_env \<Rightarrow> imap_listed \<Rightarrow> bool \<Rightarrow> string option \<Rightarrow> string \<Rightarrow> folders \<Rightarrow> folder_error + folders" where
  "update_folder env mbx isGmail parentId i st =
     set_rows (update_where (\<lambda>r. fo_id r = i)
       (\<lambda>r. r\<lparr>fo_parentId := parentId, fo_name := snd (box_parent mbx isGmail),
              fo_slug := Some (fe_slugify env (toLowerCase (ib_path mbx))), fo_imap := Some (box_info mbx isGmail)\<rparr>) (fs_rows st)) st"

text \<open>A folder that can be selected is opened and gets its row of \<open>mailbox_sync\<close>.\<close>

definition start_sync :: "folder_env \<Rightarrow> account_row \<Rightarrow> imap_listed \<Rightarrow> string \<Rightarrow> folders \<Rightarrow> folders \<times> folder_error option" where
  "start_sync env identity mbx mailboxId st =
     (if \<not> box_selectable mbx then (st, None)
      else case fe_open env (ib_path mbx) of
        None \<Rightarrow> (st, Some (OpenFailed (ib_path mbx)))
      | Some box \<Rightarrow>
          (case insert_sync (new_sync env (ac_id identity) mailboxId box st) st of
             Inl e \<Rightarrow> (st, Some e)
           | Inr st1 \<Rightarrow> (st1, None)))"

text \<open>The body of the loop over the boxes, once the parents are there.\<close>

definition place_box :: "folder_env \<Rightarrow> account_row \<Rightarrow> imap_listed \<Rightarrow> bool \<Rightarrow> string option \<Rightarrow> folders \<times> path_ids \<Rightarrow> (folders \<times> path_ids) \<times> folder_error option" where
  "place_box env identity mbx isGmail parentId sp =
     (let (st, pathIdMap) = sp
      in case findLocalByPath (ac_id identity) (ib_path mbx) st of
           None \<Rightarrow>
             let row = box_row env identity mbx isGmail parentId st
             in (case insert_folder row st of
                   Inl e \<Rightarrow> (sp, Some e)
                 | Inr st1 \<Rightarrow>
                     let (st2, e) = start_sync env identity mbx (fo_id row) st1
                     in ((st2, AList.update (ib_path mbx) (fo_id row) pathIdMap), e))
         | Some existing \<Rightarrow>
             (case update_folder env mbx isGmail parentId (fo_id existing) st of
                Inl e \<Rightarrow> (sp, Some e)
              | Inr st1 \<Rightarrow>
                  if find_sync (fo_id existing) st1 \<noteq> None then ((st1, pathIdMap), None)
                  else let (st2, e) = start_sync env identity mbx (fo_id existing) st1 in ((st2, pathIdMap), e)))"

definition discover_box :: "folder_env \<Rightarrow> account_row \<Rightarrow> bool \<Rightarrow> imap_listed \<Rightarrow> folders \<times> path_ids \<Rightarrow> ((folders \<times> path_ids) \<times> folder_error option) option" where
  "discover_box env identity isGmail mbx sp =
     (case ensureParentChain env identity (fst (box_parent mbx isGmail)) (box_delimiter mbx) (snd sp) (fst sp) of
        None \<Rightarrow> None
      | Some (sp1, Inl e) \<Rightarrow> Some (sp1, Some e)
      | Some (sp1, Inr parentId) \<Rightarrow> Some (place_box env identity mbx isGmail parentId sp1))"

fun discover_loop :: "folder_env \<Rightarrow> account_row \<Rightarrow> bool \<Rightarrow> imap_listed list \<Rightarrow> folders \<times> path_ids \<Rightarrow> ((folders \<times> path_ids) \<times> folder_error option) option" where
  "discover_loop env identity isGmail [] sp = Some (sp, None)"
| "discover_loop env identity isGmail (mbx # boxes) sp =
     (case discover_box env identity isGmail mbx sp of
        None \<Rightarrow> None
      | Some (sp1, Some e) \<Rightarrow> Some (sp1, Some e)
      | Some (sp1, None) \<Rightarrow> discover_loop env identity isGmail boxes sp1)"

definition initial_paths :: "string \<Rightarrow> folders \<Rightarrow> path_ids" where
  "initial_paths identityId st =
     foldl (\<lambda>m r. if truthy (folder_path r) then AList.update (nullish (folder_path r) []) (fo_id r) m else m) []
       (filter (\<lambda>r. fo_identityId r = identityId) (fs_rows st))"

text \<open>Folders of the identity with a path that was not listed are marked as not selectable.\<close>

definition mark_vanished :: "string \<Rightarrow> string list \<Rightarrow> folders \<Rightarrow> folders" where
  "mark_vanished identityId touched st =
     st\<lparr>fs_rows := update_where
          (\<lambda>r. fo_identityId r = identityId \<and> truthy (folder_path r) \<and> nullish (folder_path r) [] \<notin> set touched)
          (\<lambda>r. r\<lparr>fo_imap := map_option (\<lambda>i. i\<lparr>ii_selectable := False\<rparr>) (fo_imap r)\<rparr>) (fs_rows st)\<rparr>"

definition synced_boxes :: "folder_env \<Rightarrow> imap_listed list" where
  "synced_boxes env = filter (\<lambda>b. shouldSyncBox b (isGmailAccountFromBoxes (fe_list env))) (fe_list env)"

definition discoverMailboxes :: "folder_env \<Rightarrow> account_row \<Rightarrow> folders \<Rightarrow> (folders \<times> folder_error option) option" where
  "discoverMailboxes env identity st =
     (case discover_loop env identity (isGmailAccountFromBoxes (fe_list env)) (synced_boxes env) (st, initial_paths (ac_id identity) st) of
        None \<Rightarrow> None
      | Some (sp, Some e) \<Rightarrow> Some (fst sp, Some e)
      | Some (sp, None) \<Rightarrow>
          Some (ensureTrashFolder env identity (mark_vanished (ac_id identity) (map ib_path (synced_boxes env)) (fst sp))))"

subsection \<open>\<open>imap-new-folder.ts\<close>\<close>

definition detectDelimiter :: "folder_env \<Rightarrow> string" where
  "detectDelimiter env =
     (case find (\<lambda>b. truthy (ib_delimiter b)) (fe_list env) of Some b \<Rightarrow> nullish (ib_delimiter b) [] | None \<Rightarrow> ''/'')"

text \<open>\<open>s.replaceAll(d, " ")\<close>; an empty pattern matches before every character and at the end.\<close>

function replace_all :: "string \<Rightarrow> string \<Rightarrow> string" where
  "replace_all d s =
     (if d = [] then '' '' @ concat (map (\<lambda>c. [c, CHR '' '']) s)
      else case s of
        [] \<Rightarrow> []
      | c # cs \<Rightarrow> if prefix d s then CHR '' '' # replace_all d (drop (length d) s) else c # replace_all d cs)"
  by pat_completeness auto
termination by (relation "measure (length \<circ> snd)") auto

declare replace_all.simps [simp del]

definition sanitizeName :: "string \<Rightarrow> string \<Rightarrow> string" where
  "sanitizeName name delimiter = replace_all delimiter (trim name)"

datatype create_outcome = Created | AlreadyThere | CreateFailed

record new_folder =
  nf_name :: "string option"
  nf_parentId :: "string option"
  nf_identityId :: string
  nf_ownerId :: string
  nf_kind :: "string option"

definition new_folder_place :: "folder_env \<Rightarrow> new_folder \<Rightarrow> folders \<Rightarrow> string \<times> string" where
  "new_folder_place env d st =
     (if truthy (nf_parentId d)
      then case find (\<lambda>r. Some (fo_id r) = nf_parentId d) (fs_rows st) of
             None \<Rightarrow> ([], detectDelimiter env)
           | Some parent \<Rightarrow>
               (case fo_imap parent of
                  None \<Rightarrow> ([], detectDelimiter env)
                | Some i \<Rightarrow> (nullish (ii_path i) [], ii_delimiter i))
      else ([], detectDelimiter env))"

text \<open>
  The parent column is \<open>String(data.parentId)\<close> unless that is blank: a missing parent becomes the text
  \<open>undefined\<close>. The foreign key of the column rejects what is not the id of a folder.
\<close>

definition parent_column :: "new_folder \<Rightarrow> string option" where
  "parent_column d = (let p = nullish (nf_parentId d) ''undefined'' in if trim p \<noteq> [] then Some p else None)"

definition new_folder_row :: "folder_env \<Rightarrow> new_folder \<Rightarrow> string \<Rightarrow> string \<Rightarrow> string \<Rightarrow> string \<Rightarrow> folders \<Rightarrow> folder_row" where
  "new_folder_row env d parentPath delimiter safeName newPath st =
     \<lparr>fo_id = fe_fresh env (fs_next st), fo_ownerId = nf_ownerId d, fo_identityId = nf_identityId d,
      fo_parentId = parent_column d, fo_kind = nullish (nf_kind d) ''custom'', fo_name = safeName,
      fo_slug = Some (fe_slugify env (toLowerCase safeName)), fo_isDefault = False,
      fo_imap = Some \<lparr>ii_path = Some newPath, ii_name = safeName, ii_parentPath = parentPath,
        ii_delimiter = delimiter, ii_flags = [], ii_specialUse = None, ii_selectable = True\<rparr>\<rparr>"

definition store_folder :: "folder_env \<Rightarrow> date \<Rightarrow> folder_row \<Rightarrow> int option \<times> int \<Rightarrow> folders \<Rightarrow> folders \<times> (folder_error + string)" where
  "store_folder env now row box st =
     (if (case fo_parentId row of None \<Rightarrow> False | Some p \<Rightarrow> p \<notin> set (map fo_id (fs_rows st))) then (st, Inl FolderConflict)
      else case insert_folder row st of
        Inl e \<Rightarrow> (st, Inl e)
      | Inr st1 \<Rightarrow>
          let y = (new_sync env (fo_identityId row) (fo_id row) box st1)\<lparr>sy_phase := IDLE, sy_syncedAt := Some now\<rparr>
          in (case insert_sync y st1 of Inl e \<Rightarrow> (st1, Inl e) | Inr st2 \<Rightarrow> (st2, Inr (fo_id row))))"

definition addNewFolder :: "folder_env \<Rightarrow> (string \<Rightarrow> create_outcome) \<Rightarrow> date \<Rightarrow> new_folder \<Rightarrow> folders \<Rightarrow> folders \<times> (folder_error + string)" where
  "addNewFolder env create now d st =
     (if trim (nullish (nf_name d) []) = [] then (st, Inl (FolderError ''Folder name is required''))
      else let (parentPath, delimiter) = new_folder_place env d st;
               safeName = sanitizeName (nullish (nf_name d) []) delimiter;
               newPath = (if parentPath \<noteq> [] then parentPath @ delimiter @ safeName else safeName)
           in if create newPath = CreateFailed then (st, Inl (FolderError newPath))
              else case fe_open env newPath of
                None \<Rightarrow> (st, Inl (OpenFailed newPath))
              | Some box \<Rightarrow> store_folder env now (new_folder_row env d parentPath delimiter safeName newPath st) box st)"

subsection \<open>\<open>imap-delete-folder.ts\<close>\<close>

text \<open>
  \<open>deleted\<close> says whether the server took the deletion, or had no such folder; another error is thrown. The
  cascade of the parent column finds nothing, since a folder with subfolders is refused.
\<close>

definition deleteFolder :: "(string \<Rightarrow> bool) \<Rightarrow> string \<Rightarrow> string \<Rightarrow> folders \<Rightarrow> folders \<times> (folder_error + string \<times> string)" where
  "deleteFolder deleted mailboxId identityId st =
     (case find (\<lambda>r. fo_id r = mailboxId \<and> fo_identityId r = identityId) (fs_rows st) of
        None \<Rightarrow> (st, Inl (FolderError ''Mailbox not found''))
      | Some mbx \<Rightarrow>
          let path = nullish (folder_path mbx) []
          in if fo_isDefault mbx then (st, Inl (FolderError ''Cannot delete a default/system mailbox''))
             else if path = [] then (st, Inl (FolderError ''Mailbox path missing''))
             else if list_ex (\<lambda>r. fo_identityId r = identityId \<and> fo_parentId r = Some (fo_id mbx)) (fs_rows st)
             then (st, Inl (FolderError ''Folder has subfolders. Delete them first.''))
             else if \<not> deleted path then (st, Inl (FolderError path))
             else (st\<lparr>fs_sync := filter (\<lambda>y. sy_mailboxId y \<noteq> fo_id mbx) (fs_sync st),
                      fs_rows := filter (\<lambda>r. fo_id r \<noteq> fo_id mbx) (fs_rows st)\<rparr>, Inr (fo_id mbx, path)))"

subsection \<open>Lemmas: paths\<close>

lemma last_index_str_bound: "last_index_str d s = Some i \<Longrightarrow> i + length d \<le> length s"
proof (induction s arbitrary: i)
  case (Cons x xs)
  then show ?case by (auto split: option.splits if_splits dest: prefix_length_le)
qed (auto split: if_splits)

lemma last_index_str_split: "last_index_str d s = Some i \<Longrightarrow> prefix d (drop i s)"
  by (induction s arbitrary: i) (auto split: option.splits if_splits)

lemma last_index_str_last: "last_index_str d s = Some i \<Longrightarrow> i < j \<Longrightarrow> j + length d \<le> length s \<Longrightarrow> \<not> prefix d (drop j s)"
proof (induction s arbitrary: i j)
  case (Cons x xs)
  then show ?case
  proof (cases "last_index_str d xs")
    case None
    have no: "\<not> prefix d (drop k xs)" if "last_index_str d xs = None" "k + length d \<le> length xs" for k xs
      using that
    proof (induction xs arbitrary: k)
      case (Cons y ys) then show ?case by (cases k) (auto split: option.splits if_splits)
    qed (auto split: if_splits)
    then show ?thesis using Cons.prems None by (cases j) (auto split: if_splits)
  next
    case (Some k)
    then show ?thesis using Cons by (cases j) auto
  qed
qed (auto split: if_splits)

lemma splitParent_shorter: "d \<noteq> [] \<Longrightarrow> path \<noteq> [] \<Longrightarrow> length (fst (splitParent path d)) < length path"
proof (cases "last_index_str d path")
  case (Some i)
  assume "d \<noteq> []"
  with last_index_str_bound [OF Some] have "i < length path" by (cases d) auto
  with Some show ?thesis by (simp add: splitParent_def)
qed (simp add: splitParent_def)

lemma splitParent_join:
  assumes "splitParent path [c] = (p, n)"
  shows "(path = n \<and> p = [] \<and> c \<notin> set path \<or> path = p @ c # n) \<and> c \<notin> set n"
proof (cases "last_index_str [c] path")
  case None
  have "c \<notin> set path" using None by (induction path) (auto split: option.splits if_splits)
  then show ?thesis using assms None by (simp add: splitParent_def)
next
  case (Some i)
  have b: "i < length path" using last_index_str_bound [OF Some] by simp
  have h: "path ! i = c" using last_index_str_split [OF Some] b by (auto simp: Cons_nth_drop_Suc [OF b, symmetric] prefix_def)
  have "path ! j \<noteq> c" if "i < j" "j < length path" for j
    using last_index_str_last [OF Some that(1)] that(2) by (auto simp: Cons_nth_drop_Suc [OF that(2), symmetric])
  then have "c \<notin> set (drop (Suc i) path)" by (auto simp: in_set_conv_nth)
  then show ?thesis using assms Some h by (auto simp: splitParent_def id_take_nth_drop [OF b, symmetric])
qed

subsection \<open>Lemmas: the invariant\<close>

text \<open>
  Ids, index keys and the synchronised folders are unique, parents and synchronised folders exist, and the
  supply has only unused ids left. \<open>folder_keys\<close> is what no discovery takes away: which folder has which
  path.
\<close>

definition folder_ids :: "folders \<Rightarrow> string list" where
  "folder_ids st = map fo_id (fs_rows st)"

definition folder_ok :: "folder_env \<Rightarrow> folders \<Rightarrow> bool" where
  "folder_ok env st \<longleftrightarrow> distinct (folder_ids st) \<and> indexes_hold (fs_rows st)
     \<and> (\<forall>r \<in> set (fs_rows st). \<forall>p. fo_parentId r = Some p \<longrightarrow> p \<in> set (folder_ids st))
     \<and> distinct (map sy_mailboxId (fs_sync st)) \<and> sy_mailboxId ` set (fs_sync st) \<subseteq> set (folder_ids st)
     \<and> inj (fe_fresh env) \<and> (\<forall>n \<ge> fs_next st. fe_fresh env n \<notin> set (folder_ids st))"

definition folder_key :: "folder_row \<Rightarrow> string \<times> string \<times> string option" where
  "folder_key r = (fo_id r, fo_identityId r, folder_path r)"

definition folder_keys :: "folders \<Rightarrow> (string \<times> string \<times> string option) set" where
  "folder_keys st = folder_key ` set (fs_rows st)"

definition path_keys :: "folders \<Rightarrow> (string \<times> string) list" where
  "path_keys st = List.map_filter (\<lambda>r. map_option (\<lambda>p. (fo_identityId r, p)) (folder_path r)) (fs_rows st)"

definition known_paths :: "string \<Rightarrow> folders \<Rightarrow> path_ids \<Rightarrow> bool" where
  "known_paths i st m \<longleftrightarrow> (\<forall>p x. map_of m p = Some x \<longrightarrow> (x, i, Some p) \<in> folder_keys st)"

text \<open>A later state: nothing forgotten, and the invariant kept.\<close>

definition grows :: "folder_env \<Rightarrow> folders \<Rightarrow> folders \<Rightarrow> bool" where
  "grows env st st' \<longleftrightarrow> (folder_ok env st \<longrightarrow> folder_ok env st') \<and> folder_keys st \<subseteq> folder_keys st'
     \<and> sy_mailboxId ` set (fs_sync st) \<subseteq> sy_mailboxId ` set (fs_sync st')"

lemma grows_refl: "grows env st st"
  by (simp add: grows_def)

lemma grows_trans: "grows env a b \<Longrightarrow> grows env b c \<Longrightarrow> grows env a c"
  unfolding grows_def by (meson subset_trans)

lemma known_paths_grows: "known_paths i st m \<Longrightarrow> grows env st st' \<Longrightarrow> known_paths i st' m"
  by (auto simp: known_paths_def grows_def)

lemma known_paths_update:
  "known_paths i st m \<Longrightarrow> (x, i, Some p) \<in> folder_keys st \<Longrightarrow> known_paths i st (AList.update p x m)"
  by (simp add: known_paths_def update_conv')

lemma findLocalByPath_Some:
  "findLocalByPath i p st = Some r \<Longrightarrow> r \<in> set (fs_rows st) \<and> (fo_id r, i, Some p) \<in> folder_keys st \<and> fo_identityId r = i \<and> folder_path r = Some p"
  unfolding findLocalByPath_def by (drule find_mem) (auto simp: folder_keys_def folder_key_def image_iff intro!: bexI [of _ r])

lemma findLocalByPath_None: "findLocalByPath i p st = None \<longleftrightarrow> (i, p) \<notin> set (path_keys st)"
  by (auto simp: findLocalByPath_def find_None_iff path_keys_def map_filter_def image_iff)

text \<open>An insert whose parent exists.\<close>

lemma insert_folder_grows:
  assumes ins: "insert_folder r st = Inr st'" and i: "fo_id r = fe_fresh env (fs_next st)"
    and p: "\<And>x. fo_parentId r = Some x \<Longrightarrow> x \<in> set (folder_ids st)"
  shows "grows env st st'" "folder_key r \<in> folder_keys st'" "fs_sync st' = fs_sync st" "fs_rows st' = fs_rows st @ [r]"
proof -
  have st': "st' = st\<lparr>fs_rows := fs_rows st @ [r], fs_next := Suc (fs_next st)\<rparr>" "indexes_hold (fs_rows st @ [r])"
    using ins by (auto simp: insert_folder_def set_rows_def split: if_splits)
  show "fs_rows st' = fs_rows st @ [r]" "fs_sync st' = fs_sync st" "folder_key r \<in> folder_keys st'"
    by (simp_all add: st' folder_keys_def)
  have "folder_ok env st'" if ok: "folder_ok env st"
  proof -
    have new: "fo_id r \<notin> set (folder_ids st)" using ok i by (auto simp: folder_ok_def)
    have "fe_fresh env n \<noteq> fo_id r" if "n \<ge> Suc (fs_next st)" for n
      using ok that i by (auto simp: folder_ok_def dest: injD)
    then show ?thesis using ok new st' p by (auto simp: folder_ok_def folder_ids_def)
  qed
  then show "grows env st st'" by (auto simp: grows_def folder_keys_def st')
qed

lemma insert_sync_grows:
  assumes ins: "insert_sync y st = Inr st'" and m: "sy_mailboxId y \<in> set (folder_ids st)"
  shows "grows env st st'" "find_sync (sy_mailboxId y) st' \<noteq> None" "fs_rows st' = fs_rows st"
proof -
  have st': "st' = st\<lparr>fs_sync := fs_sync st @ [y], fs_next := Suc (fs_next st)\<rparr>" "find_sync (sy_mailboxId y) st = None"
    using ins by (auto simp: insert_sync_def split: if_splits)
  then have new: "sy_mailboxId y \<notin> sy_mailboxId ` set (fs_sync st)" by (auto simp: find_sync_def find_None_iff)
  show "find_sync (sy_mailboxId y) st' \<noteq> None" by (simp add: st' find_sync_def find_snoc split: option.split)
  show "fs_rows st' = fs_rows st" by (simp add: st')
  show "grows env st st'" using new m by (auto simp: grows_def folder_ok_def folder_ids_def folder_keys_def st')
qed

text \<open>The parent chain exists when the call succeeds, and the call always returns.\<close>

definition chain_post :: "folder_env \<Rightarrow> string \<Rightarrow> string \<Rightarrow> folders \<Rightarrow> path_ids \<Rightarrow> chain_result \<Rightarrow> bool" where
  "chain_post env i path st m r \<longleftrightarrow>
     (case r of ((st', m'), res) \<Rightarrow> grows env st st' \<and> fs_sync st' = fs_sync st \<and> known_paths i st' m'
        \<and> (distinct (path_keys st) \<longrightarrow> distinct (path_keys st'))
        \<and> set (path_keys st') \<subseteq> set (path_keys st) \<union> {k. length (snd k) \<le> length path}
        \<and> (\<forall>x. res = Inr x \<longrightarrow> (if path = [] then x = None else \<exists>y. x = Some y \<and> (y, i, Some path) \<in> folder_keys st')))"

lemma folder_keys_ids: "(x, i, p) \<in> folder_keys st \<Longrightarrow> x \<in> set (folder_ids st)"
  by (auto simp: folder_keys_def folder_ids_def folder_key_def)

lemma create_parent_post:
  assumes r: "chain_post env (ac_id identity) (fst (splitParent path d)) st m r" and ne: "path \<noteq> []" "d \<noteq> []"
    and new: "findLocalByPath (ac_id identity) path st = None"
  shows "chain_post env (ac_id identity) path st m (create_parent env identity path d r)"
proof -
  obtain st1 m1 res where re: "r = ((st1, m1), res)" by (metis prod.collapse)
  have h: "grows env st st1" "fs_sync st1 = fs_sync st" "known_paths (ac_id identity) st1 m1"
    using r by (simp_all add: chain_post_def re)
  have short: "length (fst (splitParent path d)) < length path" by (rule splitParent_shorter [OF ne(2,1)])
  have u: "distinct (path_keys st) \<longrightarrow> distinct (path_keys st1)"
    "set (path_keys st1) \<subseteq> set (path_keys st) \<union> {k. length (snd k) \<le> length (fst (splitParent path d))}"
    using r by (simp_all add: chain_post_def re)
  have u': "set (path_keys st1) \<subseteq> set (path_keys st) \<union> {k. length (snd k) \<le> length path}" using u(2) short by fastforce
  have fresh: "(ac_id identity, path) \<notin> set (path_keys st1)" using u(2) short new by (force simp: findLocalByPath_None)
  show ?thesis
  proof (cases res)
    case (Inl e)
    then show ?thesis using h u(1) u' by (simp add: chain_post_def create_parent_def re)
  next
    case (Inr g)
    let ?row = "parent_row env identity path d g st1"
    have row: "fo_id ?row = fe_fresh env (fs_next st1)" "fo_parentId ?row = g" "folder_key ?row = (fo_id ?row, ac_id identity, Some path)"
      by (simp_all add: parent_row_def folder_key_def folder_path_def split: prod.split)
    have par: "x \<in> set (folder_ids st1)" if "fo_parentId ?row = Some x" for x
      using r that folder_keys_ids by (auto simp: chain_post_def re Inr row(2) split: if_splits)
    show ?thesis
    proof (cases "insert_folder ?row st1")
      case (Inl e)
      then show ?thesis using h u(1) u' Inr by (simp add: chain_post_def create_parent_def re Let_def)
    next
      case ins: (Inr st2)
      note g2 = insert_folder_grows [OF ins row(1) par]
      have "known_paths (ac_id identity) st2 (AList.update path (fo_id ?row) m1)"
        using known_paths_update [OF known_paths_grows [OF h(3) g2(1)]] g2(2) row(3) by simp
      moreover have "path_keys st2 = path_keys st1 @ [(ac_id identity, path)]"
        using g2(4) row(3) by (simp add: path_keys_def map_filter_def folder_key_def)
      ultimately show ?thesis using h(1,2) g2 ne row(3) Inr ins grows_trans [OF h(1) g2(1)] u(1) u' fresh
        by (simp add: chain_post_def create_parent_def re Let_def)
    qed
  qed
qed

lemma ensureParentChain_returns:
  assumes "d \<noteq> []" "known_paths (ac_id identity) st m"
  shows "\<exists>r. ensureParentChain env identity path d m st = Some r \<and> chain_post env (ac_id identity) path st m r"
  using assms(2)
proof (induction path rule: length_induct)
  case (1 path)
  consider "path = []" | "path \<noteq> []" "truthy (map_of m path)" | r where "path \<noteq> []" "\<not> truthy (map_of m path)" "findLocalByPath (ac_id identity) path st = Some r"
    | "path \<noteq> []" "\<not> truthy (map_of m path)" "findLocalByPath (ac_id identity) path st = None" by blast
  then show ?case
  proof cases
    case 1
    then show ?thesis using "1.prems" by (simp add: ensureParentChain.simps chain_post_def grows_refl)
  next
    case 2
    then obtain x where "map_of m path = Some x" by (cases "map_of m path") auto
    then show ?thesis using 2 "1.prems"
      by (subst ensureParentChain.simps) (auto simp: chain_post_def grows_refl known_paths_def)
  next
    case (3 r)
    then show ?thesis using "1.prems" findLocalByPath_Some [OF 3(3)] known_paths_update
      by (subst ensureParentChain.simps) (auto simp: chain_post_def grows_refl)
  next
    case 4
    obtain r where r: "ensureParentChain env identity (fst (splitParent path d)) d m st = Some r"
      "chain_post env (ac_id identity) (fst (splitParent path d)) st m r"
      using "1.IH" splitParent_shorter [OF assms(1) 4(1)] "1.prems" by blast
    then show ?thesis using 4 create_parent_post [OF r(2) 4(1) assms(1) 4(3)] by (subst ensureParentChain.simps) simp
  qed
qed

text \<open>A box is in the tables: its folder is there, and is synchronised when it can be selected.\<close>

definition listed :: "account_row \<Rightarrow> folders \<Rightarrow> imap_listed \<Rightarrow> bool" where
  "listed identity st mbx \<longleftrightarrow> (\<exists>y. (y, ac_id identity, Some (ib_path mbx)) \<in> folder_keys st
     \<and> (box_selectable mbx \<longrightarrow> y \<in> sy_mailboxId ` set (fs_sync st)))"

lemma listed_grows: "listed identity st mbx \<Longrightarrow> grows env st st' \<Longrightarrow> listed identity st' mbx"
  unfolding listed_def grows_def by blast

definition box_post :: "folder_env \<Rightarrow> account_row \<Rightarrow> folders \<Rightarrow> (folders \<times> path_ids) \<times> folder_error option \<Rightarrow> bool" where
  "box_post env identity st r \<longleftrightarrow>
     (case r of ((st', m'), e) \<Rightarrow> grows env st st' \<and> known_paths (ac_id identity) st' m'
        \<and> (distinct (path_keys st) \<longrightarrow> distinct (path_keys st')))"

lemma find_sync_mem: "find_sync x st \<noteq> None \<longleftrightarrow> x \<in> sy_mailboxId ` set (fs_sync st)"
  by (auto simp: find_sync_def find_None_iff image_iff)

lemma new_sync_mailbox [simp]: "sy_mailboxId (new_sync env i x box st) = x"
  by (simp add: new_sync_def)

lemma start_sync_post:
  assumes "start_sync env identity mbx x st = (st', e)" "x \<in> set (folder_ids st)"
  shows "grows env st st'" "fs_rows st' = fs_rows st"
    "e = None \<Longrightarrow> box_selectable mbx \<Longrightarrow> x \<in> sy_mailboxId ` set (fs_sync st')"
proof -
  have "grows env st st' \<and> fs_rows st' = fs_rows st \<and> (e = None \<longrightarrow> box_selectable mbx \<longrightarrow> find_sync x st' \<noteq> None)"
  proof (cases "box_selectable mbx")
    case False
    then show ?thesis using assms(1) by (simp add: start_sync_def grows_refl)
  next
    case True
    show ?thesis
    proof (cases "fe_open env (ib_path mbx)")
      case None
      then show ?thesis using assms(1) True by (auto simp: start_sync_def grows_refl)
    next
      case (Some box)
      let ?y = "new_sync env (ac_id identity) x box st"
      show ?thesis
      proof (cases "insert_sync ?y st")
        case (Inl err)
        then show ?thesis using assms(1) True Some by (auto simp: start_sync_def grows_refl)
      next
        case (Inr st1)
        then have "st1 = st'" "e = None" using assms(1) True Some by (auto simp: start_sync_def)
        then show ?thesis using insert_sync_grows [OF Inr] assms(2) by auto
      qed
    qed
  qed
  then show "grows env st st'" "fs_rows st' = fs_rows st"
    "e = None \<Longrightarrow> box_selectable mbx \<Longrightarrow> x \<in> sy_mailboxId ` set (fs_sync st')"
    using find_sync_mem by blast+
qed

lemma update_folder_post:
  assumes up: "update_folder env mbx isGmail parentId (fo_id r) st = Inr st'"
    and par: "\<And>x. parentId = Some x \<Longrightarrow> x \<in> set (folder_ids st)"
    and r: "r \<in> set (fs_rows st)" "folder_path r = Some (ib_path mbx)" and ok: "distinct (folder_ids st)"
  shows "grows env st st'" "path_keys st' = path_keys st" "fs_sync st' = fs_sync st" "folder_keys st' = folder_keys st"
    "folder_ids st' = folder_ids st"
proof -
  let ?f = "\<lambda>r. r\<lparr>fo_parentId := parentId, fo_name := snd (box_parent mbx isGmail),
              fo_slug := Some (fe_slugify env (toLowerCase (ib_path mbx))), fo_imap := Some (box_info mbx isGmail)\<rparr>"
  have st': "st' = st\<lparr>fs_rows := update_where (\<lambda>q. fo_id q = fo_id r) ?f (fs_rows st)\<rparr>"
    "indexes_hold (update_where (\<lambda>q. fo_id q = fo_id r) ?f (fs_rows st))"
    using up by (auto simp: update_folder_def set_rows_def split: if_splits)
  have same: "q = r" if "q \<in> set (fs_rows st)" "fo_id q = fo_id r" for q
    using ok that r(1) by (auto simp: folder_ids_def distinct_map dest: inj_onD)
  have key: "folder_key (if fo_id q = fo_id r then ?f q else q) = folder_key q" if "q \<in> set (fs_rows st)" for q
    using same [OF that] r(2) by (auto simp: folder_key_def folder_path_def box_info_def)
  have keys: "map folder_key (fs_rows st') = map folder_key (fs_rows st)"
    using key by (simp add: st' update_where_def)
  then show fk: "folder_keys st' = folder_keys st" unfolding folder_keys_def by (metis set_map)
  show ids: "folder_ids st' = folder_ids st" using arg_cong [OF keys, of "map fst"] by (simp add: folder_ids_def folder_key_def o_def)
  have pk: "path_keys s = List.map_filter (\<lambda>(x, i, p). map_option (\<lambda>q. (i, q)) p) (map folder_key (fs_rows s))" for s
    by (simp add: path_keys_def map_filter_map_filter [symmetric] map_filter_def folder_key_def o_def filter_map)
  show "path_keys st' = path_keys st" unfolding pk keys ..
  show "fs_sync st' = fs_sync st" by (simp add: st')
  have "folder_ok env st'" if "folder_ok env st"
  proof -
    have "fo_parentId q = Some p \<Longrightarrow> p \<in> set (folder_ids st)" if "q \<in> set (fs_rows st')" for q p
      using that \<open>folder_ok env st\<close> par by (auto simp: st' update_where_def folder_ok_def split: if_splits)
    then show ?thesis using that st' ids by (auto simp: folder_ok_def)
  qed
  then show "grows env st st'" using fk by (simp add: grows_def st')
qed

lemma place_box_post:
  assumes k: "known_paths (ac_id identity) st m" and ok: "distinct (folder_ids st)"
    and par: "\<And>x. parentId = Some x \<Longrightarrow> x \<in> set (folder_ids st)"
    and run: "place_box env identity mbx isGmail parentId (st, m) = ((st', m'), e)"
  shows "box_post env identity st ((st', m'), e)" "e = None \<Longrightarrow> listed identity st' mbx"
proof -
  have "box_post env identity st ((st', m'), e) \<and> (e = None \<longrightarrow> listed identity st' mbx)"
  proof (cases "findLocalByPath (ac_id identity) (ib_path mbx) st")
    case None
    let ?row = "box_row env identity mbx isGmail parentId st"
    have row: "fo_id ?row = fe_fresh env (fs_next st)" "fo_parentId ?row = parentId"
      "folder_key ?row = (fo_id ?row, ac_id identity, Some (ib_path mbx))"
      by (simp_all add: box_row_def folder_key_def folder_path_def box_info_def)
    show ?thesis
    proof (cases "insert_folder ?row st")
      case (Inl err)
      then show ?thesis using run None k by (auto simp: place_box_def box_post_def grows_refl)
    next
      case (Inr st1)
      note g = insert_folder_grows [OF Inr row(1), unfolded row(2), OF par]
      obtain st2 e2 where y: "start_sync env identity mbx (fo_id ?row) st1 = (st2, e2)" by fastforce
      have in1: "fo_id ?row \<in> set (folder_ids st1)" using g(4) by (simp add: folder_ids_def)
      note y2 = start_sync_post [OF y in1]
      have r: "st' = st2" "m' = AList.update (ib_path mbx) (fo_id ?row) m" "e = e2"
        using run None Inr y by (auto simp: place_box_def Let_def)
      have key2: "(fo_id ?row, ac_id identity, Some (ib_path mbx)) \<in> folder_keys st2"
        using g(2) row(3) y2(2) by (simp add: folder_keys_def)
      have gg: "grows env st st2" by (rule grows_trans [OF g(1) y2(1)])
      moreover have "known_paths (ac_id identity) st2 m'"
        unfolding r(2) by (rule known_paths_update [OF known_paths_grows [OF k gg] key2])
      moreover have "path_keys st2 = path_keys st @ [(ac_id identity, ib_path mbx)]"
        using g(4) y2(2) row(3) by (simp add: path_keys_def map_filter_def folder_key_def)
      moreover have "e = None \<longrightarrow> listed identity st' mbx" using key2 y2(3) r by (auto simp: listed_def)
      ultimately show ?thesis using None r by (simp add: box_post_def findLocalByPath_None)
    qed
  next
    case (Some x)
    note f = findLocalByPath_Some [OF Some]
    show ?thesis
    proof (cases "update_folder env mbx isGmail parentId (fo_id x) st")
      case (Inl err)
      then show ?thesis using run Some k by (auto simp: place_box_def box_post_def grows_refl)
    next
      case (Inr st1)
      note g = update_folder_post [OF Inr par _ _ ok]
      have x: "x \<in> set (fs_rows st)" "folder_path x = Some (ib_path mbx)" using f by simp_all
      have key1: "(fo_id x, ac_id identity, Some (ib_path mbx)) \<in> folder_keys st1" using g(4) [OF _ x] f by simp
      show ?thesis
      proof (cases "find_sync (fo_id x) st1 \<noteq> None")
        case True
        then have "st' = st1" "m' = m" "e = None" using run Some Inr by (auto simp: place_box_def)
        moreover have "listed identity st1 mbx" using key1 True find_sync_mem unfolding listed_def by blast
        ultimately show ?thesis using g(1,2) [OF _ x] known_paths_grows [OF k g(1) [OF _ x]] by (simp add: box_post_def)
      next
        case False
        obtain st2 e2 where y: "start_sync env identity mbx (fo_id x) st1 = (st2, e2)" by fastforce
        have in1: "fo_id x \<in> set (folder_ids st1)" using key1 by (rule folder_keys_ids)
        note y2 = start_sync_post [OF y in1]
        have r: "st' = st2" "m' = m" "e = e2" using run Some Inr False y by (auto simp: place_box_def)
        have gg: "grows env st st2" by (rule grows_trans [OF g(1) [OF _ x] y2(1)])
        have "(fo_id x, ac_id identity, Some (ib_path mbx)) \<in> folder_keys st2" using key1 y2(2) by (simp add: folder_keys_def)
        moreover have "path_keys st2 = path_keys st" using g(2) [OF _ x] y2(2) by (simp add: path_keys_def)
        ultimately show ?thesis using gg known_paths_grows [OF k gg] y2(3) r by (auto simp: box_post_def listed_def)
      qed
    qed
  qed
  then show "box_post env identity st ((st', m'), e)" "e = None \<Longrightarrow> listed identity st' mbx" by blast+
qed

lemma box_delimiter_ne: "box_delimiter mbx \<noteq> []"
  by (cases "ib_delimiter mbx") (auto simp: box_delimiter_def)

lemma discover_box_returns:
  assumes "known_paths (ac_id identity) st m" "folder_ok env st"
  obtains st' m' e where "discover_box env identity isGmail mbx (st, m) = Some ((st', m'), e)"
    "box_post env identity st ((st', m'), e)" "e = None \<Longrightarrow> listed identity st' mbx"
proof -
  let ?path = "fst (box_parent mbx isGmail)"
  obtain st1 m1 res where c: "ensureParentChain env identity ?path (box_delimiter mbx) m st = Some ((st1, m1), res)"
    "chain_post env (ac_id identity) ?path st m ((st1, m1), res)"
    using ensureParentChain_returns [OF box_delimiter_ne assms(1)] by (metis prod.collapse)
  have h: "grows env st st1" "known_paths (ac_id identity) st1 m1" "distinct (path_keys st) \<longrightarrow> distinct (path_keys st1)"
    using c(2) by (simp_all add: chain_post_def)
  show thesis
  proof (cases res)
    case (Inl err)
    then show thesis using c(1) h by (intro that [of st1 m1 "Some err"]) (simp_all add: discover_box_def box_post_def)
  next
    case (Inr x)
    obtain st2 m2 e where p: "place_box env identity mbx isGmail x (st1, m1) = ((st2, m2), e)" by (metis prod.collapse)
    have par: "y \<in> set (folder_ids st1)" if "x = Some y" for y
      using c(2) that folder_keys_ids by (auto simp: chain_post_def Inr split: if_splits)
    have ok1: "distinct (folder_ids st1)" using h(1) assms(2) by (simp add: grows_def folder_ok_def)
    note pp = place_box_post [OF h(2) ok1 par p]
    show thesis
      by (rule that [of st2 m2 e]) (use c(1) Inr p pp h grows_trans [OF h(1)] in \<open>auto simp: discover_box_def box_post_def\<close>)
  qed
qed

lemma discover_loop_returns:
  assumes "known_paths (ac_id identity) st m" "folder_ok env st"
  shows "\<exists>st' m' e. discover_loop env identity isGmail boxes (st, m) = Some ((st', m'), e)
    \<and> box_post env identity st ((st', m'), e) \<and> (e = None \<longrightarrow> (\<forall>mbx \<in> set boxes. listed identity st' mbx))"
  using assms
proof (induction boxes arbitrary: st m)
  case Nil
  then show ?case by (simp add: box_post_def grows_refl)
next
  case (Cons mbx boxes)
  obtain st1 m1 e1 where b: "discover_box env identity isGmail mbx (st, m) = Some ((st1, m1), e1)"
    "box_post env identity st ((st1, m1), e1)" "e1 = None \<Longrightarrow> listed identity st1 mbx"
    using discover_box_returns [OF Cons.prems] by metis
  show ?case
  proof (cases e1)
    case (Some err)
    then show ?thesis using b by simp
  next
    case None
    have h: "grows env st st1" "known_paths (ac_id identity) st1 m1" "distinct (path_keys st) \<longrightarrow> distinct (path_keys st1)"
      using b(2) by (simp_all add: box_post_def)
    have ok1: "folder_ok env st1" using h(1) Cons.prems(2) by (simp add: grows_def)
    obtain st2 m2 e where l: "discover_loop env identity isGmail boxes (st1, m1) = Some ((st2, m2), e)"
      "box_post env identity st1 ((st2, m2), e)" "e = None \<longrightarrow> (\<forall>mbx \<in> set boxes. listed identity st2 mbx)"
      using Cons.IH [OF h(2) ok1] by blast
    have g2: "grows env st1 st2" using l(2) by (simp add: box_post_def)
    show ?thesis
    proof (intro exI conjI)
      show "discover_loop env identity isGmail (mbx # boxes) (st, m) = Some ((st2, m2), e)" using b(1) None l(1) by simp
      show "box_post env identity st ((st2, m2), e)" using l(2) h grows_trans [OF h(1) g2] by (simp add: box_post_def)
      show "e = None \<longrightarrow> (\<forall>b \<in> set (mbx # boxes). listed identity st2 b)"
        using l(3) listed_grows [OF b(3) [OF None] g2] by simp
    qed
  qed
qed

lemma initial_paths_known: "known_paths i st (initial_paths i st)"
proof -
  let ?f = "\<lambda>m r. if truthy (folder_path r) then AList.update (nullish (folder_path r) []) (fo_id r) m else m"
  have "known_paths i st (foldl ?f m rows)" if "known_paths i st m" "\<forall>r \<in> set rows. r \<in> set (fs_rows st) \<and> fo_identityId r = i" for m rows
    using that
  proof (induction rows arbitrary: m)
    case (Cons r rows)
    have "known_paths i st (?f m r)"
    proof (cases "folder_path r")
      case (Some p)
      have "(fo_id r, i, Some p) \<in> folder_keys st"
        using Cons.prems(2) Some by (auto simp: folder_keys_def folder_key_def image_iff intro!: bexI [of _ r])
      then show ?thesis using Cons.prems(1) known_paths_update Some by simp
    qed (use Cons.prems(1) in simp)
    then show ?case using Cons by simp
  qed simp
  then show ?thesis by (simp add: initial_paths_def known_paths_def [of i st "[]"])
qed

lemma mark_vanished_post:
  "grows env st (mark_vanished i touched st)" "path_keys (mark_vanished i touched st) = path_keys st"
proof -
  let ?st = "mark_vanished i touched st"
  let ?P = "\<lambda>r. fo_identityId r = i \<and> truthy (folder_path r) \<and> nullish (folder_path r) [] \<notin> set touched"
  let ?f = "\<lambda>r. r\<lparr>fo_imap := map_option (\<lambda>i. i\<lparr>ii_selectable := False\<rparr>) (fo_imap r)\<rparr>"
  have rows: "fs_rows ?st = update_where ?P ?f (fs_rows st)" "fs_sync ?st = fs_sync st" "fs_next ?st = fs_next st"
    by (simp_all add: mark_vanished_def)
  have proj: "map g (fs_rows ?st) = map g (fs_rows st)" if "\<And>r. g (?f r) = g r" for g :: "folder_row \<Rightarrow> 'x"
    unfolding rows by (rule map_update_where) (rule that)
  have path: "folder_path (?f r) = folder_path r" for r by (cases "fo_imap r") (simp_all add: folder_path_def)
  have keys: "map folder_key (fs_rows ?st) = map folder_key (fs_rows st)" by (rule proj) (simp add: folder_key_def path)
  have idx: "map (\<lambda>r. (fo_identityId r, fo_kind r, fo_slug r, fo_isDefault r)) (fs_rows ?st)
      = map (\<lambda>r. (fo_identityId r, fo_kind r, fo_slug r, fo_isDefault r)) (fs_rows st)" by (rule proj) simp
  have dk: "default_keys rs = map (\<lambda>(i, k, s, d). (i, k)) (filter (\<lambda>(i, k, s, d). d) (map (\<lambda>r. (fo_identityId r, fo_kind r, fo_slug r, fo_isDefault r)) rs))"
    "slug_keys rs = List.map_filter (\<lambda>(i, k, s, d). map_option (\<lambda>x. (i, x)) s) (map (\<lambda>r. (fo_identityId r, fo_kind r, fo_slug r, fo_isDefault r)) rs)" for rs
    by (simp_all add: default_keys_def slug_keys_def filter_map o_def map_filter_def case_prod_beta)
  have ix: "indexes_hold (fs_rows ?st) = indexes_hold (fs_rows st)" unfolding indexes_hold_def dk idx ..
  have ids: "folder_ids ?st = folder_ids st" unfolding folder_ids_def by (rule proj) simp
  have "map fo_parentId (fs_rows ?st) = map fo_parentId (fs_rows st)" by (rule proj) simp
  then have par: "fo_parentId ` set (fs_rows ?st) = fo_parentId ` set (fs_rows st)" by (metis set_map)
  have "folder_ok env ?st" if "folder_ok env st"
  proof -
    have old: "Some p \<in> fo_parentId ` set (fs_rows st) \<Longrightarrow> p \<in> set (folder_ids st)" for p
      using \<open>folder_ok env st\<close> by (auto simp: folder_ok_def)
    have "fo_parentId r = Some p \<Longrightarrow> p \<in> set (folder_ids st)" if "r \<in> set (fs_rows ?st)" for r p
      using imageI [OF that, of fo_parentId] unfolding par by (intro old) simp
    then show ?thesis using that ix ids rows by (auto simp: folder_ok_def)
  qed
  moreover have "folder_keys ?st = folder_keys st" unfolding folder_keys_def by (metis keys set_map)
  ultimately show "grows env st ?st" using rows by (simp add: grows_def)
  have pk: "path_keys s = List.map_filter (\<lambda>(x, i, p). map_option (\<lambda>q. (i, q)) p) (map folder_key (fs_rows s))" for s
    by (simp add: path_keys_def map_filter_def folder_key_def o_def filter_map)
  show "path_keys ?st = path_keys st" unfolding pk keys ..
qed

lemma try_trash_grows: "grows env st (fst (try_trash env identity name st))"
proof -
  let ?row = "trash_row env identity name (Some name) (fe_slugify env name) True st"
  have row: "fo_id ?row = fe_fresh env (fs_next st)" "fo_parentId ?row = None" by (simp_all add: trash_row_def)
  show ?thesis
  proof (cases "fe_create env name")
    case True
    show ?thesis
    proof (cases "fe_open env name")
      case (Some box)
      show ?thesis
      proof (cases "insert_folder ?row st")
        case (Inr st1)
        note g = insert_folder_grows [OF Inr row(1), unfolded row(2), simplified]
        let ?y = "new_sync env (ac_id identity) (fo_id ?row) box st1"
        have m: "sy_mailboxId ?y \<in> set (folder_ids st1)" using g(4) by (simp add: folder_ids_def)
        show ?thesis
          by (cases "insert_sync ?y st1")
             (use True Some Inr g(1) grows_trans [OF g(1) insert_sync_grows(1) [OF _ m]] in \<open>auto simp: try_trash_def Let_def\<close>)
      qed (simp add: try_trash_def True Some grows_refl)
    qed (simp add: try_trash_def True grows_refl)
  qed (simp add: try_trash_def grows_refl)
qed

lemma ensureTrashFolder_grows: "grows env st (fst (ensureTrashFolder env identity st))"
proof -
  obtain st1 d1 where t1: "try_trash env identity ''Trash'' st = (st1, d1)" by fastforce
  obtain st2 d2 where t2: "try_trash env identity ''Deleted Items'' st1 = (st2, d2)" by fastforce
  have g1: "grows env st st1" using try_trash_grows [of env st identity "''Trash''"] t1 by simp
  have g2: "grows env st st2" using grows_trans [OF g1] try_trash_grows [of env st1 identity "''Deleted Items''"] t2 by simp
  let ?row = "trash_row env identity ''Trash'' None ''trash'' False st2"
  have row: "fo_id ?row = fe_fresh env (fs_next st2)" "fo_parentId ?row = None" by (simp_all add: trash_row_def)
  have "grows env st st3" if "insert_folder ?row st2 = Inr st3" for st3
    using grows_trans [OF g2] insert_folder_grows(1) [OF that row(1)] row(2) by simp
  then show ?thesis using g1 g2 grows_refl
    by (auto simp: ensureTrashFolder_def t1 t2 Let_def split: sum.split)
qed

text \<open>The server lists a folder that serves as trash.\<close>

definition has_trash :: "folder_env \<Rightarrow> bool" where
  "has_trash env \<longleftrightarrow> list_ex (\<lambda>m. ib_specialUse m = Some (backslash # ''Trash'')) (fe_list env)
     \<or> list_ex (\<lambda>m. isTrashName (ib_path m) (ib_name m)) (fe_list env)"

lemma replace_all_char: "replace_all [c] s = map (\<lambda>x. if x = c then CHR '' '' else x) s"
proof (induction s)
  case (Cons a s)
  then show ?case by (subst replace_all.simps) auto
qed (simp add: replace_all.simps)

lemma last_index_str_char: "last_index_str [c] s = last_index_of c s"
  by (induction s) (auto split: option.splits)

lemma sanitizeName_safe: "c \<noteq> CHR '' '' \<Longrightarrow> c \<notin> set (sanitizeName name [c])"
  by (auto simp: sanitizeName_def replace_all_char)

lemma store_folder_correct:
  assumes ok: "folder_ok env st" and run: "store_folder env now r box st = (st', res)" and i: "fo_id r = fe_fresh env (fs_next st)"
  shows "folder_ok env st' \<and> (case res of Inl e \<Rightarrow> st' = st
     | Inr i \<Rightarrow> folder_ids st' = folder_ids st @ [i] \<and> find_sync i st' \<noteq> None \<and> (\<forall>p. fo_parentId r = Some p \<longrightarrow> p \<in> set (folder_ids st)))"
proof (cases "(case fo_parentId r of None \<Rightarrow> False | Some p \<Rightarrow> p \<notin> set (map fo_id (fs_rows st)))")
  case True
  then show ?thesis using ok run by (auto simp: store_folder_def)
next
  case False
  then have par: "x \<in> set (folder_ids st)" if "fo_parentId r = Some x" for x using that by (simp add: folder_ids_def)
  show ?thesis
  proof (cases "insert_folder r st")
    case (Inl e)
    then show ?thesis using ok run False by (auto simp: store_folder_def)
  next
    case (Inr st1)
    note g = insert_folder_grows [OF Inr i par]
    define y where "y = (new_sync env (fo_identityId r) (fo_id r) box st1)\<lparr>sy_phase := IDLE, sy_syncedAt := Some now\<rparr>"
    have m: "sy_mailboxId y = fo_id r" by (simp add: y_def)
    have "fo_id r \<notin> sy_mailboxId ` set (fs_sync st)" using ok i by (auto simp: folder_ok_def)
    then have "find_sync (fo_id r) st1 = None" using g(3) find_sync_mem [of "fo_id r" st1] by simp
    then obtain st2 where y: "insert_sync y st1 = Inr st2" using m by (simp add: insert_sync_def)
    have in1: "sy_mailboxId y \<in> set (folder_ids st1)" using g(4) m by (simp add: folder_ids_def)
    note g2 = insert_sync_grows [OF y in1]
    have "st' = st2 \<and> res = Inr (fo_id r)" using run False Inr y by (auto simp: store_folder_def Let_def y_def)
    moreover have "folder_ok env st2" using grows_trans [OF g(1) g2(1)] ok by (simp add: grows_def)
    moreover have "folder_ids st2 = folder_ids st @ [fo_id r]" using g(4) g2(3) by (simp add: folder_ids_def)
    ultimately show ?thesis using g2(2) m par by auto
  qed
qed

lemma addNewFolder_result:
  assumes "folder_ok env st" "addNewFolder env create now d st = (st', res)"
  shows "folder_ok env st'
     \<and> (case res of
          Inl e \<Rightarrow> st' = st
        | Inr i \<Rightarrow> folder_ids st' = folder_ids st @ [i] \<and> find_sync i st' \<noteq> None \<and> (nf_parentId d = None \<longrightarrow> ''undefined'' \<in> set (folder_ids st)))"
proof -
  obtain parentPath delimiter where pl: "new_folder_place env d st = (parentPath, delimiter)" by fastforce
  consider e where "st' = st" "res = Inl e"
    | name path box where "store_folder env now (new_folder_row env d parentPath delimiter name path st) box st = (st', res)"
    using assms(2) by (cases "fe_open env (if parentPath \<noteq> [] then parentPath @ delimiter @ sanitizeName (nullish (nf_name d) []) delimiter
        else sanitizeName (nullish (nf_name d) []) delimiter)") (auto simp: addNewFolder_def Let_def pl split: if_splits)
  then show ?thesis
  proof cases
    case 1
    then show ?thesis using assms(1) by simp
  next
    case 2
    note r = store_folder_correct [OF assms(1) 2]
    have "parent_column d = Some ''undefined''" if "nf_parentId d = None" unfolding parent_column_def that by code_simp
    then show ?thesis using r by (auto simp: new_folder_row_def split: sum.splits)
  qed
qed

lemma map_filter_filter_distinct:
  assumes "distinct (List.map_filter f xs)"
  shows "distinct (List.map_filter f (filter P xs))"
proof -
  have "List.map_filter f (filter P xs) = map (the \<circ> f) (filter P (filter (\<lambda>x. f x \<noteq> None) xs))"
    by (simp add: map_filter_def conj_commute)
  then show ?thesis using assms by (simp only: map_filter_def distinct_map_filter)
qed

lemma indexes_hold_filter: "indexes_hold rows \<Longrightarrow> indexes_hold (filter P rows)"
proof -
  have d: "default_keys (filter P rows) = map (\<lambda>r. (fo_identityId r, fo_kind r)) (filter P (filter fo_isDefault rows))"
    by (simp add: default_keys_def conj_commute)
  assume i: "indexes_hold rows"
  then have "distinct (map (\<lambda>r. (fo_identityId r, fo_kind r)) (filter fo_isDefault rows))"
    by (simp add: indexes_hold_def default_keys_def)
  then have "distinct (default_keys (filter P rows))" unfolding d by (rule distinct_map_filter)
  moreover have "distinct (slug_keys (filter P rows))"
    using i unfolding indexes_hold_def slug_keys_def by (blast intro: map_filter_filter_distinct)
  ultimately show ?thesis by (simp add: indexes_hold_def)
qed

text \<open>Samples, for the witnesses.\<close>

definition sample_listed :: "string \<Rightarrow> string \<Rightarrow> imap_listed" where
  "sample_listed path name =
     \<lparr>ib_path = path, ib_name = name, ib_delimiter = Some ''/'', ib_flags = None, ib_specialUse = None, ib_listed = True\<rparr>"

definition sample_folder_env :: "imap_listed list \<Rightarrow> folder_env" where
  "sample_folder_env boxes =
     \<lparr>fe_fresh = (\<lambda>n. replicate n CHR ''x''), fe_slugify = (\<lambda>s. s), fe_list = boxes, fe_open = (\<lambda>_. Some (Some 5, 1)), fe_create = (\<lambda>_. True)\<rparr>"

definition sample_account :: account_row where
  "sample_account = \<lparr>ac_id = ''i'', ac_ownerId = ''o'', ac_kind = ''email'', ac_smtpAccountId = Some ''s'', ac_dailyQuota = JUndef\<rparr>"

definition no_folders :: folders where
  "no_folders = \<lparr>fs_rows = [], fs_sync = [], fs_next = 1\<rparr>"

lemma no_folders_ok: "folder_ok (sample_folder_env boxes) no_folders"
  by (auto simp: folder_ok_def no_folders_def folder_ids_def indexes_hold_def default_keys_def slug_keys_def map_filter_def
      sample_folder_env_def inj_def dest: arg_cong [where f = length])

subsection \<open>Properties\<close>

text \<open>
  C28. The discovery of folders returns, and keeps the tables well formed whether it succeeds or stops at
  an error: ids, slugs, default folders and synchronised folders stay unique, parents exist. Folders known
  before keep their id and path. When it succeeds, every box that is to be synchronised has a folder of the
  identity with its path, and one that can be selected has a row of \<open>mailbox_sync\<close>; and if the server has a
  trash folder, no path is used twice, provided none was before.\<close>

theorem discoverMailboxes_correct:
  assumes "folder_ok env st"
  shows "\<exists>st' e. discoverMailboxes env identity st = Some (st', e) \<and> folder_ok env st' \<and> folder_keys st \<subseteq> folder_keys st'
     \<and> (e = None \<longrightarrow> (\<forall>mbx \<in> set (synced_boxes env). listed identity st' mbx))
     \<and> (has_trash env \<and> distinct (path_keys st) \<longrightarrow> distinct (path_keys st'))"
proof -
  obtain st1 m1 e1 where l: "discover_loop env identity (isGmailAccountFromBoxes (fe_list env)) (synced_boxes env)
      (st, initial_paths (ac_id identity) st) = Some ((st1, m1), e1)"
    "box_post env identity st ((st1, m1), e1)" "e1 = None \<longrightarrow> (\<forall>mbx \<in> set (synced_boxes env). listed identity st1 mbx)"
    using discover_loop_returns [OF initial_paths_known assms] by blast
  have g1: "grows env st st1" "distinct (path_keys st) \<longrightarrow> distinct (path_keys st1)" using l(2) by (simp_all add: box_post_def)
  show ?thesis
  proof (cases e1)
    case (Some err)
    then show ?thesis using l(1) g1 assms by (simp add: discoverMailboxes_def grows_def)
  next
    case None
    let ?v = "mark_vanished (ac_id identity) (map ib_path (synced_boxes env)) st1"
    obtain st2 e2 where t: "ensureTrashFolder env identity ?v = (st2, e2)" by fastforce
    have g2: "grows env st1 st2"
      using grows_trans [OF mark_vanished_post(1) ensureTrashFolder_grows] t by (metis fst_conv)
    have "st2 = ?v" if "has_trash env" using t that by (auto simp: ensureTrashFolder_def has_trash_def)
    then have "distinct (path_keys st2)" if "has_trash env" "distinct (path_keys st)"
      using that g1(2) mark_vanished_post(2) [of "ac_id identity" _ st1] by simp
    moreover have "discoverMailboxes env identity st = Some (st2, e2)" using l(1) None t by (simp add: discoverMailboxes_def)
    moreover have "folder_ok env st2" "folder_keys st \<subseteq> folder_keys st2"
      using grows_trans [OF g1(1) g2] assms by (simp_all add: grows_def)
    ultimately show ?thesis using l(3) None listed_grows [OF _ g2] by auto
  qed
qed

theorem discoverMailboxes_correct_witness:
  "\<exists>st'. discoverMailboxes (sample_folder_env [sample_listed ''INBOX'' ''INBOX'', sample_listed ''Trash'' ''Trash'', sample_listed ''Work/2024'' ''2024''])
       sample_account no_folders = Some (st', None)
     \<and> map fo_name (fs_rows st') = [''INBOX'', ''Trash'', ''Work'', ''2024''] \<and> distinct (path_keys st')
     \<and> listed sample_account st' (sample_listed ''Work/2024'' ''2024'')"
proof -
  let ?env = "sample_folder_env [sample_listed ''INBOX'' ''INBOX'', sample_listed ''Trash'' ''Trash'', sample_listed ''Work/2024'' ''2024'']"
  obtain st' e where r: "discoverMailboxes ?env sample_account no_folders = Some (st', e)"
    "e = None \<longrightarrow> (\<forall>mbx \<in> set (synced_boxes ?env). listed sample_account st' mbx)"
    "has_trash ?env \<and> distinct (path_keys no_folders) \<longrightarrow> distinct (path_keys st')"
    using discoverMailboxes_correct [OF no_folders_ok] by blast
  have "map_option (\<lambda>(s, e). (map fo_name (fs_rows s), e)) (discoverMailboxes ?env sample_account no_folders)
      = Some ([''INBOX'', ''Trash'', ''Work'', ''2024''], None)" by code_simp
  moreover have "has_trash ?env \<and> distinct (path_keys no_folders)" "sample_listed ''Work/2024'' ''2024'' \<in> set (synced_boxes ?env)"
    by code_simp+
  ultimately show ?thesis using r by auto
qed

text \<open>
  Two folders with the same last name cannot both be discovered: a new box whose name, in lower case,
  has the slug of a folder of the identity is refused by the unique index, whatever its path, and with it
  the whole discovery stops. For a path with a parent the slug is made from the name alone.\<close>

theorem same_name_conflict:
  assumes "findLocalByPath (ac_id identity) (ib_path mbx) st = None" "r \<in> set (fs_rows st)" "fo_identityId r = ac_id identity"
    "fo_slug r = Some (fe_slugify env (toLowerCase (ib_name mbx)))"
  shows "place_box env identity mbx isGmail parentId (st, m) = ((st, m), Some FolderConflict)"
proof -
  have "(ac_id identity, fe_slugify env (toLowerCase (ib_name mbx))) \<in> set (slug_keys (fs_rows st))"
    using assms(2-4) by (force simp: slug_keys_def map_filter_def image_iff)
  then have "\<not> indexes_hold (fs_rows st @ [box_row env identity mbx isGmail parentId st])"
    by (simp add: indexes_hold_def slug_keys_def map_filter_def box_row_def)
  then show ?thesis using assms(1) by (simp add: place_box_def insert_folder_def set_rows_def Let_def)
qed

theorem same_name_conflict_witness:
  "\<exists>st. map fo_name (fs_rows st) = [''A'', ''x''] \<and>
     place_box (sample_folder_env []) sample_account (sample_listed ''B/x'' ''x'') False None (st, []) = ((st, []), Some FolderConflict)"
proof -
  let ?env = "sample_folder_env [sample_listed ''A/x'' ''x'', sample_listed ''Trash'' ''Trash'']"
  define st where "st = fst (fst (the (discover_box ?env sample_account False (sample_listed ''A/x'' ''x'') (no_folders, []))))"
  define r where "r = fs_rows st ! 1"
  have "findLocalByPath (ac_id sample_account) (ib_path (sample_listed ''B/x'' ''x'')) st = None" unfolding st_def by code_simp
  moreover have "r \<in> set (fs_rows st)" unfolding r_def by (rule nth_mem) (unfold st_def, code_simp)
  moreover have "fo_identityId r = ac_id sample_account" unfolding r_def st_def by code_simp
  moreover have "fo_slug r = Some (fe_slugify (sample_folder_env []) (toLowerCase (ib_name (sample_listed ''B/x'' ''x''))))"
    unfolding r_def st_def by code_simp
  ultimately have "place_box (sample_folder_env []) sample_account (sample_listed ''B/x'' ''x'') False None (st, []) = ((st, []), Some FolderConflict)"
    by (rule same_name_conflict)
  moreover have "map fo_name (fs_rows st) = [''A'', ''x'']" unfolding st_def by code_simp
  ultimately show ?thesis by (intro exI [of _ st]) simp
qed



text \<open>
  Creating a folder keeps the tables well formed and either changes nothing and reports an error, or
  adds one folder, synchronised from the start. Without a parent it never succeeds: the parent column
  then gets the text \<open>undefined\<close>, which no folder has as its id.\<close>

theorem addNewFolder_correct:
  assumes "folder_ok env st" "addNewFolder env create now d st = (st', res)"
  shows "folder_ok env st'
     \<and> (case res of
          Inl e \<Rightarrow> st' = st
        | Inr i \<Rightarrow> folder_ids st' = folder_ids st @ [i] \<and> find_sync i st' \<noteq> None \<and> (nf_parentId d = None \<longrightarrow> ''undefined'' \<in> set (folder_ids st)))"
  by (rule addNewFolder_result [OF assms])

theorem addNewFolder_correct_witness:
  "\<exists>st' i. addNewFolder (sample_folder_env []) (\<lambda>_. Created) 7
       \<lparr>nf_name = Some ''New'', nf_parentId = Some [], nf_identityId = ''i'', nf_ownerId = ''o'', nf_kind = None\<rparr> no_folders = (st', Inr i)
     \<and> folder_ok (sample_folder_env []) st' \<and> folder_ids st' = [i]"
proof -
  let ?d = "\<lparr>nf_name = Some ''New'', nf_parentId = Some [], nf_identityId = ''i'', nf_ownerId = ''o'', nf_kind = None\<rparr>"
  let ?r = "addNewFolder (sample_folder_env []) (\<lambda>_. Created) 7 ?d no_folders"
  obtain st' res where run: "?r = (st', res)" by fastforce
  have "snd ?r = Inr ''x''" "folder_ids no_folders = []" by code_simp+
  then show ?thesis using addNewFolder_correct [OF no_folders_ok run] run by (intro exI [of _ st'] exI [of _ "''x''"]) simp
qed



end
