(* ===== verification/BatchBuffers.thy ===== *)
theory BatchBuffers
  imports MailStore
begin

text \<open>
  The buffers of \<open>apps/worker/lib/message-payload-parser.ts\<close>: jobs for the search index, the webhooks, the
  calendar and the rules are collected in four module variables and added to the queues in batches,
  when a buffer has a hundred entries or a second after an entry came. \<open>flushBatches\<close> is an \<open>async\<close>
  function: it gives up control at every \<open>await\<close>, and other code, which may push to the buffers or start
  another flush, runs before it goes on. A running flush is therefore a value of \<open>flush_pc\<close>, the
  \<open>await\<close> it is at together with the arguments of the call, and \<open>flush_resume\<close> is what it does when
  the call returns or throws. \<open>flushBatches\<close> is the flush that nothing interrupts.
\<close>

subsection \<open>Buffers\<close>

record search_job =
  sj_messageId :: string
  sj_contactId :: "string option"
  sj_ownerId :: "string option"

record webhook_job =
  wj_message :: message_row
  wj_rawEmail :: string

record ics_job =
  cj_messageId :: string
  cj_messageAttachmentId :: string
  cj_mailboxId :: string

text \<open>What the queues are given: the jobs of the search, DAV and common workers.\<close>

datatype queue_job =
    AddBatch "string list"
  | CreateContactsBatch "string option list" "string option"
  | ItipIngestBatch "ics_job list"
  | WebhookReceived message_row string
  | RulesProcessorJob string

record batch_state =
  searchBuffer :: "search_job list"
  webhookBuffer :: "webhook_job list"
  icsBuffer :: "ics_job list"
  rulesBuffer :: "string list"
  flushTimer :: bool
  queues :: "queue_job list"

definition SEARCH_BATCH_SIZE :: nat where "SEARCH_BATCH_SIZE = 100"
definition WEBHOOK_BATCH_SIZE :: nat where "WEBHOOK_BATCH_SIZE = 100"
definition RULES_BATCH_SIZE :: nat where "RULES_BATCH_SIZE = 100"
definition CALENDAR_BATCH_SIZE :: nat where "CALENDAR_BATCH_SIZE = 100"

lemmas batch_sizes = SEARCH_BATCH_SIZE_def WEBHOOK_BATCH_SIZE_def RULES_BATCH_SIZE_def CALENDAR_BATCH_SIZE_def

definition add_queue :: "queue_job list \<Rightarrow> batch_state \<Rightarrow> batch_state" where
  "add_queue js b = b\<lparr>queues := queues b @ js\<rparr>"

definition buffers_empty :: "batch_state \<Rightarrow> bool" where
  "buffers_empty b \<longleftrightarrow> searchBuffer b = [] \<and> webhookBuffer b = [] \<and> icsBuffer b = [] \<and> rulesBuffer b = []"

subsection \<open>A running flush\<close>

datatype flush_pc =
    AwaitRedis
  | AwaitAddBatch "string list" "string option list" "string option"
  | AwaitContacts "string option list" "string option"
  | AwaitIcs "ics_job list"
  | AwaitWebhooks "webhook_job list"
  | AwaitRules "string list"

text \<open>
  The code from one \<open>await\<close> to the next, in the order of the source; \<open>None\<close> is the end of the function.
  The arguments of a call are computed from the buffer before the call, the buffer is emptied after it.
\<close>

definition start_rules :: "batch_state \<Rightarrow> flush_pc option" where
  "start_rules b = (if rulesBuffer b \<noteq> [] then Some (AwaitRules (rulesBuffer b)) else None)"

definition start_webhooks :: "batch_state \<Rightarrow> flush_pc option" where
  "start_webhooks b = (if webhookBuffer b \<noteq> [] then Some (AwaitWebhooks (webhookBuffer b)) else start_rules b)"

definition start_ics :: "batch_state \<Rightarrow> flush_pc option" where
  "start_ics b = (if icsBuffer b \<noteq> [] then Some (AwaitIcs (icsBuffer b)) else start_webhooks b)"

definition start_search :: "batch_state \<Rightarrow> flush_pc option" where
  "start_search b =
     (case searchBuffer b of
        [] \<Rightarrow> start_ics b
      | j # _ \<Rightarrow> Some (AwaitAddBatch (map sj_messageId (searchBuffer b)) (map sj_contactId (searchBuffer b)) (sj_ownerId j)))"

definition flush_start :: "batch_state \<Rightarrow> flush_pc option" where
  "flush_start b = (if buffers_empty b then None else Some AwaitRedis)"

text \<open>A call that throws is caught around the whole body: the error is logged and the function ends.\<close>

fun flush_resume :: "flush_pc \<Rightarrow> bool \<Rightarrow> batch_state \<Rightarrow> batch_state \<times> flush_pc option" where
  "flush_resume pc False b = (b, None)"
| "flush_resume AwaitRedis True b = (b, start_search b)"
| "flush_resume (AwaitAddBatch ms cs o') True b = (add_queue [AddBatch ms] b, Some (AwaitContacts cs o'))"
| "flush_resume (AwaitContacts cs o') True b =
     (let b1 = (add_queue [CreateContactsBatch cs o'] b)\<lparr>searchBuffer := []\<rparr> in (b1, start_ics b1))"
| "flush_resume (AwaitIcs js) True b =
     (let b1 = (add_queue [ItipIngestBatch js] b)\<lparr>icsBuffer := []\<rparr> in (b1, start_webhooks b1))"
| "flush_resume (AwaitWebhooks js) True b =
     (let b1 = (add_queue (map (\<lambda>j. WebhookReceived (wj_message j) (wj_rawEmail j)) js) b)\<lparr>webhookBuffer := []\<rparr>
      in (b1, start_rules b1))"
| "flush_resume (AwaitRules js) True b = ((add_queue (map RulesProcessorJob js) b)\<lparr>rulesBuffer := []\<rparr>, None)"

text \<open>
  The uninterrupted run: \<open>oks\<close> are the outcomes of the calls in turn (a call beyond the list succeeds).
  There are six calls at most.
\<close>

fun flush_run :: "nat \<Rightarrow> bool list \<Rightarrow> flush_pc option \<Rightarrow> batch_state \<Rightarrow> batch_state \<times> flush_pc option" where
  "flush_run n oks None b = (b, None)"
| "flush_run 0 oks (Some pc) b = (b, Some pc)"
| "flush_run (Suc n) oks (Some pc) b =
     (let (b1, next) = flush_resume pc (case oks of [] \<Rightarrow> True | ok # _ \<Rightarrow> ok) b in flush_run n (tl oks) next b1)"

definition flushBatches :: "bool list \<Rightarrow> batch_state \<Rightarrow> batch_state" where
  "flushBatches oks b = fst (flush_run 6 oks (flush_start b) b)"

definition scheduleFlush :: "batch_state \<Rightarrow> batch_state" where
  "scheduleFlush b = (if flushTimer b then b else b\<lparr>flushTimer := True\<rparr>)"

text \<open>
  An entry and what the code around the push does: a message of any mode for the index and the
  contacts, an invitation, and a live message for the webhooks and the rules. The flag says whether a
  batch is full, in which case the caller starts a flush; otherwise it sets the timer.
\<close>

datatype push = PushSearch search_job | PushIcs ics_job | PushLive message_row string

fun push_entry :: "push \<Rightarrow> batch_state \<Rightarrow> batch_state \<times> bool" where
  "push_entry (PushSearch j) b =
     (let b1 = b\<lparr>searchBuffer := searchBuffer b @ [j]\<rparr> in (b1, length (searchBuffer b1) \<ge> SEARCH_BATCH_SIZE))"
| "push_entry (PushIcs j) b =
     (let b1 = b\<lparr>icsBuffer := icsBuffer b @ [j]\<rparr> in (b1, length (icsBuffer b1) \<ge> CALENDAR_BATCH_SIZE))"
| "push_entry (PushLive m raw) b =
     (let b1 = b\<lparr>webhookBuffer := webhookBuffer b @ [\<lparr>wj_message = m, wj_rawEmail = raw\<rparr>],
                 rulesBuffer := rulesBuffer b @ [row_id m]\<rparr>
      in (b1, length (webhookBuffer b1) \<ge> WEBHOOK_BATCH_SIZE \<or> length (rulesBuffer b1) \<ge> RULES_BATCH_SIZE))"

definition push_flush :: "bool list \<Rightarrow> push \<Rightarrow> batch_state \<Rightarrow> batch_state" where
  "push_flush oks p b = (let (b1, full) = push_entry p b in if full then flushBatches oks b1 else scheduleFlush b1)"

subsection \<open>Interleaved runs\<close>

text \<open>
  A run of the event loop: the buffers, the flushes that are at an \<open>await\<close>, and the pushes so far. With
  \<open>quiet\<close>, entries are pushed only while no flush is running.
\<close>

type_synonym batch_run = "batch_state \<times> flush_pc list \<times> push list"

definition opt_list :: "'a option \<Rightarrow> 'a list" where
  "opt_list x = (case x of None \<Rightarrow> [] | Some y \<Rightarrow> [y])"

inductive batch_step :: "bool \<Rightarrow> batch_run \<Rightarrow> batch_run \<Rightarrow> bool" for quiet where
  push_full: "push_entry p b = (b1, True) \<Longrightarrow> (quiet \<Longrightarrow> fs = []) \<Longrightarrow>
    batch_step quiet (b, fs, ps) (b1, fs @ opt_list (flush_start b1), ps @ [p])"
| push_timer: "push_entry p b = (b1, False) \<Longrightarrow> (quiet \<Longrightarrow> fs = []) \<Longrightarrow>
    batch_step quiet (b, fs, ps) (scheduleFlush b1, fs, ps @ [p])"
| timer: "flushTimer b \<Longrightarrow>
    batch_step quiet (b, fs, ps) (b\<lparr>flushTimer := False\<rparr>, fs @ opt_list (flush_start b), ps)"
| resume: "flush_resume pc ok b = (b1, nxt) \<Longrightarrow>
    batch_step quiet (b, pre @ pc # post, ps) (b1, pre @ opt_list nxt @ post, ps)"

inductive_cases batch_stepE: "batch_step quiet (b, fs, ps) s"

inductive batch_reach :: "bool \<Rightarrow> batch_run \<Rightarrow> batch_run \<Rightarrow> bool" for quiet s0 where
  batch_init: "batch_reach quiet s0 s0"
| batch_next: "batch_reach quiet s0 s \<Longrightarrow> batch_step quiet s s' \<Longrightarrow> batch_reach quiet s0 s'"

text \<open>An entry is accounted for when it is still in its buffer or the queues have the jobs for it.\<close>

definition search_sent :: "search_job \<Rightarrow> queue_job list \<Rightarrow> bool" where
  "search_sent j q \<longleftrightarrow>
     (\<exists>ms. AddBatch ms \<in> set q \<and> sj_messageId j \<in> set ms) \<and> (\<exists>cs o'. CreateContactsBatch cs o' \<in> set q \<and> sj_contactId j \<in> set cs)"

fun accounted :: "batch_state \<Rightarrow> push \<Rightarrow> bool" where
  "accounted b (PushSearch j) \<longleftrightarrow> j \<in> set (searchBuffer b) \<or> search_sent j (queues b)"
| "accounted b (PushIcs j) \<longleftrightarrow> j \<in> set (icsBuffer b) \<or> (\<exists>js. ItipIngestBatch js \<in> set (queues b) \<and> j \<in> set js)"
| "accounted b (PushLive m raw) \<longleftrightarrow>
     (\<lparr>wj_message = m, wj_rawEmail = raw\<rparr> \<in> set (webhookBuffer b) \<or> WebhookReceived m raw \<in> set (queues b))
     \<and> (row_id m \<in> set (rulesBuffer b) \<or> RulesProcessorJob (row_id m) \<in> set (queues b))"

text \<open>
  What makes it safe for a running flush to empty a buffer: everything in the buffer is among the
  arguments of the call it waits for (and, for the second call of the index, of the first one).
\<close>

fun flush_safe :: "batch_state \<Rightarrow> flush_pc \<Rightarrow> bool" where
  "flush_safe b AwaitRedis = True"
| "flush_safe b (AwaitAddBatch ms cs o') \<longleftrightarrow>
     sj_messageId ` set (searchBuffer b) \<subseteq> set ms \<and> sj_contactId ` set (searchBuffer b) \<subseteq> set cs"
| "flush_safe b (AwaitContacts cs o') \<longleftrightarrow>
     (\<forall>j \<in> set (searchBuffer b). sj_contactId j \<in> set cs \<and> (\<exists>ms. AddBatch ms \<in> set (queues b) \<and> sj_messageId j \<in> set ms))"
| "flush_safe b (AwaitIcs js) \<longleftrightarrow> set (icsBuffer b) \<subseteq> set js"
| "flush_safe b (AwaitWebhooks js) \<longleftrightarrow> set (webhookBuffer b) \<subseteq> set js"
| "flush_safe b (AwaitRules js) \<longleftrightarrow> set (rulesBuffer b) \<subseteq> set js"

subsection \<open>Lemmas\<close>

text \<open>\<open>b'\<close> is a later state that dropped from its buffers only what its queues have.\<close>

definition settles :: "batch_state \<Rightarrow> batch_state \<Rightarrow> bool" where
  "settles b b' \<longleftrightarrow> set (queues b) \<subseteq> set (queues b') \<and> (\<forall>p. accounted b p \<longrightarrow> accounted b' p)
     \<and> set (searchBuffer b') \<subseteq> set (searchBuffer b) \<and> set (icsBuffer b') \<subseteq> set (icsBuffer b)
     \<and> set (webhookBuffer b') \<subseteq> set (webhookBuffer b) \<and> set (rulesBuffer b') \<subseteq> set (rulesBuffer b)"

lemma settles_safe: "settles b b' \<Longrightarrow> flush_safe b pc \<Longrightarrow> flush_safe b' pc"
  by (cases pc) (auto simp: settles_def, blast+)

lemma add_queue_sel [simp]:
  "searchBuffer (add_queue js b) = searchBuffer b" "webhookBuffer (add_queue js b) = webhookBuffer b"
  "icsBuffer (add_queue js b) = icsBuffer b" "rulesBuffer (add_queue js b) = rulesBuffer b"
  "flushTimer (add_queue js b) = flushTimer b" "queues (add_queue js b) = queues b @ js"
  by (simp_all add: add_queue_def)

lemma settlesI:
  assumes "set (queues b) \<subseteq> set (queues b')" "\<And>j. accounted b (PushSearch j) \<Longrightarrow> accounted b' (PushSearch j)"
    "\<And>j. accounted b (PushIcs j) \<Longrightarrow> accounted b' (PushIcs j)" "\<And>m r. accounted b (PushLive m r) \<Longrightarrow> accounted b' (PushLive m r)"
    "set (searchBuffer b') \<subseteq> set (searchBuffer b)" "set (icsBuffer b') \<subseteq> set (icsBuffer b)"
    "set (webhookBuffer b') \<subseteq> set (webhookBuffer b)" "set (rulesBuffer b') \<subseteq> set (rulesBuffer b)"
  shows "settles b b'"
  using assms unfolding settles_def by (metis push.exhaust)

lemma search_sent_mono: "search_sent j q \<Longrightarrow> set q \<subseteq> set q' \<Longrightarrow> search_sent j q'"
  unfolding search_sent_def by blast

lemma search_sent_contacts:
  "AddBatch ms \<in> set q \<Longrightarrow> sj_messageId j \<in> set ms \<Longrightarrow> sj_contactId j \<in> set cs \<Longrightarrow> search_sent j (q @ [CreateContactsBatch cs o'])"
  unfolding search_sent_def set_append by auto

lemma search_sent_append [simp]: "search_sent j q \<Longrightarrow> search_sent j (q @ js)"
  by (rule search_sent_mono) auto

lemma resume_settles: "flush_resume pc ok b = (b1, nxt) \<Longrightarrow> flush_safe b pc \<Longrightarrow> settles b b1"
proof (induction pc ok b rule: flush_resume.induct)
  case (4 cs o' b)
  then show ?case by (intro settlesI) (auto simp: Let_def, metis search_sent_contacts)
next
  case (5 js b)
  then show ?case by (intro settlesI) (auto simp: Let_def)
next
  case (6 js b)
  then show ?case by (intro settlesI) (auto simp: Let_def image_iff, force+)
next
  case (7 js b)
  then show ?case by (intro settlesI) auto
qed (intro settlesI, auto)+

lemma start_safe:
  "start_rules b = Some pc \<Longrightarrow> flush_safe b pc" "start_webhooks b = Some pc \<Longrightarrow> flush_safe b pc"
  "start_ics b = Some pc \<Longrightarrow> flush_safe b pc" "start_search b = Some pc \<Longrightarrow> flush_safe b pc"
  "flush_start b = Some pc \<Longrightarrow> flush_safe b pc"
  by (auto simp: start_rules_def start_webhooks_def start_ics_def start_search_def flush_start_def
      split: if_splits list.splits)

lemma resume_safe: "flush_resume pc ok b = (b1, Some pc') \<Longrightarrow> flush_safe b pc \<Longrightarrow> flush_safe b1 pc'"
  by (induction pc ok b rule: flush_resume.induct) (auto simp: Let_def start_safe image_subset_iff, blast)

lemma push_accounted:
  "push_entry p b = (b1, full) \<Longrightarrow> accounted b1 p"
  "push_entry p b = (b1, full) \<Longrightarrow> accounted b q \<Longrightarrow> accounted b1 q"
  by (cases p; auto simp: Let_def)(cases p; cases q; auto simp: Let_def)

lemma scheduleFlush_accounted [simp]: "accounted (scheduleFlush b) p = accounted b p"
  by (cases p) (simp_all add: scheduleFlush_def)

lemma timer_settles: "settles b (b\<lparr>flushTimer := False\<rparr>)"
  by (intro settlesI) auto

text \<open>Every running flush is safe and every push so far is accounted for.\<close>

definition batch_inv :: "batch_run \<Rightarrow> bool" where
  "batch_inv s \<longleftrightarrow> (\<forall>pc \<in> set (fst (snd s)). flush_safe (fst s) pc) \<and> (\<forall>p \<in> set (snd (snd s)). accounted (fst s) p)"

lemma settles_inv: "settles b b' \<Longrightarrow> batch_inv (b, fs, ps) \<Longrightarrow> batch_inv (b', fs, ps)"
  using settles_safe [of b b'] by (auto simp: batch_inv_def settles_def)

lemma batch_inv_started:
  "batch_inv (b, fs @ opt_list pc @ gs, ps) \<longleftrightarrow> batch_inv (b, fs @ gs, ps) \<and> (\<forall>x. pc = Some x \<longrightarrow> flush_safe b x)"
  by (cases pc) (auto simp: batch_inv_def opt_list_def)

lemma push_inv: "push_entry p b = (b1, full) \<Longrightarrow> batch_inv (b, [], ps) \<Longrightarrow> batch_inv (b1, [], ps @ [p])"
  using push_accounted by (auto simp: batch_inv_def)

lemma quiet_step_inv:
  assumes "batch_step True s s'" "batch_inv s"
  shows "batch_inv s'"
  using assms
proof cases
  case (push_full p b b1 fs ps)
  then show ?thesis
    using push_inv [of p b b1 True ps] batch_inv_started [of b1 "[]" "flush_start b1" "[]" "ps @ [p]"] start_safe(5) assms(2) by simp
next
  case (push_timer p b b1 fs ps)
  then show ?thesis using push_inv [of p b b1 False ps] assms(2) by (simp add: batch_inv_def)
next
  case (timer b fs ps)
  then show ?thesis using assms(2) start_safe(5) [of b]
      settles_inv [OF timer_settles, of b "fs @ opt_list (flush_start b)" ps]
      batch_inv_started [of b fs "flush_start b" "[]" ps] by simp
next
  case (resume pc ok b b1 nxt pre post ps)
  then have safe: "flush_safe b pc" and rest: "batch_inv (b, pre @ post, ps)" using assms(2) by (auto simp: batch_inv_def)
  have "batch_inv (b1, pre @ post, ps)" by (rule settles_inv [OF resume_settles [OF resume(3) safe] rest])
  then show ?thesis unfolding resume(2) batch_inv_started using resume_safe [of pc ok b b1] resume(3) safe by auto
qed

definition no_batches :: batch_state where
  "no_batches = \<lparr>searchBuffer = [], webhookBuffer = [], icsBuffer = [], rulesBuffer = [], flushTimer = False, queues = []\<rparr>"

lemma quiet_reach_inv: "batch_reach True (no_batches, [], []) s \<Longrightarrow> batch_inv s"
  by (induction rule: batch_reach.induct) (simp add: batch_inv_def, blast intro: quiet_step_inv)

text \<open>The jobs that a flush of the buffers adds when no call fails.\<close>

definition search_jobs :: "search_job list \<Rightarrow> queue_job list" where
  "search_jobs js = (case js of [] \<Rightarrow> []
     | j # _ \<Rightarrow> [AddBatch (map sj_messageId js), CreateContactsBatch (map sj_contactId js) (sj_ownerId j)])"

definition batch_jobs :: "batch_state \<Rightarrow> queue_job list" where
  "batch_jobs b = search_jobs (searchBuffer b) @ (if icsBuffer b = [] then [] else [ItipIngestBatch (icsBuffer b)])
     @ map (\<lambda>j. WebhookReceived (wj_message j) (wj_rawEmail j)) (webhookBuffer b) @ map RulesProcessorJob (rulesBuffer b)"

lemmas flush_starts = start_rules_def start_webhooks_def start_ics_def start_search_def flush_start_def

lemma flush_run_None: "flush_run n oks None b = (b, None)"
  by (cases n) simp_all

lemma flush_run_rules: "flush_run (Suc n) [] (start_rules b) b =
    (b\<lparr>rulesBuffer := [], queues := queues b @ map RulesProcessorJob (rulesBuffer b)\<rparr>, None)"
  by (auto simp: start_rules_def add_queue_def flush_run_None)

lemma flush_run_webhooks: "flush_run (Suc (Suc n)) [] (start_webhooks b) b =
    (b\<lparr>webhookBuffer := [], rulesBuffer := [], queues := queues b
        @ map (\<lambda>j. WebhookReceived (wj_message j) (wj_rawEmail j)) (webhookBuffer b) @ map RulesProcessorJob (rulesBuffer b)\<rparr>, None)"
  by (simp add: start_webhooks_def flush_run_rules add_queue_def Let_def del: flush_run.simps(3))
     (simp add: add_queue_def Let_def flush_run_rules del: One_nat_def)

lemma flush_run_ics: "flush_run (Suc (Suc (Suc n))) [] (start_ics b) b =
    (b\<lparr>icsBuffer := [], webhookBuffer := [], rulesBuffer := [], queues := queues b
        @ (if icsBuffer b = [] then [] else [ItipIngestBatch (icsBuffer b)])
        @ map (\<lambda>j. WebhookReceived (wj_message j) (wj_rawEmail j)) (webhookBuffer b) @ map RulesProcessorJob (rulesBuffer b)\<rparr>, None)"
  using flush_run_webhooks [of "Suc n" b]
  by (cases "icsBuffer b = []") (simp_all add: start_ics_def add_queue_def Let_def flush_run_webhooks del: flush_run.simps(3),
      simp add: add_queue_def Let_def flush_run_webhooks)

lemma flush_run_search: "flush_run 5 [] (start_search b) b =
    (b\<lparr>searchBuffer := [], icsBuffer := [], webhookBuffer := [], rulesBuffer := [], queues := queues b @ batch_jobs b\<rparr>, None)"
proof (cases "searchBuffer b")
  case Nil
  then show ?thesis using flush_run_ics [of 2 b] by (simp add: start_search_def batch_jobs_def search_jobs_def eval_nat_numeral)
next
  case (Cons j js)
  have five: "(5::nat) = Suc (Suc (Suc (Suc (Suc 0))))" by simp
  show ?thesis unfolding five
    by (simp add: start_search_def Cons add_queue_def Let_def flush_run_ics batch_jobs_def search_jobs_def del: flush_run.simps(3))
       (simp add: add_queue_def Let_def flush_run_ics Cons)
qed

lemma flushBatches_full:
  "flushBatches [] b =
     b\<lparr>searchBuffer := [], icsBuffer := [], webhookBuffer := [], rulesBuffer := [], queues := queues b @ batch_jobs b\<rparr>"
proof (cases "buffers_empty b")
  case True
  then show ?thesis
    by (simp add: flushBatches_def flush_start_def flush_run_None buffers_empty_def batch_jobs_def search_jobs_def)
next
  case False
  have "flush_run (Suc 5) [] (Some AwaitRedis) b = flush_run 5 [] (start_search b) b"
    unfolding flush_run.simps by simp
  then show ?thesis using False by (simp add: flushBatches_def flush_start_def flush_run_search)
qed

fun calls_left :: "flush_pc option \<Rightarrow> nat" where
  "calls_left None = 0"
| "calls_left (Some AwaitRedis) = 6"
| "calls_left (Some (AwaitAddBatch _ _ _)) = 5"
| "calls_left (Some (AwaitContacts _ _)) = 4"
| "calls_left (Some (AwaitIcs _)) = 3"
| "calls_left (Some (AwaitWebhooks _)) = 2"
| "calls_left (Some (AwaitRules _)) = 1"

lemma resume_calls: "flush_resume pc ok b = (b1, nxt) \<Longrightarrow> calls_left nxt < calls_left (Some pc)"
proof (induction pc ok b rule: flush_resume.induct)
  case (1 pc b)
  then show ?case by (cases pc) simp_all
qed (auto simp: Let_def flush_starts split: if_splits list.splits)

lemma flush_run_ends: "calls_left pc \<le> n \<Longrightarrow> snd (flush_run n oks pc b) = None"
proof (induction n oks pc b rule: flush_run.induct)
  case (2 oks pc b)
  then show ?case by (cases pc) simp_all
next
  case (3 n oks pc b)
  obtain b1 nxt where r: "flush_resume pc (case oks of [] \<Rightarrow> True | ok # _ \<Rightarrow> ok) b = (b1, nxt)" by fastforce
  then show ?case using 3 resume_calls [OF r] by (simp add: Let_def)
qed simp

lemma settles_trans: "settles a b \<Longrightarrow> settles b c \<Longrightarrow> settles a c"
  unfolding settles_def by (meson subset_trans)

lemma flush_run_settles:
  "(\<And>x. pc = Some x \<Longrightarrow> flush_safe b x) \<Longrightarrow> settles b (fst (flush_run n oks pc b))"
proof (induction n oks pc b rule: flush_run.induct)
  case (3 n oks pc b)
  obtain b1 nxt where r: "flush_resume pc (case oks of [] \<Rightarrow> True | ok # _ \<Rightarrow> ok) b = (b1, nxt)" by fastforce
  have "settles b b1" using resume_settles [OF r] 3(2) by simp
  moreover have "settles b1 (fst (flush_run n (tl oks) nxt b1))"
    using 3(1) [OF r [symmetric] refl] resume_safe [of pc _ b b1] r 3(2) by blast
  ultimately have "settles b (fst (flush_run n (tl oks) nxt b1))" by (rule settles_trans)
  then show ?case using r by simp
qed (simp_all add: settles_def)

lemma flushBatches_settles: "settles b (flushBatches oks b)"
  unfolding flushBatches_def by (rule flush_run_settles) (rule start_safe(5))

lemma push_flush_accounted:
  "accounted (push_flush oks p b) p" "accounted b q \<Longrightarrow> accounted (push_flush oks p b) q"
proof -
  obtain b1 full where e: "push_entry p b = (b1, full)" by fastforce
  have k: "accounted b1 q \<Longrightarrow> accounted (push_flush oks p b) q" for q
    using flushBatches_settles [of b1 oks] by (simp add: push_flush_def e settles_def)
  show "accounted (push_flush oks p b) p" "accounted b q \<Longrightarrow> accounted (push_flush oks p b) q"
    using k push_accounted [OF e] by blast+
qed

text \<open>A schedule of the event loop, run step by step.\<close>

datatype batch_event = EvPush push | EvTimer | EvResume nat bool

fun exec_event :: "bool \<Rightarrow> batch_event \<Rightarrow> batch_run \<Rightarrow> batch_run option" where
  "exec_event quiet (EvPush p) (b, fs, ps) =
     (if quiet \<and> fs \<noteq> [] then None
      else let (b1, full) = push_entry p b
           in Some (if full then (b1, fs @ opt_list (flush_start b1), ps @ [p]) else (scheduleFlush b1, fs, ps @ [p])))"
| "exec_event quiet EvTimer (b, fs, ps) =
     (if flushTimer b then Some (b\<lparr>flushTimer := False\<rparr>, fs @ opt_list (flush_start b), ps) else None)"
| "exec_event quiet (EvResume i ok) (b, fs, ps) =
     (if i < length fs
      then let (b1, nxt) = flush_resume (fs ! i) ok b in Some (b1, take i fs @ opt_list nxt @ drop (Suc i) fs, ps)
      else None)"

fun exec_events :: "bool \<Rightarrow> batch_event list \<Rightarrow> batch_run \<Rightarrow> batch_run option" where
  "exec_events quiet [] s = Some s"
| "exec_events quiet (e # es) s = Option.bind (exec_event quiet e s) (exec_events quiet es)"

lemma exec_event_step: "exec_event quiet e s = Some s' \<Longrightarrow> batch_step quiet s s'"
proof (induction quiet e s rule: exec_event.induct)
  case (1 quiet p b fs ps)
  then show ?case by (cases "push_entry p b") (auto intro: push_full push_timer split: if_splits)
next
  case (2 quiet b fs ps)
  then show ?case by (auto intro: timer split: if_splits)
next
  case (3 quiet i ok b fs ps)
  obtain b1 nxt where r: "flush_resume (fs ! i) ok b = (b1, nxt)" by fastforce
  have "fs = take i fs @ fs ! i # drop (Suc i) fs" using 3 by (simp add: id_take_nth_drop split: if_splits)
  then show ?case using resume [OF r, of quiet "take i fs" "drop (Suc i) fs" ps] 3 r by (auto split: if_splits)
qed

lemma exec_events_from: "exec_events quiet es s = Some s' \<Longrightarrow> batch_reach quiet s0 s \<Longrightarrow> batch_reach quiet s0 s'"
proof (induction es arbitrary: s)
  case (Cons e es)
  then obtain s1 where "exec_event quiet e s = Some s1" "exec_events quiet es s1 = Some s'"
    by (cases "exec_event quiet e s") auto
  then show ?case using Cons.IH batch_next [OF Cons.prems(2) exec_event_step] by blast
qed simp

lemmas exec_events_reach = exec_events_from [OF _ batch_init]

subsection \<open>Properties\<close>

text \<open>
  C25. A flush that nothing interrupts and whose calls succeed adds exactly the jobs of the four
  buffers to the queues, in the order of the entries, and empties the buffers; whichever calls fail, it
  ends after at most six calls and no entry is lost: what is no longer in a buffer is in the queues.\<close>

theorem flushBatches_delivers:
  "flushBatches [] b =
     b\<lparr>searchBuffer := [], icsBuffer := [], webhookBuffer := [], rulesBuffer := [], queues := queues b @ batch_jobs b\<rparr>
   \<and> snd (flush_run 6 oks (flush_start b) b) = None
   \<and> {p. accounted b p} \<subseteq> {p. accounted (flushBatches oks b) p}"
proof -
  have "calls_left (flush_start b) \<le> 6" by (simp add: flush_start_def)
  then show ?thesis using flushBatches_full flush_run_ends flushBatches_settles [of b oks] unfolding settles_def by blast
qed

text \<open>
  C26. While entries are pushed only when no flush is running, nothing is lost: in every run of the
  event loop, with any number of overlapping flushes, timers and failing calls, every entry pushed so
  far is in its buffer or its jobs are in the queues.\<close>

theorem quiet_pushes_kept:
  assumes "batch_reach True (no_batches, [], []) (b, fs, ps)" "p \<in> set ps"
  shows "accounted b p"
  using quiet_reach_inv [OF assms(1)] assms(2) by (simp add: batch_inv_def)

theorem quiet_pushes_kept_witness:
  "\<exists>b. batch_reach True (no_batches, [], []) (b, [], [PushLive (sample_row ''1'' ''t'' ''b1'' False) ''raw''])
     \<and> accounted b (PushLive (sample_row ''1'' ''t'' ''b1'' False) ''raw'') \<and> buffers_empty b"
proof -
  let ?p = "PushLive (sample_row ''1'' ''t'' ''b1'' False) ''raw''"
  let ?es = "[EvPush ?p, EvTimer, EvResume 0 True, EvResume 0 True, EvResume 0 True]"
  define b where "b = fst (the (exec_events True ?es (no_batches, [], [])))"
  have "exec_events True ?es (no_batches, [], []) = Some (b, [], [?p]) \<and> buffers_empty b" unfolding b_def by code_simp
  moreover from this have r: "batch_reach True (no_batches, [], []) (b, [], [?p])" using exec_events_reach by blast
  moreover have "accounted b ?p" by (rule quiet_pushes_kept [OF r]) simp
  ultimately show ?thesis by blast
qed

text \<open>
  Without that restriction entries are lost. The buffers are emptied after the calls, so what
  is pushed while a call is under way is dropped with them: some run of the event loop ends with empty
  buffers and no flush running, every call having succeeded, and yet the rules never see a live
  message that was pushed.\<close>

theorem push_during_flush_lost:
  "\<exists>b m raw ps. batch_reach False (no_batches, [], []) (b, [], ps) \<and> PushLive m raw \<in> set ps
     \<and> buffers_empty b \<and> \<not> flushTimer b \<and> RulesProcessorJob (row_id m) \<notin> set (queues b)"
proof -
  let ?p = "PushLive (sample_row ''1'' ''t'' ''b1'' False) ''raw''" and ?m = "sample_row ''2'' ''t'' ''b1'' False"
  let ?q = "PushLive ?m ''raw''"
  let ?es = "[EvPush ?p, EvTimer, EvResume 0 True, EvResume 0 True, EvPush ?q, EvResume 0 True,
    EvTimer, EvResume 0 True, EvResume 0 True]"
  define b where "b = fst (the (exec_events False ?es (no_batches, [], [])))"
  have "exec_events False ?es (no_batches, [], []) = Some (b, [], [?p, ?q]) \<and> buffers_empty b \<and> \<not> flushTimer b
      \<and> RulesProcessorJob (row_id ?m) \<notin> set (queues b)"
    unfolding b_def by code_simp
  moreover from this have "batch_reach False (no_batches, [], []) (b, [], [?p, ?q])" using exec_events_reach by blast
  ultimately show ?thesis by (metis list.set_intros(1) list.set_intros(2))
qed

end
