(* ===== verification/Ingest.thy ===== *)
theory Ingest
  imports BatchBuffers ThreadRollup
begin

text \<open>
  \<open>apps/worker/lib/message-payload-parser.ts\<close>: from the text of a mail to its rows. The thread of the
  message is found or created, the message inserted, the mailing list remembered, the sender's contact
  created or completed, the summary refreshed, the attachments stored, and jobs buffered for the
  index, the calendar, the webhooks and the rules. There is no transaction around it: what is done
  before an error stays.

  The MIME parser is not part of the repository: the functions take its result, \<open>parsed_mail\<close>. Of the
  environment they take the supply of random ids (the n-th one asked for), the clock, which stands still
  during a call, the outcome of uploads and of queue calls, and the URL parser. The raw mail is uploaded
  before anything else and a failure of that upload is ignored, so it has no place in the model.
\<close>

subsection \<open>Data\<close>

record mail_attachment =
  at_filename :: "string option"
  at_contentType :: "string option"
  at_contentDisposition :: "string option"
  at_checksum :: "string option"
  at_cid :: "string option"
  at_size :: "int option"
  at_contentLength :: int

datatype mail_references = NoReferences | OneReference string | ManyReferences "string list"

record parsed_mail =
  pm_messageId :: "string option"
  pm_headers :: "(string \<times> jsval) list"
  pm_inReplyTo :: "string option"
  pm_references :: mail_references
  pm_date :: "date option"
  pm_subject :: "string option"
  pm_replyTo :: jsval
  pm_from :: "address_object option"
  pm_to :: "address_object option"
  pm_cc :: "address_object option"
  pm_bcc :: "address_object option"
  pm_text :: "string option"
  pm_html :: "string option"
  pm_attachments :: "mail_attachment list"

record contact_row =
  cw_id :: string
  cw_ownerId :: string
  cw_firstName :: string
  cw_lastName :: "string option"
  cw_emails :: "string list"

record attachment_row =
  ar_id :: string
  ar_ownerId :: string
  ar_messageId :: string
  ar_bucketId :: string
  ar_path :: string
  ar_filenameOriginal :: "string option"
  ar_contentType :: string
  ar_sizeBytes :: int
  ar_checksum :: "string option"
  ar_cid :: "string option"
  ar_isInline :: bool

record subscription_row =
  ms_ownerId :: string
  ms_subscriptionKey :: string
  ms_listId :: "string option"
  ms_unsubscribeHttpUrl :: "string option"
  ms_unsubscribeMailto :: "string option"
  ms_oneClick :: bool
  ms_status :: string
  ms_lastSeenAt :: date

record url_parts =
  url_protocol :: string
  url_host :: string
  url_pathname :: string

record ingest_opts =
  io_ownerId :: string
  io_mailboxId :: string
  io_imap :: "imap_meta option"
  io_seen :: "bool option"
  io_answered :: "bool option"
  io_flagged :: "bool option"
  io_live :: bool

record ingest_env =
  ge_fresh :: "nat \<Rightarrow> string"
  ge_now :: date
  ge_uploadFails :: "string \<Rightarrow> bool"
  ge_calls :: "bool list"
  ge_url :: "string \<Rightarrow> url_parts option"

record ingest =
  in_store :: store
  in_contacts :: "contact_row list"
  in_subscriptions :: "subscription_row list"
  in_attachments :: "attachment_row list"
  in_batches :: batch_state
  in_next :: nat

datatype ingest_error = MissingMessageId | ForeignKey | UploadFailed string | StoreError db_error

definition fresh_id :: "ingest_env \<Rightarrow> ingest \<Rightarrow> string" where
  "fresh_id env s = ge_fresh env (in_next s)"

definition used_id :: "ingest \<Rightarrow> ingest" where
  "used_id s = s\<lparr>in_next := Suc (in_next s)\<rparr>"

subsection \<open>The thread of a message\<close>

fun reference_list :: "mail_references \<Rightarrow> string list" where
  "reference_list NoReferences = []"
| "reference_list (OneReference r) = (if r = [] then [] else [r])"
| "reference_list (ManyReferences rs) = rs"

definition reply_id :: "parsed_mail \<Rightarrow> string option" where
  "reply_id p = or_undefined (map_option trim (pm_inReplyTo p))"

definition thread_candidates :: "parsed_mail \<Rightarrow> string list" where
  "thread_candidates p =
     set_uniq (filter (\<lambda>r. r \<noteq> []) ((case reply_id p of None \<Rightarrow> [] | Some r \<Rightarrow> [r]) @ reference_list (pm_references p)))"

text \<open>\<open>ORDER BY date DESC\<close> puts the rows without a date first.\<close>

definition date_desc :: "message_row \<Rightarrow> message_row \<Rightarrow> int" where
  "date_desc a b =
     (case (row_date a, row_date b) of
        (None, None) \<Rightarrow> 0 | (None, Some _) \<Rightarrow> -1 | (Some _, None) \<Rightarrow> 1 | (Some x, Some y) \<Rightarrow> y - x)"

definition parent_messages :: "string \<Rightarrow> string list \<Rightarrow> store \<Rightarrow> message_row list" where
  "parent_messages ownerId candidates st =
     js_sort date_desc (filter (\<lambda>m. row_ownerId m = ownerId \<and> row_messageId m \<in> set candidates) (st_messages st))"

definition existing_thread :: "string \<Rightarrow> parsed_mail \<Rightarrow> store \<Rightarrow> thread_row option" where
  "existing_thread ownerId p st =
     (let candidates = thread_candidates p; parents = parent_messages ownerId candidates st
      in if candidates = [] \<or> parents = [] then None
         else case (case reply_id p of
                      Some r \<Rightarrow> find (\<lambda>m. row_messageId m = r) parents
                    | None \<Rightarrow> Some (hd parents)) of
                None \<Rightarrow> None
              | Some chosen \<Rightarrow> find (\<lambda>t. tw_id t = row_threadId chosen) (st_threads st))"

definition createOrInitializeThread :: "ingest_env \<Rightarrow> string \<Rightarrow> parsed_mail \<Rightarrow> ingest \<Rightarrow> ingest \<times> thread_row" where
  "createOrInitializeThread env ownerId p s =
     (case existing_thread ownerId p (in_store s) of
        Some t \<Rightarrow> (s, t)
      | None \<Rightarrow>
          let t = \<lparr>tw_id = fresh_id env s, tw_ownerId = ownerId, tw_lastMessageDate = Some (nullish (pm_date p) (ge_now env))\<rparr>
          in ((used_id s)\<lparr>in_store := (in_store s)\<lparr>st_threads := st_threads (in_store s) @ [t]\<rparr>\<rparr>, t))"

subsection \<open>The sender's contact\<close>

definition getFromAddress :: "parsed_mail \<Rightarrow> (string \<times> string option) option" where
  "getFromAddress p =
     (case pm_from p of
        None \<Rightarrow> None
      | Some ao \<Rightarrow>
          (case nullish (ao_value ao) [] of
             [] \<Rightarrow> None
           | a # _ \<Rightarrow>
               if truthy (ma_address a)
               then Some (toLowerCase (trim (nullish (ma_address a) [])), or_undefined (Some (trim (or_default (ma_name a) []))))
               else None))"

definition name_parts :: "string \<Rightarrow> string list" where
  "name_parts n = filter (\<lambda>w. w \<noteq> []) (split_on CHR '' '' n)"

definition last_name_of :: "string list \<Rightarrow> string option" where
  "last_name_of parts = (if length parts > 1 then Some (join '' '' (tl parts)) else None)"

definition owns_email :: "string \<Rightarrow> string \<Rightarrow> contact_row \<Rightarrow> bool" where
  "owns_email ownerId email c \<longleftrightarrow> cw_ownerId c = ownerId \<and> email \<in> set (cw_emails c)"

text \<open>
  The row given to the insert also has a slug, which is no column of the table. Its unique columns are
  random, so the insert does not conflict.
\<close>

definition upsertContactsFromMessage :: "ingest_env \<Rightarrow> string \<Rightarrow> parsed_mail \<Rightarrow> ingest \<Rightarrow> ingest \<times> string option" where
  "upsertContactsFromMessage env ownerId p s =
     (case getFromAddress p of
        None \<Rightarrow> (s, None)
      | Some (email, displayName) \<Rightarrow>
          (case find (owns_email ownerId email) (in_contacts s) of
             None \<Rightarrow>
               let parts = (case displayName of None \<Rightarrow> [] | Some n \<Rightarrow> name_parts n);
                   firstName = (case parts of [] \<Rightarrow> ''Unknown'' | w # _ \<Rightarrow> w);
                   c = \<lparr>cw_id = fresh_id env s, cw_ownerId = ownerId, cw_firstName = firstName,
                        cw_lastName = last_name_of parts, cw_emails = [email]\<rparr>
               in ((used_id s)\<lparr>in_contacts := in_contacts s @ [c]\<rparr>, Some (cw_id c))
           | Some c \<Rightarrow>
               (case displayName of
                  None \<Rightarrow> (s, Some (cw_id c))
                | Some n \<Rightarrow>
                    if cw_firstName c \<noteq> [] \<or> truthy (cw_lastName c) then (s, Some (cw_id c))
                    else let parts = name_parts n;
                             firstName = (case parts of w # _ \<Rightarrow> w | [] \<Rightarrow> or_default (Some (cw_firstName c)) ''Unknown'')
                         in (s\<lparr>in_contacts := update_where (\<lambda>d. cw_id d = cw_id c)
                                (\<lambda>d. d\<lparr>cw_firstName := firstName, cw_lastName := last_name_of parts\<rparr>) (in_contacts s)\<rparr>,
                             Some (cw_id c)))))"

subsection \<open>Attachments\<close>

definition isIcsAttachment :: "mail_attachment \<Rightarrow> bool" where
  "isIcsAttachment a =
     (let ct = toLowerCase (or_default (at_contentType a) []); name = toLowerCase (or_default (at_filename a) [])
      in startsWith ct ''text/calendar'' \<or> ct = ''application/ics'' \<or> endsWith name ''.ics'')"

definition file_extension :: "mail_attachment \<Rightarrow> string" where
  "file_extension a =
     or_default (map_option (\<lambda>f. toLowerCase (last (split_on CHR ''.'' f))) (at_filename a))
       (or_default
         (case at_contentType a of
            None \<Rightarrow> None
          | Some ct \<Rightarrow> (case split_on CHR ''/'' ct of _ # sub # _ \<Rightarrow> Some (hd (split_on CHR ''+'' sub)) | _ \<Rightarrow> None))
         ''bin'')"

definition show_undefined :: "string option \<Rightarrow> string" where
  "show_undefined x = nullish x ''undefined''"

definition ics_key :: "mail_attachment \<Rightarrow> string" where
  "ics_key a = or_default (at_checksum a) (show_undefined (map_option show_int (at_size a)) @ '':'' @ show_undefined (at_contentType a))"

definition attachment_of :: "string \<Rightarrow> string \<Rightarrow> string \<Rightarrow> string \<Rightarrow> mail_attachment \<Rightarrow> attachment_row" where
  "attachment_of i ownerId messageId path a =
     \<lparr>ar_id = i, ar_ownerId = ownerId, ar_messageId = messageId, ar_bucketId = ''attachments'', ar_path = path,
      ar_filenameOriginal = or_undefined (at_filename a), ar_contentType = or_default (at_contentType a) ''application/octet-stream'',
      ar_sizeBytes = nullish (at_size a) (at_contentLength a), ar_checksum = or_undefined (at_checksum a),
      ar_cid = or_undefined (at_cid a), ar_isInline = (at_contentDisposition a = Some ''inline'' \<or> truthy (at_cid a))\<rparr>"

definition push_batch :: "ingest_env \<Rightarrow> push \<Rightarrow> ingest \<Rightarrow> ingest" where
  "push_batch env p s = s\<lparr>in_batches := push_flush (ge_calls env) p (in_batches s)\<rparr>"

definition attachment_path :: "ingest_env \<Rightarrow> ingest_opts \<Rightarrow> string \<Rightarrow> mail_attachment \<Rightarrow> ingest \<Rightarrow> string" where
  "attachment_path env opts messageId a s =
     ''private/'' @ io_ownerId opts @ ''/'' @ messageId @ ''/'' @ fresh_id env s @ ''.'' @ file_extension a"

definition insert_attachment :: "ingest_env \<Rightarrow> ingest_opts \<Rightarrow> string \<Rightarrow> mail_attachment \<Rightarrow> ingest \<Rightarrow> ingest \<times> attachment_row" where
  "insert_attachment env opts messageId a s =
     (let s1 = used_id s;
          row = attachment_of (fresh_id env s1) (io_ownerId opts) messageId (attachment_path env opts messageId a s) a
      in ((used_id s1)\<lparr>in_attachments := in_attachments s1 @ [row]\<rparr>, row))"

fun store_attachments :: "ingest_env \<Rightarrow> ingest_opts \<Rightarrow> string \<Rightarrow> string list \<Rightarrow> mail_attachment list \<Rightarrow> ingest \<Rightarrow> ingest \<times> ingest_error option" where
  "store_attachments env opts messageId seen [] s = (s, None)"
| "store_attachments env opts messageId seen (a # as) s =
     (if ge_uploadFails env (attachment_path env opts messageId a s)
      then (used_id s, Some (UploadFailed (attachment_path env opts messageId a s)))
      else let (s2, row) = insert_attachment env opts messageId a s
           in if io_live opts \<and> isIcsAttachment a \<and> ics_key a \<notin> set seen
              then store_attachments env opts messageId (ics_key a # seen) as
                     (push_batch env (PushIcs \<lparr>cj_messageId = messageId, cj_messageAttachmentId = ar_id row,
                        cj_mailboxId = io_mailboxId opts\<rparr>) s2)
              else store_attachments env opts messageId seen as s2)"

subsection \<open>Mailing lists\<close>

text \<open>Optional chaining on a dynamic value; a property of anything but an object is undefined here.\<close>

definition opt_prop :: "string \<Rightarrow> jsval \<Rightarrow> jsval" where
  "opt_prop k v = (case v of JObj kvs \<Rightarrow> js_prop k kvs | _ \<Rightarrow> JUndef)"

definition js_or_null :: "jsval \<Rightarrow> string option" where
  "js_or_null v = (if js_Boolean v then Some (js_String v) else None)"

text \<open>\<open>/mailto:([^>\s,]+)/i\<close>: the capture of the first match.\<close>

definition mailto_class :: "char \<Rightarrow> bool" where
  "mailto_class c \<longleftrightarrow> c \<noteq> CHR ''>'' \<and> \<not> is_ws c \<and> c \<noteq> CHR '',''"

fun mailto_target :: "string \<Rightarrow> string option" where
  "mailto_target [] = None"
| "mailto_target (c # cs) =
     (if toLowerCase (take 7 (c # cs)) = ''mailto:'' \<and> takeWhile mailto_class (drop 7 (c # cs)) \<noteq> []
      then Some (takeWhile mailto_class (drop 7 (c # cs))) else mailto_target cs)"

text \<open>\<open>.replace(/^<|>$/g, "").replace(/\s+/g, "").toLowerCase()\<close> and \<open>.replace(/\/+$/, "")\<close>.\<close>

definition clean_list_id :: "string \<Rightarrow> string" where
  "clean_list_id l =
     (let l1 = (case l of c # cs \<Rightarrow> if c = CHR ''<'' then cs else l | [] \<Rightarrow> []);
          l2 = (if l1 \<noteq> [] \<and> last l1 = CHR ''>'' then butlast l1 else l1)
      in toLowerCase (filter (\<lambda>c. \<not> is_ws c) l2))"

definition strip_slashes :: "string \<Rightarrow> string" where
  "strip_slashes p = rev (dropWhile (\<lambda>c. c = CHR ''/'') (rev p))"

record list_facts =
  lf_listId :: "string option"
  lf_url :: "string option"
  lf_post :: "string option"
  lf_mailto :: "string option"

definition list_facts_of :: "(string \<times> jsval) list \<Rightarrow> list_facts" where
  "list_facts_of headers =
     (let lst = js_prop ''list'' headers; unsub = js_prop ''list-unsubscribe'' headers
      in \<lparr>lf_listId = or_undefined (Some (trim (js_String (coalesce (js_prop ''list-id'' headers) (JStr []))))),
          lf_url = (case js_or_null (opt_prop ''url'' (opt_prop ''unsubscribe'' lst)) of
             Some u \<Rightarrow> Some u | None \<Rightarrow> js_or_null (opt_prop ''href'' (opt_prop ''unsubscribe'' lst))),
          lf_post = or_undefined (Some (toLowerCase
             (js_String (coalesce (opt_prop ''name'' (opt_prop ''unsubscribe-post'' lst)) (JStr []))))),
          lf_mailto = (case unsub of
             JStr u \<Rightarrow> if str_includes (toLowerCase u) ''mailto:''
               then or_undefined (Some (toLowerCase (trim (nullish (mailto_target u) [])))) else None
           | _ \<Rightarrow> None)\<rparr>)"

definition subscription_key :: "ingest_env \<Rightarrow> parsed_mail \<Rightarrow> list_facts \<Rightarrow> string option" where
  "subscription_key env p f =
     (case lf_listId f of
        Some l \<Rightarrow> (let cleaned = clean_list_id l in if cleaned = [] then None else Some (''list-id:'' @ cleaned))
      | None \<Rightarrow>
          (case lf_url f of
             Some u \<Rightarrow>
               (case ge_url env u of
                  None \<Rightarrow> None
                | Some parts \<Rightarrow>
                    let path = or_default (Some (strip_slashes (or_default (Some (url_pathname parts)) ''/''))) ''/''
                    in Some (url_protocol parts @ ''//'' @ url_host parts @ path))
           | None \<Rightarrow>
               (case lf_mailto f of
                  Some m \<Rightarrow> Some (''mailto:'' @ m)
                | None \<Rightarrow>
                    (case getFromAddress p of
                       None \<Rightarrow> None
                     | Some (email, _) \<Rightarrow>
                         (case split_on CHR ''@'' email of
                            _ # d # _ \<Rightarrow> Some (''from-domain:'' @ d)
                          | _ \<Rightarrow> None)))))"

definition ingestMailSubscriptionFromMessage :: "ingest_env \<Rightarrow> string \<Rightarrow> parsed_mail \<Rightarrow> ingest \<Rightarrow> ingest" where
  "ingestMailSubscriptionFromMessage env ownerId p s =
     (let f = list_facts_of (pm_headers p)
      in if lf_listId f = None \<and> lf_url f = None \<and> lf_mailto f = None then s
         else case subscription_key env p f of
           None \<Rightarrow> s
         | Some key \<Rightarrow>
             let oneClick = (case lf_post f of None \<Rightarrow> False | Some x \<Rightarrow> str_includes x ''one-click'');
                 hit = (\<lambda>r. ms_ownerId r = ownerId \<and> ms_subscriptionKey r = key)
             in if list_ex hit (in_subscriptions s)
                then s\<lparr>in_subscriptions := update_where hit
                       (\<lambda>r. r\<lparr>ms_listId := lf_listId f, ms_unsubscribeHttpUrl := lf_url f, ms_unsubscribeMailto := lf_mailto f,
                              ms_oneClick := oneClick, ms_lastSeenAt := ge_now env\<rparr>) (in_subscriptions s)\<rparr>
                else s\<lparr>in_subscriptions := in_subscriptions s @
                       [\<lparr>ms_ownerId = ownerId, ms_subscriptionKey = key, ms_listId = lf_listId f, ms_unsubscribeHttpUrl = lf_url f,
                         ms_unsubscribeMailto = lf_mailto f, ms_oneClick = oneClick, ms_status = ''subscribed'',
                         ms_lastSeenAt = ge_now env\<rparr>]\<rparr>)"

subsection \<open>\<open>parseAndStoreEmail\<close>\<close>

text \<open>The row given to the insert; the columns the parser has no value for take their defaults.\<close>

definition ingest_row :: "ingest_env \<Rightarrow> ingest_opts \<Rightarrow> parsed_mail \<Rightarrow> string \<Rightarrow> string \<Rightarrow> string \<Rightarrow> message_row" where
  "ingest_row env opts p messageId threadId i =
     \<lparr>row_id = i, row_ownerId = io_ownerId opts, row_mailboxId = io_mailboxId opts, row_messageId = messageId,
      row_threadId = threadId, row_replyTo = pm_replyTo p, row_html = Some (or_default (pm_html p) []), row_subject = pm_subject p,
      row_snippet = common_generateSnippet (or_default (pm_text p) (or_default (pm_html p) [])), row_text = pm_text p,
      row_from = pm_from p, row_to = pm_to p, row_cc = pm_cc p, row_bcc = pm_bcc p, row_date = pm_date p, row_sizeBytes = None,
      row_seen = nullish (io_seen opts) False, row_answered = nullish (io_answered opts) False,
      row_flagged = nullish (io_flagged opts) False, row_hasAttachments = (pm_attachments p \<noteq> []),
      row_headersJson = Some (pm_headers p), row_imap = io_imap opts, row_createdAt = ge_now env, row_updatedAt = ge_now env\<rparr>"

definition has_message_id :: "parsed_mail \<Rightarrow> bool" where
  "has_message_id p \<longleftrightarrow> truthy (pm_messageId p) \<or>
     (let h = js_prop ''message-id'' (pm_headers p) in trim (js_String (if js_Boolean h then h else JStr [])) \<noteq> [])"

definition touch_thread :: "date \<Rightarrow> string \<Rightarrow> store \<Rightarrow> store" where
  "touch_thread msgDate threadId st =
     (case find (\<lambda>t. tw_id t = threadId) (st_threads st) of
        None \<Rightarrow> st
      | Some t \<Rightarrow>
          if (case tw_lastMessageDate t of None \<Rightarrow> True | Some last' \<Rightarrow> last' < msgDate)
          then st\<lparr>st_threads := update_where (\<lambda>u. tw_id u = threadId) (\<lambda>u. u\<lparr>tw_lastMessageDate := Some msgDate\<rparr>) (st_threads st)\<rparr>
          else st)"

text \<open>The jobs buffered at the end; \<open>String(contactId)\<close> of a missing contact is the text \<open>null\<close>.\<close>

definition buffer_jobs :: "ingest_env \<Rightarrow> ingest_opts \<Rightarrow> string \<Rightarrow> message_row \<Rightarrow> string option \<Rightarrow> ingest \<Rightarrow> ingest" where
  "buffer_jobs env opts raw m contactId s =
     (let s1 = push_batch env (PushSearch \<lparr>sj_messageId = row_id m, sj_contactId = Some (nullish contactId ''null''),
            sj_ownerId = Some (io_ownerId opts)\<rparr>) s
      in if io_live opts then push_batch env (PushLive m raw) s1 else s1)"

text \<open>What follows the insert of the row \<open>m\<close>.\<close>

definition after_insert :: "ingest_env \<Rightarrow> ingest_opts \<Rightarrow> string \<Rightarrow> parsed_mail \<Rightarrow> message_row \<Rightarrow> ingest \<Rightarrow> ingest \<times> (ingest_error + message_row option)" where
  "after_insert env opts raw p m s =
     (let s1 = ingestMailSubscriptionFromMessage env (io_ownerId opts) p s;
          (s2, contactId) = upsertContactsFromMessage env (io_ownerId opts) p s1
      in case upsertMailboxThreadItem (ge_now env) (row_id m) (in_store s2) of
           Inl e \<Rightarrow> (s2, Inl (StoreError e))
         | Inr (st, _) \<Rightarrow>
             let s3 = s2\<lparr>in_store := touch_thread (row_createdAt m) (row_threadId m) st\<rparr>
             in case store_attachments env opts (row_id m) [] (pm_attachments p) s3 of
                  (s4, Some e) \<Rightarrow> (s4, Inl e)
                | (s4, None) \<Rightarrow> (buffer_jobs env opts raw m contactId s4, Inr (Some m)))"

text \<open>
  The guard takes the Message-ID from the parser or else from the header, but the row takes it from the
  parser alone, and the insert schema rejects a row without one. The insert does nothing when the
  mailbox has the Message-ID already; its foreign keys ask for the mailbox and the thread.
\<close>

definition parseAndStoreEmail :: "ingest_env \<Rightarrow> ingest_opts \<Rightarrow> string \<Rightarrow> parsed_mail \<Rightarrow> ingest \<Rightarrow> ingest \<times> (ingest_error + message_row option)" where
  "parseAndStoreEmail env opts raw p s =
     (if \<not> has_message_id p then (s, Inr None)
      else let (s1, thread) = createOrInitializeThread env (io_ownerId opts) p s
           in case pm_messageId p of
                None \<Rightarrow> (s1, Inl MissingMessageId)
              | Some messageId \<Rightarrow>
                  let m = ingest_row env opts p messageId (tw_id thread) (fresh_id env s1); st = in_store s1
                  in if message_key m \<in> set (map message_key (st_messages st)) then (s1, Inr None)
                     else if find_mailbox st (io_mailboxId opts) = None then (s1, Inl ForeignKey)
                     else after_insert env opts raw p m
                            ((used_id s1)\<lparr>in_store := st\<lparr>st_messages := st_messages st @ [m]\<rparr>\<rparr>))"

subsection \<open>Lemmas: what each part leaves alone\<close>

named_theorems ingest_simps \<open>what a part of the ingestion does to each component of the state\<close>

lemma used_id_sel [ingest_simps]:
  "in_store (used_id s) = in_store s" "in_contacts (used_id s) = in_contacts s"
  "in_subscriptions (used_id s) = in_subscriptions s" "in_attachments (used_id s) = in_attachments s"
  "in_batches (used_id s) = in_batches s" "in_next (used_id s) = Suc (in_next s)"
  by (simp_all add: used_id_def)

lemma push_batch_sel [ingest_simps]:
  "in_store (push_batch env p s) = in_store s" "in_contacts (push_batch env p s) = in_contacts s"
  "in_subscriptions (push_batch env p s) = in_subscriptions s" "in_attachments (push_batch env p s) = in_attachments s"
  "in_next (push_batch env p s) = in_next s"
  by (simp_all add: push_batch_def)

lemma subscription_sel [ingest_simps]:
  "in_store (ingestMailSubscriptionFromMessage env o' p s) = in_store s"
  "in_contacts (ingestMailSubscriptionFromMessage env o' p s) = in_contacts s"
  "in_batches (ingestMailSubscriptionFromMessage env o' p s) = in_batches s"
  "in_next (ingestMailSubscriptionFromMessage env o' p s) = in_next s"
  by (simp_all add: ingestMailSubscriptionFromMessage_def Let_def split: option.split)

lemma contact_sel [ingest_simps]:
  "in_store (fst (upsertContactsFromMessage env o' p s)) = in_store s"
  "in_batches (fst (upsertContactsFromMessage env o' p s)) = in_batches s"
  by (simp_all add: upsertContactsFromMessage_def Let_def ingest_simps split: option.split prod.split)

lemma contact_next: "in_next s \<le> in_next (fst (upsertContactsFromMessage env o' p s))"
  by (simp add: upsertContactsFromMessage_def Let_def ingest_simps split: option.split prod.split)

text \<open>The parts that leave the mail tables alone, take ids only from the supply and lose no buffered entry.\<close>

definition frame :: "ingest \<Rightarrow> ingest \<Rightarrow> bool" where
  "frame s s' \<longleftrightarrow> in_store s' = in_store s \<and> in_next s \<le> in_next s'
     \<and> (\<forall>q. accounted (in_batches s) q \<longrightarrow> accounted (in_batches s') q)"

lemma frame_trans: "frame a b \<Longrightarrow> frame b c \<Longrightarrow> frame a c"
  by (auto simp: frame_def)

lemma frame_refl: "frame s s"
  by (simp add: frame_def)

lemma frame_push: "frame s (push_batch env p s)"
  using push_flush_accounted(2) by (simp add: frame_def push_batch_def)

lemma frame_insert: "frame s (fst (insert_attachment env opts i a s))"
  by (simp add: frame_def insert_attachment_def Let_def ingest_simps)

lemma frame_subscription: "frame s (ingestMailSubscriptionFromMessage env o' p s)"
  by (simp add: frame_def ingest_simps)

lemma frame_contacts: "frame s (fst (upsertContactsFromMessage env o' p s))"
  by (simp add: frame_def ingest_simps contact_next)

lemma frame_attachments: "frame s (fst (store_attachments env opts i seen as s))"
proof (induction env opts i seen as s rule: store_attachments.induct)
  case (2 env opts i seen a as s)
  obtain s2 row where r: "insert_attachment env opts i a s = (s2, row)" by fastforce
  have f: "frame s s2" using frame_insert [of s env opts i a] r by simp
  let ?ics = "io_live opts \<and> isIcsAttachment a \<and> ics_key a \<notin> set seen"
  show ?case
  proof (cases "ge_uploadFails env (attachment_path env opts i a s)")
    case up: False
    show ?thesis
    proof (cases ?ics)
      case True
      show ?thesis unfolding store_attachments.simps
        using frame_trans [OF frame_trans [OF f frame_push] 2(1) [OF up r [symmetric] refl True]] up True by (simp add: r)
    next
      case False
      have "frame s2 (fst (store_attachments env opts i seen as s2))" by (rule 2(2) [OF up r [symmetric] refl False])
      moreover have "store_attachments env opts i seen (a # as) s = store_attachments env opts i seen as s2"
        using up False by (auto simp: r)
      ultimately show ?thesis using frame_trans [OF f] by simp
    qed
  qed (simp add: frame_def ingest_simps)
qed (simp add: frame_def)

lemma attachments_error: "store_attachments env opts i seen as s = (s', Some e) \<Longrightarrow> \<exists>path. e = UploadFailed path"
  by (induction env opts i seen as s rule: store_attachments.induct) (auto split: if_splits prod.splits)

lemma frame_jobs: "frame s (buffer_jobs env opts raw m c s)"
  unfolding buffer_jobs_def Let_def using frame_trans [OF frame_push frame_push] frame_push by simp

lemma jobs_accounted: "io_live opts \<Longrightarrow> accounted (in_batches (buffer_jobs env opts raw m c s)) (PushLive m raw)"
  by (simp add: buffer_jobs_def Let_def push_batch_def push_flush_accounted(1) del: accounted.simps)

lemma touch_thread_sel [store_simps]:
  "st_messages (touch_thread d t st) = st_messages st" "st_mailboxThreads (touch_thread d t st) = st_mailboxThreads st"
  "st_mailboxes (touch_thread d t st) = st_mailboxes st" "st_identities (touch_thread d t st) = st_identities st"
  "map tw_id (st_threads (touch_thread d t st)) = map tw_id (st_threads st)"
  by (simp_all add: touch_thread_def map_update_where split: option.split)

subsection \<open>Lemmas: the invariant\<close>

text \<open>Every message has its thread, and thread ids are distinct; the supply has only unused ids left.\<close>

definition threads_ok :: "store \<Rightarrow> bool" where
  "threads_ok st \<longleftrightarrow> distinct (map tw_id (st_threads st))
     \<and> list_all (\<lambda>m. row_threadId m \<in> set (map tw_id (st_threads st))) (st_messages st)"

lemma threads_okD: "threads_ok st \<Longrightarrow> m \<in> set (st_messages st) \<Longrightarrow> row_threadId m \<in> tw_id ` set (st_threads st)"
  by (simp add: threads_ok_def list_all_iff)

definition ids_in_use :: "store \<Rightarrow> string set" where
  "ids_in_use st = row_id ` set (st_messages st) \<union> tw_id ` set (st_threads st)"

definition supply_ok :: "ingest_env \<Rightarrow> ingest \<Rightarrow> bool" where
  "supply_ok env s \<longleftrightarrow> inj (ge_fresh env) \<and> (\<forall>n \<ge> in_next s. ge_fresh env n \<notin> ids_in_use (in_store s))"

definition tables_ok :: "ingest_env \<Rightarrow> ingest \<Rightarrow> bool" where
  "tables_ok env s \<longleftrightarrow> store_inv (in_store s) \<and> owned (in_store s) \<and> threads_ok (in_store s) \<and> supply_ok env s"

definition ingest_ok :: "ingest_env \<Rightarrow> ingest \<Rightarrow> bool" where
  "ingest_ok env s \<longleftrightarrow> tables_ok env s \<and> covered (in_store s)"

lemmas ingest_defs = ingest_ok_def tables_ok_def

lemma frame_ok: "frame s s' \<Longrightarrow> tables_ok env s \<Longrightarrow> tables_ok env s'"
  by (auto simp: frame_def tables_ok_def supply_ok_def)

text \<open>The thread of a message: the choice among the known parents, or a new thread.\<close>

lemma existing_threadD:
  assumes "existing_thread ownerId p st = Some t"
  obtains m where "m \<in> set (st_messages st)" "row_ownerId m = ownerId" "row_messageId m \<in> set (thread_candidates p)"
    "row_threadId m = tw_id t" "t \<in> set (st_threads st)" "reply_id p = None \<or> reply_id p = Some (row_messageId m)"
proof -
  let ?ps = "parent_messages ownerId (thread_candidates p) st"
  have ps: "set ?ps = {m \<in> set (st_messages st). row_ownerId m = ownerId \<and> row_messageId m \<in> set (thread_candidates p)}"
    by (auto simp: parent_messages_def)
  have ne: "?ps \<noteq> []" using assms by (auto simp: existing_thread_def Let_def split: if_splits)
  obtain m where m: "(case reply_id p of Some r \<Rightarrow> find (\<lambda>m. row_messageId m = r) ?ps | None \<Rightarrow> Some (hd ?ps)) = Some m"
    "find (\<lambda>t. tw_id t = row_threadId m) (st_threads st) = Some t"
    using assms by (auto simp: existing_thread_def Let_def split: if_splits option.splits)
  have "m \<in> set ?ps" using m(1) ne by (auto simp: find_Some_iff split: option.splits)
  moreover have "reply_id p = None \<or> reply_id p = Some (row_messageId m)"
    using m(1) by (auto simp: find_Some_iff split: option.splits)
  moreover have "tw_id t = row_threadId m" "t \<in> set (st_threads st)" using m(2) by (auto simp: find_Some_iff)
  ultimately show thesis using that [of m] ps by auto
qed

text \<open>The Message-IDs that decide: the one replied to if there is one, otherwise any of the references.\<close>

definition names_parent :: "parsed_mail \<Rightarrow> string \<Rightarrow> bool" where
  "names_parent p i = (case reply_id p of Some r \<Rightarrow> i = r | None \<Rightarrow> i \<in> set (thread_candidates p))"

lemma no_thread_no_parent:
  assumes th: "threads_ok st" and none: "existing_thread ownerId p st = None"
    and m: "m \<in> set (st_messages st)" "row_ownerId m = ownerId"
  shows "\<not> names_parent p (row_messageId m)"
proof
  assume n: "names_parent p (row_messageId m)"
  let ?ps = "parent_messages ownerId (thread_candidates p) st"
  have "r \<noteq> []" if "reply_id p = Some r" for r
    using that by (auto simp: reply_id_def split: if_splits elim!: or_undefined.elims)
  then have c: "row_messageId m \<in> set (thread_candidates p)"
    using n by (auto simp: names_parent_def thread_candidates_def split: option.splits)
  have mps: "m \<in> set ?ps" using m c by (simp add: parent_messages_def)
  then obtain ch where ch: "(case reply_id p of Some r \<Rightarrow> find (\<lambda>m. row_messageId m = r) ?ps | None \<Rightarrow> Some (hd ?ps)) = Some ch"
    using n find_exists [OF mps, of "\<lambda>x. row_messageId x = row_messageId m"]
    by (cases "reply_id p") (auto simp: names_parent_def)
  have "ch \<in> set ?ps" using ch mps find_mem hd_in_set [of ?ps] by (cases "reply_id p") fastforce+
  then have "ch \<in> set (st_messages st)" by (simp add: parent_messages_def)
  then have "row_threadId ch \<in> tw_id ` set (st_threads st)" by (rule threads_okD [OF th])
  then have "find (\<lambda>t. tw_id t = row_threadId ch) (st_threads st) \<noteq> None" by (auto simp: find_None_iff)
  moreover have "thread_candidates p \<noteq> []" "?ps \<noteq> []" using c mps by auto
  ultimately show False using none ch by (simp add: existing_thread_def Let_def)
qed

lemma new_thread_ok:
  assumes "tables_ok env s"
  shows "tables_ok env ((used_id s)\<lparr>in_store := (in_store s)\<lparr>st_threads := st_threads (in_store s) @
      [\<lparr>tw_id = fresh_id env s, tw_ownerId = o', tw_lastMessageDate = d\<rparr>]\<rparr>\<rparr>)" (is "tables_ok env ?s")
proof -
  have i: "store_inv (in_store s)" "owned (in_store s)" "threads_ok (in_store s)" "supply_ok env s"
    using assms by (simp_all add: tables_ok_def)
  have "store_inv (in_store ?s)" using i(1) by (rule store_inv_cong [THEN iffD1, rotated 2]) simp_all
  moreover have "owned (in_store ?s)" using i(2) by (rule owned_cong [THEN iffD1, rotated 3]) simp_all
  moreover have "fresh_id env s \<notin> tw_id ` set (st_threads (in_store s))"
    using i(4) by (auto simp: supply_ok_def ids_in_use_def fresh_id_def)
  then have "threads_ok (in_store ?s)" using i(3) by (simp add: threads_ok_def list_all_iff)
  moreover have "ge_fresh env n \<noteq> fresh_id env s" if "n \<ge> Suc (in_next s)" for n
    using i(4) that by (auto simp: supply_ok_def fresh_id_def dest: injD)
  then have "supply_ok env ?s" using i(4) by (auto simp: supply_ok_def ids_in_use_def ingest_simps)
  ultimately show ?thesis by (simp add: tables_ok_def)
qed

lemma createOrInitializeThread_ok:
  assumes "tables_ok env s" "createOrInitializeThread env o' p s = (s1, t)"
  shows "tables_ok env s1" "st_messages (in_store s1) = st_messages (in_store s)" "t \<in> set (st_threads (in_store s1))"
    "st_mailboxes (in_store s1) = st_mailboxes (in_store s)" "st_identities (in_store s1) = st_identities (in_store s)"
    "in_batches s1 = in_batches s" "st_mailboxThreads (in_store s1) = st_mailboxThreads (in_store s)"
proof -
  have "tables_ok env s1 \<and> st_messages (in_store s1) = st_messages (in_store s) \<and> t \<in> set (st_threads (in_store s1))
    \<and> st_mailboxes (in_store s1) = st_mailboxes (in_store s) \<and> st_identities (in_store s1) = st_identities (in_store s)
    \<and> in_batches s1 = in_batches s \<and> st_mailboxThreads (in_store s1) = st_mailboxThreads (in_store s)"
  proof (cases "existing_thread o' p (in_store s)")
    case None
    then show ?thesis using assms(2) new_thread_ok [OF assms(1)] by (auto simp: createOrInitializeThread_def Let_def ingest_simps)
  next
    case (Some u)
    then show ?thesis using assms existing_threadD [OF Some] by (auto simp: createOrInitializeThread_def)
  qed
  then show "tables_ok env s1" "st_messages (in_store s1) = st_messages (in_store s)" "t \<in> set (st_threads (in_store s1))"
    "st_mailboxes (in_store s1) = st_mailboxes (in_store s)" "st_identities (in_store s1) = st_identities (in_store s)"
    "in_batches s1 = in_batches s" "st_mailboxThreads (in_store s1) = st_mailboxThreads (in_store s)"
    by blast+
qed

lemma touched_ok:
  assumes "store_inv st" "owned st" "threads_ok st"
  shows "store_inv (touch_thread d t st)" "owned (touch_thread d t st)" "threads_ok (touch_thread d t st)"
proof -
  show "store_inv (touch_thread d t st)" using assms(1) by (rule store_inv_cong [THEN iffD1, rotated 2]) (simp_all add: store_simps)
  show "owned (touch_thread d t st)" using assms(2) by (rule owned_cong [THEN iffD1, rotated 3]) (simp_all add: store_simps)
  show "threads_ok (touch_thread d t st)" using assms(3) by (simp only: threads_ok_def store_simps)
qed

lemma touched_ids: "ids_in_use (touch_thread d t st) = ids_in_use st"
  unfolding ids_in_use_def by (metis set_map touch_thread_sel(1,5))

text \<open>The insert and the refresh of the summary: the message is stored and listed, and the invariant holds.\<close>

lemma inserted_ok:
  assumes ok: "tables_ok env s" and t: "row_threadId m \<in> tw_id ` set (st_threads (in_store s))"
    and i: "row_id m = fresh_id env s" and own: "owned ((in_store s)\<lparr>st_messages := st_messages (in_store s) @ [m]\<rparr>)"
    and f: "frame ((used_id s)\<lparr>in_store := (in_store s)\<lparr>st_messages := st_messages (in_store s) @ [m]\<rparr>\<rparr>) s2"
  obtains st where "upsertMailboxThreadItem now (row_id m) (in_store s2) = Inr (st, row_threadId m, row_mailboxId m)"
    "tables_ok env (s2\<lparr>in_store := touch_thread d (row_threadId m) st\<rparr>)"
    "covered (in_store s) \<Longrightarrow> covered (touch_thread d (row_threadId m) st)"
    "st_messages (touch_thread d (row_threadId m) st) = st_messages (in_store s) @ [m]"
proof -
  let ?st = "in_store s" let ?st1 = "?st\<lparr>st_messages := st_messages ?st @ [m]\<rparr>"
  have inv: "store_inv ?st" "owned ?st" "threads_ok ?st" "supply_ok env s" using ok by (simp_all add: tables_ok_def)
  have new: "row_id m \<notin> row_id ` set (st_messages ?st)"
    using inv(4) i by (auto simp: supply_ok_def ids_in_use_def fresh_id_def)
  obtain st where st: "upsertMailboxThreadItem now (row_id m) ?st1 = Inr (st, row_threadId m, row_mailboxId m)"
    "store_inv st" "st_messages st = st_messages ?st @ [m]"
    "\<And>t b. list_ex (is_summary t b) (st_mailboxThreads ?st) \<Longrightarrow> list_ex (is_summary t b) (st_mailboxThreads st)"
    "list_ex (is_summary (row_threadId m) (row_mailboxId m)) (st_mailboxThreads st)"
    using insert_then_upsert [OF inv(1) new own] by metis
  have same: "st_threads st = st_threads ?st" "st_mailboxes st = st_mailboxes ?st" "st_identities st = st_identities ?st"
    using st(1) by (auto simp: upsertMailboxThreadItem_def split: option.splits)
  have cov: "covered (touch_thread d (row_threadId m) st)" if "covered ?st"
    using that st(3-5) by (simp add: covered_def list_all_iff store_simps)
  have "owned st" using own by (rule owned_cong [THEN iffD1, rotated 3]) (simp_all add: st(3) same)
  moreover have "threads_ok st" using inv(3) t by (simp add: threads_ok_def st(3) same)
  moreover have "ge_fresh env n \<notin> ids_in_use st" if "n \<ge> Suc (in_next s)" for n
    using inv(4) that i by (auto simp: supply_ok_def ids_in_use_def st(3) same fresh_id_def dest: injD)
  then have "supply_ok env (s2\<lparr>in_store := touch_thread d (row_threadId m) st\<rparr>)"
    using inv(4) f by (simp add: supply_ok_def touched_ids frame_def ingest_simps)
  ultimately have "tables_ok env (s2\<lparr>in_store := touch_thread d (row_threadId m) st\<rparr>)"
    using touched_ok [of st] st(2) by (simp add: tables_ok_def)
  then show thesis using that [of st] st(1,3) f cov by (simp add: frame_def store_simps)
qed

lemma after_insert_ok:
  assumes ok: "tables_ok env s" and t: "row_threadId m \<in> tw_id ` set (st_threads (in_store s))"
    and i: "row_id m = fresh_id env s" and own: "owned ((in_store s)\<lparr>st_messages := st_messages (in_store s) @ [m]\<rparr>)"
    and run: "after_insert env opts raw p m ((used_id s)\<lparr>in_store := (in_store s)\<lparr>st_messages := st_messages (in_store s) @ [m]\<rparr>\<rparr>)
      = (s', res)" (is "after_insert env opts raw p m ?s = _")
  shows "tables_ok env s'" "covered (in_store s) \<Longrightarrow> covered (in_store s')" "st_messages (in_store s') = st_messages (in_store s) @ [m]"
    "res = Inr (Some m) \<or> (\<exists>path. res = Inl (UploadFailed path))"
    "res = Inr (Some m) \<Longrightarrow> io_live opts \<Longrightarrow> accounted (in_batches s') (PushLive m raw)"
    "accounted (in_batches s) q \<Longrightarrow> accounted (in_batches s') q"
proof -
  define s1 where "s1 = ingestMailSubscriptionFromMessage env (io_ownerId opts) p ?s"
  obtain s2 c where c: "upsertContactsFromMessage env (io_ownerId opts) p s1 = (s2, c)" by fastforce
  have f: "frame ?s s2" using frame_trans [OF frame_subscription frame_contacts] c by (metis fst_conv s1_def)
  obtain st where st: "upsertMailboxThreadItem (ge_now env) (row_id m) (in_store s2) = Inr (st, row_threadId m, row_mailboxId m)"
    "tables_ok env (s2\<lparr>in_store := touch_thread (row_createdAt m) (row_threadId m) st\<rparr>)"
    "covered (in_store s) \<Longrightarrow> covered (touch_thread (row_createdAt m) (row_threadId m) st)"
    "st_messages (touch_thread (row_createdAt m) (row_threadId m) st) = st_messages (in_store s) @ [m]"
    using inserted_ok [OF ok t i own f] by metis
  define s3 where "s3 = s2\<lparr>in_store := touch_thread (row_createdAt m) (row_threadId m) st\<rparr>"
  obtain s4 e where a: "store_attachments env opts (row_id m) [] (pm_attachments p) s3 = (s4, e)" by fastforce
  have f4: "frame s3 s4" using frame_attachments [of s3 env opts "row_id m" "[]" "pm_attachments p"] a by simp
  have res: "(s', res) = (case e of Some x \<Rightarrow> (s4, Inl x) | None \<Rightarrow> (buffer_jobs env opts raw m c s4, Inr (Some m)))"
    using run unfolding after_insert_def Let_def s1_def [symmetric] c prod.case st(1) sum.case s3_def [symmetric] a
    by (simp split: option.splits)
  have fe: "frame s3 s'" using res f4 frame_trans [OF f4 frame_jobs] by (auto split: option.splits)
  show "tables_ok env s'" using frame_ok [OF fe] st(2) by (simp add: s3_def)
  show "covered (in_store s')" if "covered (in_store s)" using fe st(3) [OF that] by (simp add: frame_def s3_def)
  show "st_messages (in_store s') = st_messages (in_store s) @ [m]" using fe st(4) by (simp add: frame_def s3_def)
  have "\<exists>path. x = UploadFailed path" if "e = Some x" for x
    using a that attachments_error by blast
  then show "res = Inr (Some m) \<or> (\<exists>path. res = Inl (UploadFailed path))" using res by (auto split: option.splits)
  show "accounted (in_batches s') (PushLive m raw)" if "res = Inr (Some m)" "io_live opts"
    using res that jobs_accounted [OF that(2)] by (auto simp del: accounted.simps split: option.splits)
  show "accounted (in_batches s') q" if "accounted (in_batches s) q"
    using that f fe by (simp add: frame_def s3_def ingest_simps)
qed

lemma parseAndStoreEmail_run:
  assumes ok: "tables_ok env s"
    and box: "\<forall>b. find_mailbox (in_store s) (io_mailboxId opts) = Some b \<longrightarrow>
      mx_ownerId b = io_ownerId opts \<and> find_identity (in_store s) (mx_identityId b) \<noteq> None"
    and run: "parseAndStoreEmail env opts raw p s = (s', res)"
  shows "tables_ok env s' \<and> (covered (in_store s) \<longrightarrow> covered (in_store s'))
    \<and> (res \<in> {Inr None, Inl MissingMessageId, Inl ForeignKey} \<and> st_messages (in_store s') = st_messages (in_store s)
       \<or> (\<exists>m. st_messages (in_store s') = st_messages (in_store s) @ [m] \<and> row_mailboxId m = io_mailboxId opts
            \<and> Some (row_messageId m) = pm_messageId p
            \<and> (res = Inr (Some m) \<and> (io_live opts \<longrightarrow> accounted (in_batches s') (PushLive m raw))
               \<or> (\<exists>path. res = Inl (UploadFailed path)))))
    \<and> {q. accounted (in_batches s) q} \<subseteq> {q. accounted (in_batches s') q}"
proof (cases "has_message_id p")
  case False
  then show ?thesis using run ok by (auto simp: parseAndStoreEmail_def)
next
  case True
  obtain s1 t where t: "createOrInitializeThread env (io_ownerId opts) p s = (s1, t)" by fastforce
  note th = createOrInitializeThread_ok [OF ok t]
  have cov: "covered (in_store s1) \<longleftrightarrow> covered (in_store s)" using th(2,7) by (simp add: covered_def)
  show ?thesis
  proof (cases "pm_messageId p")
    case None
    then show ?thesis using run True t th cov by (auto simp: parseAndStoreEmail_def)
  next
    case (Some mid)
    define m where "m = ingest_row env opts p mid (tw_id t) (fresh_id env s1)"
    have m: "row_id m = fresh_id env s1" "row_mailboxId m = io_mailboxId opts" "row_messageId m = mid" "row_threadId m = tw_id t"
      "row_ownerId m = io_ownerId opts" by (simp_all add: m_def ingest_row_def)
    let ?st = "in_store s1"
    show ?thesis
    proof (cases "message_key m \<in> set (map message_key (st_messages ?st)) \<or> find_mailbox ?st (io_mailboxId opts) = None")
      case True': True
      then have "s' = s1 \<and> res \<in> {Inr None, Inl ForeignKey}"
        using run True by (auto simp: parseAndStoreEmail_def Let_def t Some m_def [symmetric] split: if_splits)
      then show ?thesis using th cov by auto
    next
      case False
      then obtain b where b: "find_mailbox ?st (io_mailboxId opts) = Some b" by auto
      have same: "find_mailbox ?st = find_mailbox (in_store s)" "find_identity ?st = find_identity (in_store s)"
        using th(4,5) by (simp_all add: fun_eq_iff find_mailbox_def find_identity_def)
      have run': "after_insert env opts raw p m ((used_id s1)\<lparr>in_store := ?st\<lparr>st_messages := st_messages ?st @ [m]\<rparr>\<rparr>) = (s', res)"
        using run True False by (auto simp: parseAndStoreEmail_def Let_def t Some m_def [symmetric] split: if_splits)
      have "owned ?st" using th(1) by (simp add: tables_ok_def)
      then have own: "owned (?st\<lparr>st_messages := st_messages ?st @ [m]\<rparr>)" (is "owned ?st'")
      proof -
        have e: "find_mailbox ?st' = find_mailbox ?st" "find_identity ?st' = find_identity ?st"
          by (simp_all add: fun_eq_iff find_mailbox_def find_identity_def)
        show ?thesis using \<open>owned ?st\<close> b box unfolding owned_def e by (simp add: m same)
      qed
      have tin: "row_threadId m \<in> tw_id ` set (st_threads ?st)" using th(3) m(4) by simp
      note r = after_insert_ok [OF th(1) tin m(1) own run']
      show ?thesis using r cov th(2,6) m(2,3) Some by auto
    qed
  qed
qed

subsection \<open>Samples, for the witnesses\<close>

definition sample_mail :: "string \<Rightarrow> string option \<Rightarrow> mail_references \<Rightarrow> parsed_mail" where
  "sample_mail i reply refs =
     \<lparr>pm_messageId = Some i, pm_headers = [], pm_inReplyTo = reply, pm_references = refs, pm_date = Some 3, pm_subject = None,
      pm_replyTo = JUndef, pm_from = Some \<lparr>ao_value = Some [\<lparr>ma_name = Some ''Ann Lee'', ma_address = Some ''Ann@x.org''\<rparr>], ao_text = None\<rparr>,
      pm_to = None, pm_cc = None, pm_bcc = None, pm_text = None, pm_html = None, pm_attachments = []\<rparr>"

definition sample_opts :: ingest_opts where
  "sample_opts = \<lparr>io_ownerId = ''o'', io_mailboxId = ''b1'', io_imap = None, io_seen = None, io_answered = None, io_flagged = None, io_live = True\<rparr>"

definition sample_env :: ingest_env where
  "sample_env = \<lparr>ge_fresh = (\<lambda>n. replicate n CHR ''x''), ge_now = 9, ge_uploadFails = (\<lambda>_. False), ge_calls = [], ge_url = (\<lambda>_. None)\<rparr>"

definition sample_ingest :: "message_row list \<Rightarrow> mailbox_thread_row list \<Rightarrow> ingest" where
  "sample_ingest ms rs =
     \<lparr>in_store = sample_store ms rs, in_contacts = [], in_subscriptions = [], in_attachments = [], in_batches = no_batches, in_next = 2\<rparr>"

lemma sample_supply:
  assumes "\<forall>i \<in> ids_in_use (sample_store ms rs). length i < 2"
  shows "supply_ok sample_env (sample_ingest ms rs)"
  using assms by (auto simp: supply_ok_def sample_env_def sample_ingest_def inj_def dest: arg_cong [where f = length])

lemma sample_ingest_ok:
  assumes "store_inv (sample_store ms rs)" "covered (sample_store ms rs)" "owned (sample_store ms rs)" "threads_ok (sample_store ms rs)"
    "list_all (\<lambda>i. length i < 2) (map row_id ms @ map tw_id (st_threads (sample_store ms rs)))"
  shows "ingest_ok sample_env (sample_ingest ms rs)"
proof -
  have "st_messages (sample_store ms rs) = ms" by (simp add: sample_store_def)
  then have "supply_ok sample_env (sample_ingest ms rs)"
    using assms(5) by (intro sample_supply) (auto simp: ids_in_use_def list_all_iff)
  then show ?thesis using assms(1-4) by (simp add: ingest_defs sample_ingest_def)
qed

subsection \<open>Properties\<close>



text \<open>
  C27. The thread of a new message: when one is found it is the thread of a stored message of the same
  owner that the mail names as its parent, the one it replies to if it says so, and nothing changes;
  otherwise the mail opens a new thread with an unused id.\<close>

theorem createOrInitializeThread_correct:
  assumes "ingest_ok env s" "createOrInitializeThread env ownerId p s = (s', t)"
  shows "s' = s \<and> t \<in> set (st_threads (in_store s))
       \<and> (\<exists>m \<in> set (st_messages (in_store s)). row_ownerId m = ownerId \<and> row_threadId m = tw_id t \<and> names_parent p (row_messageId m))
     \<or> st_threads (in_store s') = st_threads (in_store s) @ [t] \<and> tw_ownerId t = ownerId
       \<and> tw_id t \<notin> ids_in_use (in_store s)
       \<and> (\<forall>m \<in> set (st_messages (in_store s)). row_ownerId m = ownerId \<longrightarrow> \<not> names_parent p (row_messageId m))"
proof (cases "existing_thread ownerId p (in_store s)")
  case (Some u)
  then have ut: "u = t" "s' = s" using assms(2) by (simp_all add: createOrInitializeThread_def)
  obtain m where m: "m \<in> set (st_messages (in_store s))" "row_ownerId m = ownerId" "row_messageId m \<in> set (thread_candidates p)"
    "row_threadId m = tw_id u" "u \<in> set (st_threads (in_store s))" "reply_id p = None \<or> reply_id p = Some (row_messageId m)"
    by (rule existing_threadD [OF Some])
  have "names_parent p (row_messageId m)" using m(3,6) by (auto simp: names_parent_def)
  then show ?thesis using m ut by blast
next
  case None
  have sup: "fresh_id env s \<notin> ids_in_use (in_store s)" "threads_ok (in_store s)"
    using assms(1) by (simp_all add: ingest_defs supply_ok_def fresh_id_def)
  show ?thesis using assms(2) sup(1) None no_thread_no_parent [OF sup(2) None] by (auto simp: createOrInitializeThread_def Let_def)
qed

theorem createOrInitializeThread_correct_witness:
  "\<exists>s' t. createOrInitializeThread sample_env ''o'' (sample_mail ''r'' (Some '' 1 '') NoReferences)
       (sample_ingest [sample_row ''1'' ''t'' ''b1'' True] [sample_summary ''t'' ''b1'' 1 0]) = (s', t)
     \<and> tw_id t = ''t'' \<and> names_parent (sample_mail ''r'' (Some '' 1 '') NoReferences) ''1''"
proof -
  let ?ms = "[sample_row ''1'' ''t'' ''b1'' True]" and ?rs = "[sample_summary ''t'' ''b1'' 1 0]"
  let ?s = "sample_ingest ?ms ?rs" and ?p = "sample_mail ''r'' (Some '' 1 '') NoReferences"
  have ok: "ingest_ok sample_env ?s" by (rule sample_ingest_ok) code_simp+
  obtain s' t where run: "createOrInitializeThread sample_env ''o'' ?p ?s = (s', t)" by fastforce
  define m where "m = sample_row ''1'' ''t'' ''b1'' True"
  have e: "names_parent ?p (row_messageId m)" "row_ownerId m = ''o''" "row_threadId m = ''t''" "row_messageId m = ''1''"
    unfolding m_def by code_simp+
  have "set (st_messages (in_store ?s)) = {m}" by (simp add: sample_ingest_def sample_store_def m_def)
  from createOrInitializeThread_correct [OF ok run, unfolded this] have "tw_id t = ''t''" using e by auto
  then show ?thesis using run e by auto
qed

text \<open>
  A mail whose In-Reply-To is unknown opens a new thread even when its References name stored
  messages of the owner: the references are looked up but used only when there is no In-Reply-To.\<close>

theorem unknown_reply_ignores_references:
  "\<exists>s p m. m \<in> set (st_messages (in_store s)) \<and> row_ownerId m = ''o'' \<and> row_messageId m \<in> set (reference_list (pm_references p))
     \<and> ingest_ok sample_env s \<and> tw_id (snd (createOrInitializeThread sample_env ''o'' p s)) \<noteq> row_threadId m"
proof -
  let ?m = "sample_row ''1'' ''t'' ''b1'' True"
  let ?s = "sample_ingest [?m] [sample_summary ''t'' ''b1'' 1 0]" and ?p = "sample_mail ''r'' (Some ''z'') (ManyReferences [''1'', ''z''])"
  have "ingest_ok sample_env ?s" by (rule sample_ingest_ok) code_simp+
  moreover have "?m \<in> set (st_messages (in_store ?s))" by (simp add: sample_ingest_def sample_store_def)
  moreover have "row_ownerId ?m = ''o''"
    "row_messageId ?m \<in> set (reference_list (pm_references ?p))"
    "tw_id (snd (createOrInitializeThread sample_env ''o'' ?p ?s)) \<noteq> row_threadId ?m"
    by code_simp+
  ultimately show ?thesis by blast
qed

text \<open>
  Storing a mail again that its mailbox already has stores no message, but it leaves something
  behind: the thread is created before the insert finds the duplicate, so a mail that is no reply adds
  an empty thread each time.\<close>

theorem duplicate_leaves_empty_thread:
  assumes "ingest_ok env s" "has_message_id p" "pm_messageId p = Some i"
    "(io_mailboxId opts, i) \<in> message_key ` set (st_messages (in_store s))" "thread_candidates p = []"
  shows "\<exists>s' t. parseAndStoreEmail env opts raw p s = (s', Inr None)
     \<and> st_messages (in_store s') = st_messages (in_store s) \<and> st_threads (in_store s') = st_threads (in_store s) @ [t]
     \<and> \<not> list_ex (\<lambda>m. row_threadId m = tw_id t) (st_messages (in_store s'))"
proof -
  have none: "existing_thread (io_ownerId opts) p (in_store s) = None" using assms(5) by (simp add: existing_thread_def)
  obtain s1 t where t: "createOrInitializeThread env (io_ownerId opts) p s = (s1, t)" by fastforce
  have ok: "tables_ok env s" using assms(1) by (simp add: ingest_ok_def)
  note th = createOrInitializeThread_ok [OF ok t]
  have new: "st_threads (in_store s1) = st_threads (in_store s) @ [t]" "tw_id t = fresh_id env s"
    using t none by (auto simp: createOrInitializeThread_def Let_def)
  have "message_key (ingest_row env opts p i (tw_id t) x) = (io_mailboxId opts, i)" for x
    by (simp add: message_key_def ingest_row_def)
  then have "parseAndStoreEmail env opts raw p s = (s1, Inr None)"
    using assms(2-4) t th(2) by (simp add: parseAndStoreEmail_def Let_def)
  moreover have "tw_id t \<notin> tw_id ` set (st_threads (in_store s))" "threads_ok (in_store s)"
    using assms(1) new(2) by (auto simp: ingest_defs supply_ok_def ids_in_use_def fresh_id_def)
  then have "\<not> list_ex (\<lambda>m. row_threadId m = tw_id t) (st_messages (in_store s))"
    unfolding list_ex_iff using threads_okD by metis
  ultimately show ?thesis using new(1) th(2) by auto
qed

theorem duplicate_leaves_empty_thread_witness:
  "\<exists>s' (t :: thread_row). parseAndStoreEmail sample_env sample_opts ''raw'' (sample_mail ''1'' None NoReferences)
       (sample_ingest [sample_row ''1'' ''t'' ''b1'' True] [sample_summary ''t'' ''b1'' 1 0]) = (s', Inr None)
     \<and> length (st_messages (in_store s')) = 1 \<and> map tw_id (st_threads (in_store s')) = [''t'', tw_id t]"
proof -
  let ?s = "sample_ingest [sample_row ''1'' ''t'' ''b1'' True] [sample_summary ''t'' ''b1'' 1 0]"
  let ?p = "sample_mail ''1'' None NoReferences"
  have ok: "ingest_ok sample_env ?s" by (rule sample_ingest_ok) code_simp+
  have h: "has_message_id ?p" "pm_messageId ?p = Some ''1''"
    "(io_mailboxId sample_opts, ''1'') \<in> message_key ` set (st_messages (in_store ?s))" "thread_candidates ?p = []"
    by code_simp+
  have "length (st_messages (in_store ?s)) = 1" "map tw_id (st_threads (in_store ?s)) = [''t'']" by code_simp+
  moreover obtain s' t where "parseAndStoreEmail sample_env sample_opts ''raw'' ?p ?s = (s', Inr None)"
    "st_messages (in_store s') = st_messages (in_store ?s)" "st_threads (in_store s') = st_threads (in_store ?s) @ [t]"
    using duplicate_leaves_empty_thread [OF ok h, of "''raw''"] by blast
  ultimately show ?thesis by (intro exI [of _ s'], intro exI [of _ t]) simp
qed

text \<open>
  After a mail with a sender address the owner has a contact with that address, in lower case and
  without blanks around it, and the call returns its id. At most one contact is added; contacts that
  have a name and contacts of other owners stay as they are.\<close>

theorem upsertContactsFromMessage_correct:
  assumes "upsertContactsFromMessage env ownerId p s = (s', i)" "getFromAddress p = Some (email, displayName)"
    "distinct (map cw_id (in_contacts s))" "fresh_id env s \<notin> cw_id ` set (in_contacts s)"
  shows "(\<exists>c \<in> set (in_contacts s'). owns_email ownerId email c \<and> i = Some (cw_id c))
     \<and> distinct (map cw_id (in_contacts s')) \<and> length (in_contacts s') \<le> Suc (length (in_contacts s))
     \<and> (\<forall>c \<in> set (in_contacts s). cw_firstName c \<noteq> [] \<or> cw_ownerId c \<noteq> ownerId \<longrightarrow> c \<in> set (in_contacts s'))"
proof (cases "find (owns_email ownerId email) (in_contacts s)")
  case None
  then show ?thesis using assms by (auto simp: upsertContactsFromMessage_def Let_def owns_email_def)
next
  case (Some c)
  have c: "c \<in> set (in_contacts s)" "owns_email ownerId email c" using find_mem [OF Some] by blast+
  show ?thesis
  proof (cases "displayName = None \<or> cw_firstName c \<noteq> [] \<or> truthy (cw_lastName c)")
    case True
    then have "s' = s" "i = Some (cw_id c)" using assms(1,2) Some by (auto simp: upsertContactsFromMessage_def split: option.splits)
    then show ?thesis using c assms(3) by auto
  next
    case False
    then obtain f l where s': "i = Some (cw_id c)" "in_contacts s' =
        update_where (\<lambda>d. cw_id d = cw_id c) (\<lambda>d. d\<lparr>cw_firstName := f, cw_lastName := l\<rparr>) (in_contacts s)"
      using assms(1,2) Some by (auto simp: upsertContactsFromMessage_def Let_def)
    let ?c = "c\<lparr>cw_firstName := f, cw_lastName := l\<rparr>"
    have c': "?c \<in> set (in_contacts s')" "owns_email ownerId email ?c" "cw_id ?c = cw_id c"
      using c by (auto simp: s' update_where_def owns_email_def image_iff intro!: bexI [of _ c])
    have keep: "d \<in> set (in_contacts s')"
      if "d \<in> set (in_contacts s)" "cw_firstName d \<noteq> [] \<or> cw_ownerId d \<noteq> ownerId" for d
    proof -
      have "d \<noteq> c" using that(2) False c(2) by (auto simp: owns_email_def)
      then have "cw_id d \<noteq> cw_id c" using that(1) c(1) assms(3) by (auto simp: distinct_map dest: inj_onD)
      then show ?thesis using that(1) by (auto simp: s' update_where_def image_iff intro!: bexI [of _ d])
    qed
    have ids: "map cw_id (in_contacts s') = map cw_id (in_contacts s)" unfolding s' by (rule map_update_where) simp
    have len: "length (in_contacts s') = length (in_contacts s)" by (simp add: s' update_where_def)
    show ?thesis using assms(3) keep
      by (intro conjI bexI [OF _ c'(1)]) (simp_all add: c' s'(1) ids len)
  qed
qed

theorem upsertContactsFromMessage_correct_witness:
  "\<exists>s' i. upsertContactsFromMessage sample_env ''o'' (sample_mail ''1'' None NoReferences) (sample_ingest [] []) = (s', i)
     \<and> (\<exists>c \<in> set (in_contacts s'). owns_email ''o'' ''ann@x.org'' c \<and> i = Some (cw_id c))"
proof -
  let ?p = "sample_mail ''1'' None NoReferences" and ?s = "sample_ingest [] []"
  obtain s' i where run: "upsertContactsFromMessage sample_env ''o'' ?p ?s = (s', i)" by fastforce
  have h: "getFromAddress ?p = Some (''ann@x.org'', Some ''Ann Lee'')" "distinct (map cw_id (in_contacts ?s))"
    "fresh_id sample_env ?s \<notin> cw_id ` set (in_contacts ?s)" by code_simp+
  from upsertContactsFromMessage_correct [OF run h] run show ?thesis by blast
qed

text \<open>
  Remembering a mailing list never depends on the sender: the key of last resort, the sender's
  domain, is never used, because a mail with no list header at all is left out first. A list that the
  user has unsubscribed from stays so when another mail of it arrives.\<close>

theorem subscription_sender_irrelevant:
  "ingestMailSubscriptionFromMessage env ownerId (p\<lparr>pm_from := x\<rparr>) s = ingestMailSubscriptionFromMessage env ownerId p s
   \<and> map (\<lambda>r. (ms_ownerId r, ms_subscriptionKey r, ms_status r))
        (take (length (in_subscriptions s)) (in_subscriptions (ingestMailSubscriptionFromMessage env ownerId p s)))
     = map (\<lambda>r. (ms_ownerId r, ms_subscriptionKey r, ms_status r)) (in_subscriptions s)"
proof
  let ?f = "list_facts_of (pm_headers p)"
  have k: "subscription_key env (p\<lparr>pm_from := x\<rparr>) ?f = subscription_key env p ?f"
    if "\<not> (lf_listId ?f = None \<and> lf_url ?f = None \<and> lf_mailto ?f = None)"
    using that by (auto simp: subscription_key_def split: option.split)
  show "ingestMailSubscriptionFromMessage env ownerId (p\<lparr>pm_from := x\<rparr>) s = ingestMailSubscriptionFromMessage env ownerId p s"
  proof (cases "lf_listId ?f = None \<and> lf_url ?f = None \<and> lf_mailto ?f = None")
    case False
    have h: "pm_headers (p\<lparr>pm_from := x\<rparr>) = pm_headers p" by simp
    show ?thesis unfolding ingestMailSubscriptionFromMessage_def Let_def h k [OF False] ..
  qed (simp add: ingestMailSubscriptionFromMessage_def Let_def)
next
  let ?K = "\<lambda>r. (ms_ownerId r, ms_subscriptionKey r, ms_status r)"
  have m: "map ?K (update_where h g rs) = map ?K rs" if "\<And>r. ?K (g r) = ?K r" for h g rs
    using that by (rule map_update_where)
  have l: "length (update_where h g rs) = length rs" for h :: "subscription_row \<Rightarrow> bool" and g rs
    by (simp add: update_where_def)
  show "map ?K (take (length (in_subscriptions s)) (in_subscriptions (ingestMailSubscriptionFromMessage env ownerId p s)))
      = map ?K (in_subscriptions s)"
    by (simp add: ingestMailSubscriptionFromMessage_def Let_def take_map [symmetric] m l split: option.split)
qed

end
