(* ===== verification/ImapSync.thy ===== *)
theory ImapSync
  imports Folders Ingest
begin

text \<open>
  Synchronising the messages of an account: \<open>apps/worker/lib/imap/imap-sync-mailbox.ts\<close> (the loop that
  fetches what came after the last uid seen), \<open>imap-delta-fetch.ts\<close> (its handler, which stores a new
  message or carries a known one to the mailbox it was found in), and \<open>backfill/backfill-full.ts\<close> (the older
  messages, backwards from a cursor and within a quota).

  The IMAP client is an argument: what \<open>uidNext\<close> of a box is, and what a fetch of a range of uids yields,
  a list of messages, after which the stream ends or throws. \<open>serves\<close> is what IMAP promises about it: the
  messages of the range by ascending uid, or a first part of them when the stream breaks. \<open>syncMailbox\<close>
  takes the handler as an argument, as the source does, and the lemmas on it hold for every handler.
\<close>

subsection \<open>The client\<close>

record fetched_msg =
  fm_uid :: int
  fm_messageId :: "string option"
  fm_source :: "string option"
  fm_flags :: "string list"
  fm_size :: "int option"

record imap_box =
  bx_uidNext :: "int option"
  bx_fetch :: "int \<Rightarrow> int \<Rightarrow> fetched_msg list \<times> bool"

datatype 'e sync_error = SyncRowMissing string | ImapFailed | MessageFailed 'e

definition in_range :: "int \<Rightarrow> int \<Rightarrow> fetched_msg list \<Rightarrow> fetched_msg list" where
  "in_range a b ms = filter (\<lambda>m. a \<le> fm_uid m \<and> fm_uid m \<le> b) ms"

definition serves :: "fetched_msg list \<Rightarrow> imap_box \<Rightarrow> bool" where
  "serves ms box \<longleftrightarrow> sorted_wrt (<) (map fm_uid ms)
     \<and> (\<forall>a b. prefix (fst (bx_fetch box a b)) (in_range a b ms) \<and> (\<not> snd (bx_fetch box a b) \<longrightarrow> fst (bx_fetch box a b) = in_range a b ms))"

subsection \<open>\<open>syncMailbox\<close>\<close>

text \<open>The inner loop: the handler on each message, and the greatest uid so far.\<close>

fun fetch_loop :: "(fetched_msg \<Rightarrow> 's \<Rightarrow> 's \<times> 'e option) \<Rightarrow> fetched_msg list \<Rightarrow> int \<Rightarrow> 's \<Rightarrow> 's \<times> ('e + int)" where
  "fetch_loop h [] maxUid s = (s, Inr maxUid)"
| "fetch_loop h (m # ms) maxUid s =
     (case h m s of
        (s1, Some e) \<Rightarrow> (s1, Inl e)
      | (s1, None) \<Rightarrow> fetch_loop h ms (if fm_uid m \<noteq> 0 \<and> maxUid < fm_uid m then fm_uid m else maxUid) s1)"

definition set_last_seen :: "string \<Rightarrow> int \<Rightarrow> sync_row list \<Rightarrow> sync_row list" where
  "set_last_seen syncId uid rows = update_where (\<lambda>y. sy_id y = syncId) (\<lambda>y. y\<lparr>sy_lastSeenUid := uid\<rparr>) rows"

definition set_idle :: "string \<Rightarrow> date \<Rightarrow> sync_row list \<Rightarrow> sync_row list" where
  "set_idle syncId now rows = update_where (\<lambda>y. sy_id y = syncId) (\<lambda>y. y\<lparr>sy_phase := IDLE, sy_syncedAt := Some now\<rparr>) rows"

text \<open>
  The loop over windows of uids. With a window of no positive size it would not go forward; \<open>None\<close> is a
  loop that does not end.
\<close>

partial_function (option) sync_windows ::
  "int \<Rightarrow> imap_box \<Rightarrow> (fetched_msg \<Rightarrow> 's \<Rightarrow> 's \<times> 'e option) \<Rightarrow> string \<Rightarrow> date \<Rightarrow> int \<Rightarrow> int \<Rightarrow> int \<Rightarrow> sync_row list \<Rightarrow> 's
     \<Rightarrow> ((sync_row list \<times> 's) \<times> 'e sync_error option) option" where
  "sync_windows window box h syncId now currentTop start lastSeen rows s =
     (if start \<le> currentTop then
        let stop = min currentTop (start + window - 1); f = bx_fetch box start stop; r = fetch_loop h (fst f) lastSeen s
        in if isl (snd r) then Some ((rows, fst r), Some (MessageFailed (projl (snd r))))
           else if snd f then Some ((rows, fst r), Some ImapFailed)
           else if projr (snd r) > lastSeen
           then sync_windows window box h syncId now currentTop (stop + 1) (projr (snd r)) (set_last_seen syncId (projr (snd r)) rows) (fst r)
           else sync_windows window box h syncId now currentTop (stop + 1) lastSeen rows (fst r)
      else Some ((set_idle syncId now rows, s), None))"

declare sync_windows.simps [code]

definition syncMailbox ::
  "int \<Rightarrow> imap_box option \<Rightarrow> (fetched_msg \<Rightarrow> 's \<Rightarrow> 's \<times> 'e option) \<Rightarrow> string \<Rightarrow> string \<Rightarrow> date \<Rightarrow> sync_row list \<Rightarrow> 's
     \<Rightarrow> ((sync_row list \<times> 's) \<times> 'e sync_error option) option" where
  "syncMailbox window opened h identityId mailboxId now rows s =
     (case opened of
        None \<Rightarrow> Some ((rows, s), Some ImapFailed)
      | Some box \<Rightarrow>
          (case find (\<lambda>y. sy_identityId y = identityId \<and> sy_mailboxId y = mailboxId) rows of
             None \<Rightarrow> Some ((rows, s), Some (SyncRowMissing mailboxId))
           | Some sync \<Rightarrow>
               let lastSeen = sy_lastSeenUid sync; currentTop = top_uid (bx_uidNext box)
               in if currentTop \<le> lastSeen then Some ((rows, s), None)
                  else sync_windows window box h (sy_id sync) now currentTop (lastSeen + 1) lastSeen rows s))"

subsection \<open>Lemmas: delivering messages\<close>

text \<open>The reference: one pass over a list of messages, up to the first error.\<close>

fun deliver_all :: "(fetched_msg \<Rightarrow> 's \<Rightarrow> 's \<times> 'e option) \<Rightarrow> fetched_msg list \<Rightarrow> 's \<Rightarrow> 's \<times> 'e option" where
  "deliver_all h [] s = (s, None)"
| "deliver_all h (m # ms) s = (case h m s of (s1, Some e) \<Rightarrow> (s1, Some e) | (s1, None) \<Rightarrow> deliver_all h ms s1)"

lemma deliver_all_append:
  "deliver_all h (xs @ ys) s = (case deliver_all h xs s of (s1, Some e) \<Rightarrow> (s1, Some e) | (s1, None) \<Rightarrow> deliver_all h ys s1)"
  by (induction xs arbitrary: s) (auto split: prod.split option.split)

lemma fetch_loop_deliver:
  "fetch_loop h ms k s = (case deliver_all h ms s of (s1, Some e) \<Rightarrow> (s1, Inl e)
     | (s1, None) \<Rightarrow> (s1, Inr (foldl (\<lambda>a m. if fm_uid m \<noteq> 0 \<and> a < fm_uid m then fm_uid m else a) k ms)))"
  by (induction ms arbitrary: k s) (auto split: prod.split option.split)

lemma foldl_max_uid:
  "sorted_wrt (<) (map fm_uid ms) \<Longrightarrow> \<forall>m \<in> set ms. k < fm_uid m \<Longrightarrow> 0 \<le> k \<Longrightarrow>
   foldl (\<lambda>a m. if fm_uid m \<noteq> 0 \<and> a < fm_uid m then fm_uid m else a) k ms = (if ms = [] then k else fm_uid (last ms))"
  by (induction ms arbitrary: k) auto

lemma in_range_split:
  assumes "sorted_wrt (<) (map fm_uid ms)" "a \<le> b + 1" "b \<le> c"
  shows "in_range a c ms = in_range a b ms @ in_range (b + 1) c ms"
  using assms(1)
proof (induction ms)
  case (Cons m ms)
  have "in_range a b ms = []" if "b < fm_uid m"
    using Cons.prems that by (auto simp: in_range_def filter_empty_conv)
  then show ?case using Cons assms(2,3) by (auto simp: in_range_def)
qed (simp add: in_range_def)

lemma in_range_sorted: "sorted_wrt (<) (map fm_uid ms) \<Longrightarrow> sorted_wrt (<) (map fm_uid (in_range a b ms))"
  unfolding in_range_def by (induction ms) auto

lemma in_range_empty: "b < a \<Longrightarrow> in_range a b ms = []"
  by (auto simp: in_range_def filter_empty_conv)

lemma in_range_last:
  assumes "sorted_wrt (<) (map fm_uid ms)" "in_range a b ms \<noteq> []"
  shows "in_range (fm_uid (last (in_range a b ms)) + 1) b ms = []" "a \<le> fm_uid (last (in_range a b ms))"
    "fm_uid (last (in_range a b ms)) \<le> b"
proof -
  let ?l = "last (in_range a b ms)"
  have l: "?l \<in> set (in_range a b ms)" using assms(2) by simp
  then show "a \<le> fm_uid ?l" "fm_uid ?l \<le> b" by (auto simp: in_range_def)
  have "fm_uid m \<le> fm_uid ?l" if "m \<in> set (in_range a b ms)" for m
  proof -
    obtain xs where xs: "in_range a b ms = xs @ [?l]" using assms(2) by (metis append_butlast_last_id)
    have "sorted_wrt (<) (map fm_uid (xs @ [?l]))" using in_range_sorted [OF assms(1), of a b] xs by metis
    moreover have "m \<in> set (xs @ [?l])" using that xs by metis
    ultimately show ?thesis by (auto simp: sorted_wrt_append)
  qed
  then show "in_range (fm_uid ?l + 1) b ms = []"
    using \<open>a \<le> fm_uid ?l\<close> by (fastforce simp: in_range_def filter_empty_conv)
qed

text \<open>
  What a run of the window loop from \<open>start\<close> has done: it delivered \<open>ds\<close> without error and then the
  first part \<open>rest\<close> of what follows, and the mark it stored, \<open>L\<close>, lies just behind \<open>ds\<close>.
\<close>

definition sync_post where
  "sync_post h ms syncId now upto_uid start lastSeen rows s rows' s' e s1 L ds rest \<longleftrightarrow>
     deliver_all h ds s = (s1, None) \<and> fst (deliver_all h rest s1) = s' \<and> prefix (ds @ rest) (in_range start upto_uid ms)
     \<and> ds = in_range start L ms \<and> (L = lastSeen \<or> start \<le> L \<and> L \<le> upto_uid)
     \<and> rows' = (let r = (if L = lastSeen then rows else set_last_seen syncId L rows) in if e = None then set_idle syncId now r else r)
     \<and> (e = None \<longrightarrow> rest = [] \<and> ds = in_range start upto_uid ms)
     \<and> (case e of Some (MessageFailed x) \<Rightarrow> snd (deliver_all h rest s1) = Some x
         | Some (SyncRowMissing _) \<Rightarrow> False | _ \<Rightarrow> snd (deliver_all h rest s1) = None)"

lemma set_last_seen_twice: "set_last_seen i b (set_last_seen i a rows) = set_last_seen i b rows"
  by (simp add: set_last_seen_def update_where_def)

lemma sync_windows_run:
  assumes srv: "serves ms box" and w: "1 \<le> window"
  shows "0 \<le> lastSeen \<Longrightarrow> lastSeen < start \<Longrightarrow>
    \<exists>rows' s' e s1 L ds rest. sync_windows window box h syncId now upto_uid start lastSeen rows s = Some ((rows', s'), e)
      \<and> sync_post h ms syncId now upto_uid start lastSeen rows s rows' s' e s1 L ds rest"
proof (induction "nat (upto_uid + 1 - start)" arbitrary: start lastSeen rows s rule: less_induct)
  case less
  show ?case
  proof (cases "start \<le> upto_uid")
    case False
    then show ?thesis using less.prems
      by (subst sync_windows.simps) (rule exI [of _ "set_idle syncId now rows"], rule exI [of _ s], rule exI [of _ None], rule exI [of _ s],
        rule exI [of _ lastSeen], rule exI [of _ "[]"], rule exI [of _ "[]"], simp add: sync_post_def in_range_empty)
  next
    case True
    define stop where "stop = min upto_uid (start + window - 1)"
    have stop: "start \<le> stop" "stop \<le> upto_uid" using True w by (auto simp: stop_def)
    have sw: "sorted_wrt (<) (map fm_uid ms)" using srv by (simp add: serves_def)
    obtain fs br where f: "bx_fetch box start stop = (fs, br)" by fastforce
    have fpre: "prefix fs (in_range start stop ms)" and ffull: "\<not> br \<Longrightarrow> fs = in_range start stop ms"
      using srv f unfolding serves_def by (metis fst_conv snd_conv)+
    have split: "in_range start upto_uid ms = in_range start stop ms @ in_range (stop + 1) upto_uid ms"
      by (rule in_range_split [OF sw]) (use stop in auto)
    have pre: "prefix fs (in_range start upto_uid ms)" unfolding split using fpre by (simp add: prefix_append)
    obtain s1 e1 where d: "deliver_all h fs s = (s1, e1)" by fastforce
    have stopped: ?thesis if "e1 = None \<longrightarrow> br" and run: "sync_windows window box h syncId now upto_uid start lastSeen rows s
        = Some ((rows, s1), Some (case e1 of Some x \<Rightarrow> MessageFailed x | None \<Rightarrow> ImapFailed))"
      using run d pre less.prems
      by (intro exI [of _ rows] exI [of _ s1] exI [of _ "Some (case e1 of Some x \<Rightarrow> MessageFailed x | None \<Rightarrow> ImapFailed)"]
          exI [of _ s] exI [of _ lastSeen] exI [of _ "[]"] exI [of _ fs]) (auto simp: sync_post_def in_range_empty split: option.split)
    show ?thesis
    proof (cases "e1 = None \<and> \<not> br")
      case False
      have "sync_windows window box h syncId now upto_uid start lastSeen rows s
        = Some ((rows, s1), Some (case e1 of Some x \<Rightarrow> MessageFailed x | None \<Rightarrow> ImapFailed))"
        by (subst sync_windows.simps)
           (use True d f False in \<open>auto simp: stop_def [symmetric] Let_def fetch_loop_deliver split: option.splits\<close>)
      then show ?thesis using False by (intro stopped) auto
    next
      case ok: True
      define B where "B = in_range start stop ms"
      have B: "fs = B" "deliver_all h B s = (s1, None)" using ffull ok d by (auto simp: B_def)
      define k where "k = (if B = [] then lastSeen else fm_uid (last B))"
      have "\<forall>m \<in> set B. lastSeen < fm_uid m" using less.prems(2) by (auto simp: B_def in_range_def)
      then have kf: "foldl (\<lambda>a m. if fm_uid m \<noteq> 0 \<and> a < fm_uid m then fm_uid m else a) lastSeen B = k"
        unfolding k_def using foldl_max_uid [OF in_range_sorted [OF sw, of start stop]] less.prems(1) by (simp add: B_def)
      have kb: "B \<noteq> [] \<Longrightarrow> start \<le> k \<and> k \<le> stop \<and> in_range (k + 1) stop ms = []"
        using in_range_last [OF sw, of start stop] by (simp add: k_def B_def)
      define rows1 where "rows1 = (if B = [] then rows else set_last_seen syncId k rows)"
      have run: "sync_windows window box h syncId now upto_uid start lastSeen rows s
          = sync_windows window box h syncId now upto_uid (stop + 1) k rows1 s1"
        using True f B ok kb less.prems kf k_def
        by (subst sync_windows.simps) (auto simp: stop_def [symmetric] Let_def fetch_loop_deliver rows1_def)
      have "nat (upto_uid + 1 - (stop + 1)) < nat (upto_uid + 1 - start)" "0 \<le> k" "k < stop + 1"
        using stop kb less.prems by (auto simp: k_def)
      from less.hyps [OF this] obtain rows' s' e s2 L ds rest
        where r: "sync_windows window box h syncId now upto_uid (stop + 1) k rows1 s1 = Some ((rows', s'), e)"
          "sync_post h ms syncId now upto_uid (stop + 1) k rows1 s1 rows' s' e s2 L ds rest" by blast
      have whole: "in_range start L ms = B @ ds"
      proof (cases "L = k")
        case True
        have "ds = []" using r(2) True \<open>k < stop + 1\<close> by (simp add: sync_post_def in_range_empty)
        moreover have "in_range start k ms = B"
        proof (cases "B = []")
          case True
          then show ?thesis using less.prems(2) by (simp add: k_def in_range_empty)
        next
          case False
          have "in_range start stop ms = in_range start k ms @ in_range (k + 1) stop ms"
            by (rule in_range_split [OF sw]) (use kb [OF False] in auto)
          then show ?thesis using kb [OF False] by (simp add: B_def)
        qed
        ultimately show ?thesis using True by simp
      next
        case False
        then have "stop + 1 \<le> L" "ds = in_range (stop + 1) L ms" using r(2) by (auto simp: sync_post_def)
        moreover have "in_range start L ms = in_range start stop ms @ in_range (stop + 1) L ms"
          by (rule in_range_split [OF sw]) (use stop \<open>stop + 1 \<le> L\<close> in auto)
        ultimately show ?thesis by (simp add: B_def)
      qed
      have "sync_post h ms syncId now upto_uid start lastSeen rows s rows' s' e s2 L (B @ ds) rest"
        using r(2) whole B(2) split kb stop less.prems
        by (auto simp: sync_post_def deliver_all_append rows1_def Let_def set_last_seen_twice k_def B_def [symmetric] in_range_empty split: if_splits)
      then show ?thesis using run r(1) by (intro exI conjI) simp_all
    qed
  qed
qed

lemma find_sync_updated:
  assumes "find P rows = Some sync" "distinct (map sy_id rows)" "\<And>y. sy_id (f y) = sy_id y"
  shows "find (\<lambda>y. sy_id y = sy_id sync) (update_where (\<lambda>y. sy_id y = sy_id sync) f rows) = Some (f sync)"
proof -
  have "find (\<lambda>y. sy_id y = sy_id sync) rows = Some sync" using find_by_key [OF assms(2)] find_mem [OF assms(1)] by simp
  then show ?thesis using find_update_where [of "\<lambda>y. sy_id y = sy_id sync" f rows] assms(3) by simp
qed

subsection \<open>Handlers\<close>

text \<open>A handler that keeps a property of its state keeps it through a whole synchronisation, however it ends.\<close>

locale message_handler =
  fixes h :: "fetched_msg \<Rightarrow> 's \<Rightarrow> 's \<times> 'e option" and I :: "'s \<Rightarrow> bool"
  assumes keeps: "I s \<Longrightarrow> I (fst (h m s))"
begin

lemma deliver_keeps: "I s \<Longrightarrow> I (fst (deliver_all h ms s))"
proof (induction ms arbitrary: s)
  case (Cons m ms)
  then show ?case using keeps [of s m] by (auto split: prod.split option.split)
qed simp

lemma fetch_loop_keeps: "I s \<Longrightarrow> I (fst (fetch_loop h ms k s))"
  using deliver_keeps [of s ms] by (auto simp: fetch_loop_deliver split: prod.splits option.splits)

lemma sync_windows_keeps:
  assumes "sync_windows window box h syncId now currentTop start lastSeen rows s = Some r" "I s"
  shows "I (snd (fst r))"
proof -
  have "g = h \<longrightarrow> I s \<longrightarrow> I (snd (fst r))"
    if "sync_windows window box g syncId now currentTop start lastSeen rows s = Some r" for g
    using _ that
  proof (rule sync_windows.raw_induct)
    fix rec window box g syncId now currentTop start lastSeen rows s r
    assume IH: "\<And>window box g syncId now currentTop start lastSeen rows s r.
        rec window box g syncId now currentTop start lastSeen rows s = Some r \<Longrightarrow> g = h \<longrightarrow> I s \<longrightarrow> I (snd (fst r))"
      and eq: "(if start \<le> currentTop then
          let stop = min currentTop (start + window - 1); f = bx_fetch box start stop; q = fetch_loop g (fst f) lastSeen s
          in if isl (snd q) then Some ((rows, fst q), Some (MessageFailed (projl (snd q))))
             else if snd f then Some ((rows, fst q), Some ImapFailed)
             else if projr (snd q) > lastSeen
             then rec window box g syncId now currentTop (stop + 1) (projr (snd q)) (set_last_seen syncId (projr (snd q)) rows) (fst q)
             else rec window box g syncId now currentTop (stop + 1) lastSeen rows (fst q)
        else Some ((set_idle syncId now rows, s), None)) = Some r"
    show "g = h \<longrightarrow> I s \<longrightarrow> I (snd (fst r))"
    proof (intro impI)
      assume g: "g = h" and i: "I s"
      show "I (snd (fst r))" using eq IH [OF _] fetch_loop_keeps [OF i] i unfolding g
        by (auto simp: Let_def split: if_splits)
    qed
  qed
  then show ?thesis using assms by blast
qed

lemma syncMailbox_keeps: "syncMailbox window opened h identityId mailboxId now rows s = Some r \<Longrightarrow> I s \<Longrightarrow> I (snd (fst r))"
  by (auto simp: syncMailbox_def Let_def split: option.splits if_splits intro: sync_windows_keeps)

end

subsection \<open>\<open>deltaFetch\<close>\<close>

type_synonym mail_parser = "string \<Rightarrow> parsed_mail"

definition imap_flag :: "string \<Rightarrow> string" where
  "imap_flag f = backslash # f"

definition delta_opts :: "string \<Rightarrow> string \<Rightarrow> string \<Rightarrow> fetched_msg \<Rightarrow> ingest_opts" where
  "delta_opts ownerId mailboxId path m =
     \<lparr>io_ownerId = ownerId, io_mailboxId = mailboxId, io_imap = Some \<lparr>im_uid = Some (fm_uid m), im_mailboxPath = Some path\<rparr>,
      io_seen = Some (imap_flag ''Seen'' \<in> set (fm_flags m)), io_answered = Some (imap_flag ''Answered'' \<in> set (fm_flags m)),
      io_flagged = Some (imap_flag ''Flagged'' \<in> set (fm_flags m)), io_live = True\<rparr>"

definition store_fetched :: "ingest_env \<Rightarrow> mail_parser \<Rightarrow> ingest_opts \<Rightarrow> fetched_msg \<Rightarrow> ingest \<Rightarrow> ingest \<times> ingest_error option" where
  "store_fetched env parse opts m s =
     (let raw = or_default (fm_source m) []
      in case parseAndStoreEmail env opts raw (parse raw) s of (s1, Inl e) \<Rightarrow> (s1, Some e) | (s1, Inr _) \<Rightarrow> (s1, None))"

definition delta_message :: "ingest_env \<Rightarrow> mail_parser \<Rightarrow> string \<Rightarrow> string \<Rightarrow> string \<Rightarrow> fetched_msg \<Rightarrow> ingest \<Rightarrow> ingest \<times> ingest_error option" where
  "delta_message env parse ownerId mailboxId path m s =
     (case or_undefined (map_option trim (fm_messageId m)) of
        None \<Rightarrow> store_fetched env parse (delta_opts ownerId mailboxId path m) m s
      | Some messageId \<Rightarrow>
          (case find (\<lambda>r. row_ownerId r = ownerId \<and> row_messageId r = messageId) (st_messages (in_store s)) of
             Some existing \<Rightarrow> (s\<lparr>in_store := deltaFetch_existing (ge_now env) ownerId mailboxId path existing (in_store s)\<rparr>, None)
           | None \<Rightarrow> store_fetched env parse (delta_opts ownerId mailboxId path m) m s))"

text \<open>The mailboxes of the identity in turn; one without a row of \<open>mailbox_sync\<close> is left out, an error ends the job.\<close>

fun delta_loop ::
  "ingest_env \<Rightarrow> mail_parser \<Rightarrow> (string \<Rightarrow> imap_box option) \<Rightarrow> string \<Rightarrow> string \<Rightarrow> mailbox_row list \<Rightarrow> sync_row list \<Rightarrow> ingest
     \<Rightarrow> ((sync_row list \<times> ingest) \<times> ingest_error sync_error option) option" where
  "delta_loop env parse opened ownerId identityId [] rows s = Some ((rows, s), None)"
| "delta_loop env parse opened ownerId identityId (b # bs) rows s =
     (if find (\<lambda>y. sy_identityId y = identityId \<and> sy_mailboxId y = mx_id b) rows = None
      then delta_loop env parse opened ownerId identityId bs rows s
      else let path = nullish (mx_imapPath b) (mx_name b)
           in case syncMailbox 500 (opened path) (delta_message env parse ownerId (mx_id b) path) identityId (mx_id b) (ge_now env) rows s of
                None \<Rightarrow> None
              | Some ((rows1, s1), Some e) \<Rightarrow> Some ((rows1, s1), Some e)
              | Some ((rows1, s1), None) \<Rightarrow> delta_loop env parse opened ownerId identityId bs rows1 s1)"

definition deltaFetch ::
  "ingest_env \<Rightarrow> mail_parser \<Rightarrow> (string \<Rightarrow> imap_box option) \<Rightarrow> bool \<Rightarrow> account_row option \<Rightarrow> sync_row list \<Rightarrow> ingest
     \<Rightarrow> ((sync_row list \<times> ingest) \<times> ingest_error sync_error option) option" where
  "deltaFetch env parse opened usable identity rows s =
     (case identity of
        None \<Rightarrow> Some ((rows, s), None)
      | Some a \<Rightarrow>
          if \<not> usable \<or> ac_ownerId a = [] then Some ((rows, s), None)
          else delta_loop env parse opened (ac_ownerId a) (ac_id a)
                 (filter (\<lambda>b. mx_identityId b = ac_id a) (st_mailboxes (in_store s))) rows s)"

text \<open>
  What the handler keeps: the tables are well formed (all but the listing, which the handling of a known
  message may leave incomplete), and the mailboxes and identities are those of before.
\<close>

definition delta_inv :: "ingest_env \<Rightarrow> mailbox_row list \<Rightarrow> identity_row list \<Rightarrow> ingest \<Rightarrow> bool" where
  "delta_inv env boxes idents s \<longleftrightarrow> tables_ok env s \<and> st_mailboxes (in_store s) = boxes \<and> st_identities (in_store s) = idents"

definition owner_box :: "string \<Rightarrow> string \<Rightarrow> mailbox_row list \<Rightarrow> identity_row list \<Rightarrow> bool" where
  "owner_box ownerId mailboxId boxes idents \<longleftrightarrow>
     (\<exists>b. find (\<lambda>b. mx_id b = mailboxId) boxes = Some b \<and> mx_ownerId b = ownerId \<and> find (\<lambda>d. idt_id d = mx_identityId b) idents \<noteq> None)"

lemma createOrInitializeThread_tables:
  "createOrInitializeThread env o' p s = (s1, t) \<Longrightarrow>
   st_mailboxes (in_store s1) = st_mailboxes (in_store s) \<and> st_identities (in_store s1) = st_identities (in_store s)
   \<and> st_messages (in_store s1) = st_messages (in_store s)"
  by (auto simp: createOrInitializeThread_def Let_def split: option.splits)

lemma after_insert_tables:
  "st_mailboxes (in_store (fst (after_insert env opts raw p m s))) = st_mailboxes (in_store s)
   \<and> st_identities (in_store (fst (after_insert env opts raw p m s))) = st_identities (in_store s)
   \<and> st_messages (in_store (fst (after_insert env opts raw p m s))) = st_messages (in_store s)"
proof -
  obtain s2 c where c: "upsertContactsFromMessage env (io_ownerId opts) p (ingestMailSubscriptionFromMessage env (io_ownerId opts) p s) = (s2, c)"
    by fastforce
  have f: "in_store s2 = in_store s"
    using frame_trans [OF frame_subscription frame_contacts, of s env "io_ownerId opts" p env "io_ownerId opts" p] c by (simp add: frame_def)
  show ?thesis
  proof (cases "upsertMailboxThreadItem (ge_now env) (row_id m) (in_store s2)")
    case (Inl e)
    then show ?thesis using f by (simp add: after_insert_def Let_def c)
  next
    case (Inr r)
    obtain st k where r: "r = (st, k)" by (cases r) blast
    have st: "st_mailboxes st = st_mailboxes (in_store s)" "st_identities st = st_identities (in_store s)"
      "st_messages st = st_messages (in_store s)"
      using Inr f unfolding r by (auto simp: upsertMailboxThreadItem_def split: option.splits)
    define s3 where "s3 = s2\<lparr>in_store := touch_thread (row_createdAt m) (row_threadId m) st\<rparr>"
    have "in_store (fst (after_insert env opts raw p m s)) = in_store s3"
      using frame_attachments [of s3 env opts "row_id m" "[]" "pm_attachments p"]
        frame_jobs [of "fst (store_attachments env opts (row_id m) [] (pm_attachments p) s3)" env opts raw m c]
      by (auto simp: after_insert_def Let_def c Inr r s3_def [symmetric] frame_def split: prod.splits option.splits)
    then show ?thesis using st by (simp add: s3_def store_simps)
  qed
qed

lemma parseAndStoreEmail_tables:
  "st_mailboxes (in_store (fst (parseAndStoreEmail env opts raw p s))) = st_mailboxes (in_store s)
   \<and> st_identities (in_store (fst (parseAndStoreEmail env opts raw p s))) = st_identities (in_store s)"
proof -
  obtain s1 t where t: "createOrInitializeThread env (io_ownerId opts) p s = (s1, t)" by fastforce
  show ?thesis using createOrInitializeThread_tables [OF t] after_insert_tables
    by (auto simp: parseAndStoreEmail_def Let_def t split: option.split)
qed

subsection \<open>Lemmas: the handler keeps the tables\<close>

lemma owner_box_store:
  assumes "owner_box ownerId mailboxId boxes idents" "st_mailboxes st = boxes" "st_identities st = idents"
  obtains b where "find_mailbox st mailboxId = Some b" "mx_ownerId b = ownerId" "find_identity st (mx_identityId b) \<noteq> None"
  using assms unfolding owner_box_def find_mailbox_def find_identity_def by blast

lemma store_fetched_keeps:
  assumes "delta_inv env boxes idents s" "owner_box (io_ownerId opts) (io_mailboxId opts) boxes idents"
  shows "delta_inv env boxes idents (fst (store_fetched env parse opts m s))"
proof -
  let ?raw = "or_default (fm_source m) []"
  obtain s' res where run: "parseAndStoreEmail env opts ?raw (parse ?raw) s = (s', res)" by fastforce
  have ok: "tables_ok env s" "st_mailboxes (in_store s) = boxes" "st_identities (in_store s) = idents"
    using assms(1) by (simp_all add: delta_inv_def)
  obtain b where b: "find_mailbox (in_store s) (io_mailboxId opts) = Some b" "mx_ownerId b = io_ownerId opts"
    "find_identity (in_store s) (mx_identityId b) \<noteq> None"
    by (rule owner_box_store [OF assms(2) ok(2,3)])
  have "tables_ok env s'" by (rule parseAndStoreEmail_run [OF ok(1) _ run, THEN conjunct1]) (use b in simp)
  then show ?thesis using ok run parseAndStoreEmail_tables [of env opts ?raw "parse ?raw" s]
    by (auto simp: store_fetched_def delta_inv_def Let_def split: sum.split)
qed

lemma relocates_tables:
  assumes "tables_ok env s" "relocates t src dest (st_messages (in_store s)) (st_messages st)" "st_threads st = st_threads (in_store s)"
    "store_inv st" "owned st"
  shows "tables_ok env (s\<lparr>in_store := st\<rparr>)"
proof -
  have row: "\<exists>e \<in> set (st_messages (in_store s)). row_id d = row_id e \<and> row_threadId d = row_threadId e" if "d \<in> set (st_messages st)" for d
    by (rule relocatesE [OF assms(2) that]) blast
  have "threads_ok st" using assms(1,3) row by (fastforce simp: tables_ok_def threads_ok_def list_all_iff)
  moreover have "ids_in_use st \<subseteq> ids_in_use (in_store s)" using assms(3) row by (fastforce simp: ids_in_use_def)
  ultimately show ?thesis using assms(1,4,5) by (auto simp: tables_ok_def supply_ok_def)
qed

lemma delta_message_keeps:
  assumes inv: "delta_inv env boxes idents s" and box: "owner_box ownerId mailboxId boxes idents"
  shows "delta_inv env boxes idents (fst (delta_message env parse ownerId mailboxId path m s))"
proof -
  have sf: "delta_inv env boxes idents (fst (store_fetched env parse (delta_opts ownerId mailboxId path m) m s))"
    by (rule store_fetched_keeps [OF inv]) (simp add: delta_opts_def box)
  have known: "delta_inv env boxes idents (s\<lparr>in_store := deltaFetch_existing (ge_now env) ownerId mailboxId path existing (in_store s)\<rparr>)"
    if "find (\<lambda>r. row_ownerId r = ownerId \<and> row_messageId r = messageId) (st_messages (in_store s)) = Some existing" for messageId existing
  proof -
    have e: "existing \<in> set (st_messages (in_store s))" "row_ownerId existing = ownerId" using find_mem [OF that] by simp_all
    have ok: "tables_ok env s" "st_mailboxes (in_store s) = boxes" "st_identities (in_store s) = idents" "store_inv (in_store s)" "owned (in_store s)"
      using inv by (simp_all add: delta_inv_def tables_ok_def)
    obtain b where b: "find_mailbox (in_store s) mailboxId = Some b" "mx_ownerId b = ownerId" "find_identity (in_store s) (mx_identityId b) \<noteq> None"
      by (rule owner_box_store [OF box ok(2,3)])
    note d = deltaFetch_existing_run [OF ok(4,5) e(1) b(1,3), of "ge_now env" ownerId path]
    have "mx_ownerId b = row_ownerId existing" using b(2) e(2) by simp
    note d = d [OF this]
    from d(3) obtain t src where "relocates t src mailboxId (st_messages (in_store s))
      (st_messages (deltaFetch_existing (ge_now env) ownerId mailboxId path existing (in_store s)))" by blast
    from relocates_tables [OF ok(1) this d(4) d(1) d(2)] show ?thesis using d(5,6) ok(2,3) by (simp add: delta_inv_def)
  qed
  show ?thesis using sf known by (auto simp: delta_message_def split: option.split)
qed

interpretation delta: message_handler "delta_message env parse ownerId mailboxId path"
  "\<lambda>s. owner_box ownerId mailboxId boxes idents \<and> delta_inv env boxes idents s"
  for env parse ownerId mailboxId path boxes idents
  by unfold_locales (simp add: delta_message_keeps)

lemma sync_row_found:
  assumes "find P rows = Some sync" "distinct (map sy_id rows)"
  shows "find (\<lambda>y. sy_id y = sy_id sync) (set_last_seen (sy_id sync) L rows) = Some (sync\<lparr>sy_lastSeenUid := L\<rparr>)"
    "find (\<lambda>y. sy_id y = sy_id sync) (set_idle (sy_id sync) now rows) = Some (sync\<lparr>sy_phase := IDLE, sy_syncedAt := Some now\<rparr>)"
    "find (\<lambda>y. sy_id y = sy_id sync) rows = Some sync"
    "distinct (map sy_id (set_last_seen i L rows))"
proof -
  show "find (\<lambda>y. sy_id y = sy_id sync) rows = Some sync" using find_by_key [OF assms(2)] find_mem [OF assms(1)] by simp
  show "find (\<lambda>y. sy_id y = sy_id sync) (set_last_seen (sy_id sync) L rows) = Some (sync\<lparr>sy_lastSeenUid := L\<rparr>)"
    unfolding set_last_seen_def by (rule find_sync_updated [OF assms]) simp
  show "find (\<lambda>y. sy_id y = sy_id sync) (set_idle (sy_id sync) now rows) = Some (sync\<lparr>sy_phase := IDLE, sy_syncedAt := Some now\<rparr>)"
    unfolding set_idle_def by (rule find_sync_updated [OF assms]) simp
  show "distinct (map sy_id (set_last_seen i L rows))"
    unfolding set_last_seen_def by (subst map_update_where) (simp_all add: assms(2) del: distinct_map)
qed

text \<open>What a synchronisation leaves of the rows of \<open>mailbox_sync\<close>: the same rows, no mark moved back.\<close>

definition marks_grow :: "sync_row list \<Rightarrow> sync_row list \<Rightarrow> bool" where
  "marks_grow = list_all2 (\<lambda>a b. sy_id b = sy_id a \<and> sy_lastSeenUid a \<le> sy_lastSeenUid b)"

definition marks_ok :: "sync_row list \<Rightarrow> bool" where
  "marks_ok rows \<longleftrightarrow> distinct (map sy_id rows) \<and> list_all (\<lambda>y. 0 \<le> sy_lastSeenUid y) rows"

lemma marks_grow_refl [simp]: "marks_grow rows rows"
  by (simp add: marks_grow_def list.rel_refl)

lemma marks_grow_trans: "marks_grow a b \<Longrightarrow> marks_grow b c \<Longrightarrow> marks_grow a c"
  unfolding marks_grow_def by (rule list_all2_trans [of _ _ _ a b c]) auto

lemma marks_grow_ok:
  assumes "marks_grow rows rows'" "marks_ok rows"
  shows "marks_ok rows'"
proof -
  have "map sy_id rows' = map sy_id rows"
    using assms(1) by (simp add: marks_grow_def list_eq_iff_nth_eq list_all2_conv_all_nth)
  moreover have "list_all (\<lambda>y. 0 \<le> sy_lastSeenUid y) rows'"
    using assms by (fastforce simp: marks_grow_def marks_ok_def list_all2_conv_all_nth list_all_length)
  ultimately show ?thesis using assms(2) by (simp add: marks_ok_def)
qed

lemma marks_grow_update:
  assumes "\<And>y. y \<in> set rows \<Longrightarrow> P y \<Longrightarrow> sy_id (f y) = sy_id y \<and> sy_lastSeenUid y \<le> sy_lastSeenUid (f y)"
  shows "marks_grow rows (update_where P f rows)"
  using assms by (simp add: marks_grow_def update_where_def list_all2_conv_all_nth)

lemma syncMailbox_returns:
  assumes "\<forall>box. opened = Some box \<longrightarrow> (\<exists>ms. serves ms box)" "1 \<le> window" "marks_ok rows"
  shows "\<exists>rows' s' e. syncMailbox window opened h identityId mailboxId now rows s = Some ((rows', s'), e) \<and> marks_grow rows rows'"
proof (cases opened)
  case (Some box)
  show ?thesis
  proof (cases "find (\<lambda>y. sy_identityId y = identityId \<and> sy_mailboxId y = mailboxId) rows")
    case (Some sync)
    let ?top = "top_uid (bx_uidNext box)" and ?l = "sy_lastSeenUid sync"
    have mem: "sync \<in> set rows" "0 \<le> ?l" "distinct (map sy_id rows)"
      using find_mem [OF Some] assms(3) by (auto simp: marks_ok_def list_all_iff)
    obtain ms where srv: "serves ms box" using assms(1) \<open>opened = Some box\<close> by blast
    show ?thesis
    proof (cases "?top \<le> ?l")
      case True
      then show ?thesis using Some \<open>opened = Some box\<close> by (simp add: syncMailbox_def)
    next
      case False
      obtain rows' s' e s1 L ds rest where run: "sync_windows window box h (sy_id sync) now ?top (?l + 1) ?l rows s = Some ((rows', s'), e)"
        and post: "sync_post h ms (sy_id sync) now ?top (?l + 1) ?l rows s rows' s' e s1 L ds rest"
        using sync_windows_run [OF srv assms(2) mem(2), of "?l + 1" h "sy_id sync" now ?top rows s] by auto
      have one: "y = sync" if "y \<in> set rows" "sy_id y = sy_id sync" for y using distinct_key_eq [OF mem(3) that(1) mem(1) that(2)] .
      have L: "?l \<le> L" using post by (auto simp: sync_post_def)
      define r where "r = (if L = ?l then rows else set_last_seen (sy_id sync) L rows)"
      have "marks_grow rows (set_last_seen (sy_id sync) L rows)"
        unfolding set_last_seen_def by (rule marks_grow_update) (use one L in auto)
      then have "marks_grow rows r" by (simp add: r_def)
      moreover have "marks_grow r (set_idle (sy_id sync) now r)" unfolding set_idle_def by (rule marks_grow_update) simp
      moreover have "rows' = (if e = None then set_idle (sy_id sync) now r else r)" using post by (simp add: sync_post_def r_def Let_def)
      ultimately have "marks_grow rows rows'" using marks_grow_trans by auto
      then show ?thesis using run False Some \<open>opened = Some box\<close> by (simp add: syncMailbox_def)
    qed
  qed (simp add: syncMailbox_def Some)
qed (simp add: syncMailbox_def)

lemma delta_loop_run:
  assumes "\<forall>p box. opened p = Some box \<longrightarrow> (\<exists>ms. serves ms box)"
  shows "marks_ok rows \<Longrightarrow> delta_inv env boxes idents s \<Longrightarrow> \<forall>b \<in> set bs. owner_box ownerId (mx_id b) boxes idents \<Longrightarrow>
    \<exists>rows' s' e. delta_loop env parse opened ownerId identityId bs rows s = Some ((rows', s'), e)
      \<and> marks_grow rows rows' \<and> delta_inv env boxes idents s'"
proof (induction bs arbitrary: rows s)
  case (Cons b bs)
  let ?p = "nullish (mx_imapPath b) (mx_name b)"
  show ?case
  proof (cases "find (\<lambda>y. sy_identityId y = identityId \<and> sy_mailboxId y = mx_id b) rows = None")
    case True
    then show ?thesis using Cons by simp
  next
    case False
    have "\<forall>box. opened ?p = Some box \<longrightarrow> (\<exists>ms. serves ms box)" using assms by simp
    moreover have "(1 :: int) \<le> 500" by simp
    ultimately obtain rows1 s1 e
      where y: "syncMailbox 500 (opened ?p) (delta_message env parse ownerId (mx_id b) ?p) identityId (mx_id b) (ge_now env) rows s
        = Some ((rows1, s1), e)" "marks_grow rows rows1"
      using syncMailbox_returns [OF _ _ Cons.prems(1), of "opened ?p" 500 "delta_message env parse ownerId (mx_id b) ?p" identityId "mx_id b" "ge_now env" s]
      by blast
    have i: "delta_inv env boxes idents s1" using delta.syncMailbox_keeps [OF y(1), of boxes idents] Cons.prems(2,3) by simp
    have "\<exists>rows' s' e. delta_loop env parse opened ownerId identityId bs rows1 s1 = Some ((rows', s'), e)
        \<and> marks_grow rows1 rows' \<and> delta_inv env boxes idents s'"
      using Cons.IH [OF marks_grow_ok [OF y(2) Cons.prems(1)] i] Cons.prems(3) by simp
    then show ?thesis using False y i marks_grow_trans [OF y(2)] by (cases e) (auto simp: Let_def)
  qed
qed simp

text \<open>
  C5. Synchronising a mailbox, with any handler and any window size, ends. What it stores as the last uid
  seen never goes back, every message up to that uid was handled without an error, in the order of the
  uids and once; an error, of the handler or of the connection, leaves only messages behind that uid. A
  run without an error has done what one pass over all new messages does.\<close>

theorem syncMailbox_correct:
  assumes srv: "serves ms box" and w: "1 \<le> window" and d: "distinct (map sy_id rows)"
    and row: "find (\<lambda>y. sy_identityId y = identityId \<and> sy_mailboxId y = mailboxId) rows = Some sync" and old: "0 \<le> sy_lastSeenUid sync"
  shows "\<exists>rows' s' e y s1 rest. syncMailbox window (Some box) h identityId mailboxId now rows s = Some ((rows', s'), e)
     \<and> find (\<lambda>y. sy_id y = sy_id sync) rows' = Some y \<and> sy_lastSeenUid sync \<le> sy_lastSeenUid y
     \<and> deliver_all h (in_range (sy_lastSeenUid sync + 1) (sy_lastSeenUid y) ms) s = (s1, None) \<and> fst (deliver_all h rest s1) = s'
     \<and> prefix (in_range (sy_lastSeenUid sync + 1) (sy_lastSeenUid y) ms @ rest) (in_range (sy_lastSeenUid sync + 1) (top_uid (bx_uidNext box)) ms)
     \<and> (e = None \<longrightarrow> deliver_all h (in_range (sy_lastSeenUid sync + 1) (top_uid (bx_uidNext box)) ms) s = (s', None))"
proof (cases "top_uid (bx_uidNext box) \<le> sy_lastSeenUid sync")
  case True
  then show ?thesis using row sync_row_found(3) [OF row d]
    by (intro exI [of _ rows] exI [of _ s] exI [of _ None] exI [of _ sync] exI [of _ s] exI [of _ "[]"]) (simp add: syncMailbox_def in_range_empty)
next
  case False
  let ?top = "top_uid (bx_uidNext box)" and ?l = "sy_lastSeenUid sync"
  obtain rows' s' e s1 L ds rest where run: "sync_windows window box h (sy_id sync) now ?top (?l + 1) ?l rows s = Some ((rows', s'), e)"
    and post: "sync_post h ms (sy_id sync) now ?top (?l + 1) ?l rows s rows' s' e s1 L ds rest"
    using sync_windows_run [OF srv w old, of "?l + 1" h "sy_id sync" now ?top rows s] by auto
  define r where "r = (if L = ?l then rows else set_last_seen (sy_id sync) L rows)"
  have r: "find (\<lambda>y. sy_id y = sy_id sync) r = Some (sync\<lparr>sy_lastSeenUid := L\<rparr>)" "distinct (map sy_id r)"
    using sync_row_found [OF row d] d by (auto simp: r_def)
  have rows': "rows' = (if e = None then set_idle (sy_id sync) now r else r)" using post by (simp add: sync_post_def r_def Let_def)
  obtain y where y: "find (\<lambda>y. sy_id y = sy_id sync) rows' = Some y" "sy_lastSeenUid y = L"
    using r(1) sync_row_found(2) [OF r(1,2), of now] that by (cases "e = None") (simp_all add: rows')
  have "syncMailbox window (Some box) h identityId mailboxId now rows s = Some ((rows', s'), e)"
    using False row run by (simp add: syncMailbox_def)
  then show ?thesis using post y
    by (intro exI [of _ rows'] exI [of _ s'] exI [of _ e] exI [of _ y] exI [of _ s1] exI [of _ rest]) (auto simp: sync_post_def)
qed

text \<open>A server with three messages, whose stream breaks where asked for.\<close>

definition sample_fetched :: "int \<Rightarrow> fetched_msg" where
  "sample_fetched n = \<lparr>fm_uid = n, fm_messageId = Some ''m'', fm_source = Some ''raw'', fm_flags = [], fm_size = Some 10\<rparr>"

definition sample_box :: "int list \<Rightarrow> imap_box" where
  "sample_box us = \<lparr>bx_uidNext = Some 4, bx_fetch = (\<lambda>a b. (in_range a b (map sample_fetched us), False))\<rparr>"

definition sample_sync :: "int \<Rightarrow> int \<Rightarrow> sync_row" where
  "sample_sync seen cursor = \<lparr>sy_id = ''y'', sy_identityId = ''i'', sy_mailboxId = ''b1'', sy_uidValidity = 1, sy_lastSeenUid = seen,
     sy_backfillCursorUid = cursor, sy_phase = BOOTSTRAP, sy_syncedAt = None\<rparr>"

lemma sample_box_serves: "sorted_wrt (<) us \<Longrightarrow> serves (map sample_fetched us) (sample_box us)"
  by (simp add: serves_def sample_box_def comp_def sample_fetched_def)

theorem syncMailbox_correct_witness:
  "\<exists>rows' s' y. syncMailbox 2 (Some (sample_box [1, 2, 3])) (\<lambda>m s. (s @ [fm_uid m], None :: string option)) ''i'' ''b1'' 9 [sample_sync 1 0] []
       = Some ((rows', s'), None) \<and> find (\<lambda>y. sy_id y = ''y'') rows' = Some y \<and> 1 \<le> sy_lastSeenUid y \<and> s' = [2, 3]"
proof -
  let ?h = "\<lambda>m s. (s @ [fm_uid m], None :: string option)" and ?y = "sample_sync 1 0" and ?ms = "map sample_fetched [1, 2, 3]"
  have h: "serves ?ms (sample_box [1, 2, 3])" by (rule sample_box_serves) simp
  have c: "(1 :: int) \<le> 2" "distinct (map sy_id [?y])" "find (\<lambda>y. sy_identityId y = ''i'' \<and> sy_mailboxId y = ''b1'') [?y] = Some ?y"
    "0 \<le> sy_lastSeenUid ?y" by (simp_all add: sample_sync_def)
  have v: "sy_id ?y = ''y''" "sy_lastSeenUid ?y = 1" by (simp_all add: sample_sync_def)
  have e: "map_option snd (syncMailbox 2 (Some (sample_box [1, 2, 3])) ?h ''i'' ''b1'' 9 [?y] []) = Some None" by code_simp
  have a: "deliver_all ?h (in_range (sy_lastSeenUid ?y + 1) (top_uid (bx_uidNext (sample_box [1, 2, 3]))) ?ms) [] = ([2, 3], None)" by code_simp
  from syncMailbox_correct [OF h c, of ?h 9 "[]"] e a v show ?thesis by auto
qed

text \<open>
  C6. The incremental synchronisation of an account ends, on every server that serves its mailboxes as
  IMAP promises. However it ends, the mail tables stay well formed: messages belong to threads and to
  mailboxes of their owner and every row of the listing says what its messages are. No mark of a
  mailbox goes back, and the rows of the mailboxes and identities are those of before.\<close>

theorem deltaFetch_keeps:
  assumes ok: "tables_ok env s" and rows: "marks_ok rows"
    and srv: "\<forall>p box. opened p = Some box \<longrightarrow> (\<exists>ms. serves ms box)"
    and own: "\<forall>a. identity = Some a \<longrightarrow>
      (\<forall>b \<in> set (st_mailboxes (in_store s)). mx_identityId b = ac_id a \<longrightarrow> owner_box (ac_ownerId a) (mx_id b) (st_mailboxes (in_store s)) (st_identities (in_store s)))"
  shows "\<exists>rows' s' e. deltaFetch env parse opened usable identity rows s = Some ((rows', s'), e) \<and> marks_grow rows rows' \<and> tables_ok env s'
     \<and> st_mailboxes (in_store s') = st_mailboxes (in_store s) \<and> st_identities (in_store s') = st_identities (in_store s)"
proof (cases "\<exists>a. identity = Some a \<and> usable \<and> ac_ownerId a \<noteq> []")
  case True
  then obtain a where a: "identity = Some a" "usable" "ac_ownerId a \<noteq> []" by blast
  let ?bs = "filter (\<lambda>b. mx_identityId b = ac_id a) (st_mailboxes (in_store s))"
  have i: "delta_inv env (st_mailboxes (in_store s)) (st_identities (in_store s)) s" using ok by (simp add: delta_inv_def)
  have o': "\<forall>b \<in> set ?bs. owner_box (ac_ownerId a) (mx_id b) (st_mailboxes (in_store s)) (st_identities (in_store s))" using own a(1) by simp
  from delta_loop_run [OF srv rows i o', of parse "ac_id a"] show ?thesis using a by (simp add: deltaFetch_def delta_inv_def)
next
  case False
  then show ?thesis using ok by (auto simp: deltaFetch_def split: option.split)
qed

theorem deltaFetch_keeps_witness:
  "\<exists>rows' s' e. deltaFetch sample_env (\<lambda>_. sample_mail ''m'' None NoReferences) (\<lambda>p. if p = ''inbox'' then Some (sample_box [1, 2]) else None) True
       (Some \<lparr>ac_id = ''i'', ac_ownerId = ''o'', ac_kind = ''email'', ac_smtpAccountId = Some ''a'', ac_dailyQuota = JUndef\<rparr>)
       [sample_sync 0 0] (sample_ingest [] []) = Some ((rows', s'), e)
     \<and> tables_ok sample_env s' \<and> length (st_messages (in_store s')) = 1 \<and> map sy_lastSeenUid rows' = [2]"
proof -
  let ?parse = "\<lambda>_ :: string. sample_mail ''m'' None NoReferences" and ?opened = "\<lambda>p. if p = ''inbox'' then Some (sample_box [1, 2]) else None"
  let ?a = "\<lparr>ac_id = ''i'', ac_ownerId = ''o'', ac_kind = ''email'', ac_smtpAccountId = Some ''a'', ac_dailyQuota = JUndef\<rparr>"
  let ?s = "sample_ingest [] []"
  have "ingest_ok sample_env ?s" by (rule sample_ingest_ok) code_simp+
  then have ok: "tables_ok sample_env ?s" by (simp add: ingest_ok_def)
  have rows: "marks_ok [sample_sync 0 0]" by code_simp
  have "serves (map sample_fetched [1, 2]) (sample_box [1, 2])" by (rule sample_box_serves) simp
  then have srv: "\<forall>p box. ?opened p = Some box \<longrightarrow> (\<exists>ms. serves ms box)" by auto
  have own: "\<forall>a. Some ?a = Some a \<longrightarrow>
      (\<forall>b \<in> set (st_mailboxes (in_store ?s)). mx_identityId b = ac_id a \<longrightarrow> owner_box (ac_ownerId a) (mx_id b) (st_mailboxes (in_store ?s)) (st_identities (in_store ?s)))"
    by (simp add: owner_box_def sample_ingest_def sample_store_def sample_mailbox_def)
  have v: "map_option (\<lambda>r. (length (st_messages (in_store (snd (fst r)))), map sy_lastSeenUid (fst (fst r))))
      (deltaFetch sample_env ?parse ?opened True (Some ?a) [sample_sync 0 0] ?s) = Some (1, [2])" by code_simp
  from deltaFetch_keeps [OF ok rows srv own, of ?parse True] obtain rows' s' e
    where r: "deltaFetch sample_env ?parse ?opened True (Some ?a) [sample_sync 0 0] ?s = Some ((rows', s'), e)" "tables_ok sample_env s'" by blast
  with v show ?thesis by (intro exI [of _ rows'] exI [of _ s'] exI [of _ e]) simp
qed

end
