(* ===== verification/Backfill.thy ===== *)
theory Backfill
  imports ImapSync
begin

text \<open>
  The older messages of an account: \<open>apps/worker/lib/imap/backfill/backfill-full.ts\<close>. A tick visits the
  mail identities in turn; for each the mailboxes, the inbox first; for each mailbox one window of 300 uids
  below the cursor, as far as the quota of the identity goes.

  The quotas are kept in a map of the process, and the object of an identity is changed in place: the
  limit is an argument and a result of the functions below, and \<open>startFullBackfill\<close> writes it back.
\<close>

subsection \<open>Quotas\<close>

record identity_quota =
  iq_limit :: rat
  iq_expiresAt :: date

text \<open>\<open>Number(v)\<close> of any value; \<open>toString\<close> of a date has no milliseconds.\<close>

fun js_toNumber :: "jsval \<Rightarrow> jnum" where
  "js_toNumber JUndef = JNaN"
| "js_toNumber JNull = JFin 0"
| "js_toNumber (JBool b) = JFin (if b then 1 else 0)"
| "js_toNumber (JNum n) = n"
| "js_toNumber v = js_Number (js_String v)"

definition defaultImapQuota :: rat where
  "defaultImapQuota = 500 * 1024 * 1024"

definition getDailyQuota :: "account_row \<Rightarrow> rat" where
  "getDailyQuota identity = (case js_toNumber (ac_dailyQuota identity) of JFin q \<Rightarrow> if q > 0 then q else defaultImapQuota | _ \<Rightarrow> defaultImapQuota)"

definition getOrInitQuota :: "date \<Rightarrow> string \<Rightarrow> rat \<Rightarrow> (string \<rightharpoonup> identity_quota) \<Rightarrow> identity_quota \<times> (string \<rightharpoonup> identity_quota)" where
  "getOrInitQuota now identityId dailyLimitBytes quotas =
     (let new = \<lparr>iq_limit = dailyLimitBytes, iq_expiresAt = (now + 120000) div 1000 * 1000\<rparr>
      in case quotas identityId of
           Some existing \<Rightarrow> if now < iq_expiresAt existing then (existing, quotas) else (new, quotas(identityId \<mapsto> new))
         | None \<Rightarrow> (new, quotas(identityId \<mapsto> new)))"

subsection \<open>One mailbox\<close>

definition mapImapFlags :: "string \<Rightarrow> string list \<Rightarrow> bool" where
  "mapImapFlags x flags = list_ex (\<lambda>v. toLowerCase v = toLowerCase (imap_flag x)) flags"

definition backfill_opts :: "string \<Rightarrow> string \<Rightarrow> string \<Rightarrow> fetched_msg \<Rightarrow> ingest_opts" where
  "backfill_opts ownerId mailboxId path m =
     \<lparr>io_ownerId = ownerId, io_mailboxId = mailboxId, io_imap = Some \<lparr>im_uid = Some (fm_uid m), im_mailboxPath = Some path\<rparr>,
      io_seen = Some (mapImapFlags ''seen'' (fm_flags m)), io_answered = Some (mapImapFlags ''answered'' (fm_flags m)),
      io_flagged = Some (mapImapFlags ''flagged'' (fm_flags m)), io_live = False\<rparr>"

definition backfill_message :: "ingest_env \<Rightarrow> mail_parser \<Rightarrow> string \<Rightarrow> string \<Rightarrow> string \<Rightarrow> fetched_msg \<Rightarrow> ingest \<Rightarrow> ingest \<times> ingest_error option" where
  "backfill_message env parse ownerId mailboxId path m s = store_fetched env parse (backfill_opts ownerId mailboxId path m) m s"

definition raw_of :: "fetched_msg \<Rightarrow> string" where
  "raw_of m = nullish (fm_source m) []"

definition size_of :: "fetched_msg \<Rightarrow> rat" where
  "size_of m = of_int (nullish (fm_size m) (int (length (raw_of m))))"

text \<open>
  The loop over the fetched messages: the limit, the bytes so far, and whether the stream was read to its
  end (\<open>break\<close> leaves it).
\<close>

fun backfill_loop :: "(fetched_msg \<Rightarrow> 's \<Rightarrow> 's \<times> 'e option) \<Rightarrow> fetched_msg list \<Rightarrow> rat \<Rightarrow> rat \<Rightarrow> 's \<Rightarrow> 's \<times> ('e + rat \<times> rat \<times> bool)" where
  "backfill_loop h [] limit batchBytes s = (s, Inr (limit, batchBytes, True))"
| "backfill_loop h (m # ms) limit batchBytes s =
     (if limit \<le> 0 then (s, Inr (limit, batchBytes, False))
      else if raw_of m = [] then backfill_loop h ms limit batchBytes s
      else if size_of m > limit then (s, Inr (0, batchBytes, False))
      else case h m s of
             (s1, Some e) \<Rightarrow> (s1, Inl e)
           | (s1, None) \<Rightarrow> backfill_loop h ms limit (batchBytes + size_of m) s1)"

definition TAIL_WINDOW :: int where "TAIL_WINDOW = 200"
definition DEFAULT_WINDOW :: int where "DEFAULT_WINDOW = 300"

definition boot_last_seen :: "int \<Rightarrow> sync_row \<Rightarrow> sync_row list \<Rightarrow> sync_row list" where
  "boot_last_seen uid_top sync rows =
     (if sy_lastSeenUid sync = 0 then set_last_seen (sy_id sync) (max 0 (uid_top - TAIL_WINDOW + 1)) rows else rows)"

definition set_cursor :: "string \<Rightarrow> int \<Rightarrow> sync_row list \<Rightarrow> sync_row list" where
  "set_cursor syncId c rows =
     update_where (\<lambda>y. sy_id y = syncId) (\<lambda>y. y\<lparr>sy_backfillCursorUid := c, sy_phase := (if c \<le> 0 then IDLE else BACKFILL)\<rparr>) rows"

definition set_phase :: "string \<Rightarrow> sync_phase \<Rightarrow> sync_row list \<Rightarrow> sync_row list" where
  "set_phase syncId ph rows = update_where (\<lambda>y. sy_id y = syncId) (\<lambda>y. y\<lparr>sy_phase := ph\<rparr>) rows"

definition backfillMailboxFull ::
  "imap_box option \<Rightarrow> (fetched_msg \<Rightarrow> 's \<Rightarrow> 's \<times> 'e option) \<Rightarrow> string \<Rightarrow> string \<Rightarrow> int \<Rightarrow> rat \<times> sync_row list \<times> 's
     \<Rightarrow> (rat \<times> sync_row list \<times> 's) \<times> 'e sync_error option" where
  "backfillMailboxFull opened h identityId mailboxId window st =
     (case st of (limit, rows, s) \<Rightarrow>
      if limit \<le> 0 then (st, None)
      else case opened of
        None \<Rightarrow> (st, Some ImapFailed)
      | Some box \<Rightarrow>
         (case find (\<lambda>y. sy_identityId y = identityId \<and> sy_mailboxId y = mailboxId) rows of
            None \<Rightarrow> (st, None)
          | Some sync \<Rightarrow>
              let rows1 = boot_last_seen (top_uid (bx_uidNext box)) sync rows; cursor = sy_backfillCursorUid sync
              in if cursor \<le> 0 then ((limit, set_cursor (sy_id sync) 0 rows1, s), None)
                 else let rows2 = set_phase (sy_id sync) BACKFILL rows1; start = max 1 (cursor - window + 1);
                          f = bx_fetch box start cursor
                      in case backfill_loop h (fst f) limit 0 s of
                           (s1, Inl e) \<Rightarrow> ((limit, rows2, s1), Some (MessageFailed e))
                         | (s1, Inr (limit1, batchBytes, finished)) \<Rightarrow>
                             if finished \<and> snd f then ((limit1, rows2, s1), Some ImapFailed)
                             else (((if batchBytes > 0 then max 0 (limit1 - batchBytes) else limit1), set_cursor (sy_id sync) (start - 1) rows2, s1), None)))"

subsection \<open>One identity, and all of them\<close>

definition backfill_isInbox :: "folder_row \<Rightarrow> bool" where
  "backfill_isInbox r \<longleftrightarrow> fo_isDefault r \<or> toUpperCase (nullish (folder_path r) []) = ''INBOX''
     \<or> toUpperCase (nullish (Option.bind (fo_imap r) ii_specialUse) []) = imap_flag ''INBOX''"

definition inboxFirst :: "folder_row list \<Rightarrow> folder_row list" where
  "inboxFirst rs = filter backfill_isInbox rs @ filter (\<lambda>r. \<not> backfill_isInbox r) rs"

text \<open>The mailboxes in turn; an error ends the loop and is only logged.\<close>

fun backfill_boxes ::
  "ingest_env \<Rightarrow> mail_parser \<Rightarrow> (string \<Rightarrow> imap_box option) \<Rightarrow> string \<Rightarrow> string \<Rightarrow> folder_row list
     \<Rightarrow> rat \<times> sync_row list \<times> ingest \<Rightarrow> rat \<times> sync_row list \<times> ingest" where
  "backfill_boxes env parse opened ownerId identityId [] st = st"
| "backfill_boxes env parse opened ownerId identityId (r # rs) st =
     (if fst st \<le> 0 then st
      else case or_undefined (folder_path r) of
        None \<Rightarrow> backfill_boxes env parse opened ownerId identityId rs st
      | Some path \<Rightarrow>
          (case backfillMailboxFull (opened path) (backfill_message env parse ownerId (fo_id r) path) identityId (fo_id r) DEFAULT_WINDOW st of
             (st1, Some e) \<Rightarrow> st1
           | (st1, None) \<Rightarrow> backfill_boxes env parse opened ownerId identityId rs st1))"

definition startFullBackfillForIdentity ::
  "ingest_env \<Rightarrow> mail_parser \<Rightarrow> (string \<Rightarrow> imap_box option) \<Rightarrow> account_row list \<Rightarrow> folder_row list \<Rightarrow> string
     \<Rightarrow> rat \<times> sync_row list \<times> ingest \<Rightarrow> rat \<times> sync_row list \<times> ingest" where
  "startFullBackfillForIdentity env parse opened accounts boxes identityId st =
     (if fst st \<le> 0 then st
      else case find (\<lambda>a. ac_id a = identityId) accounts of
        None \<Rightarrow> st
      | Some identity \<Rightarrow>
          backfill_boxes env parse opened (ac_ownerId identity) identityId
            (inboxFirst (filter (\<lambda>r. fo_identityId r = identityId) boxes)) st)"

text \<open>The state between ticks: the quotas of the process, and the tables. \<open>clients\<close> gives the mailboxes of a connected identity.\<close>

record backfill_state =
  bf_quotas :: "string \<rightharpoonup> identity_quota"
  bf_sync :: "sync_row list"
  bf_ingest :: ingest

definition backfill_identity ::
  "ingest_env \<Rightarrow> mail_parser \<Rightarrow> (string \<Rightarrow> (string \<Rightarrow> imap_box option) option) \<Rightarrow> account_row list \<Rightarrow> folder_row list \<Rightarrow> account_row
     \<Rightarrow> backfill_state \<Rightarrow> backfill_state" where
  "backfill_identity env parse clients accounts boxes identity st =
     (let (quota, quotas) = getOrInitQuota (ge_now env) (ac_id identity) (getDailyQuota identity) (bf_quotas st); st1 = st\<lparr>bf_quotas := quotas\<rparr>
      in if iq_limit quota \<le> 0 then st1
         else case clients (ac_id identity) of
           None \<Rightarrow> st1
         | Some opened \<Rightarrow>
             (case startFullBackfillForIdentity env parse opened accounts boxes (ac_id identity) (iq_limit quota, bf_sync st, bf_ingest st) of
                (limit, rows, s) \<Rightarrow> \<lparr>bf_quotas = quotas(ac_id identity \<mapsto> quota\<lparr>iq_limit := limit\<rparr>), bf_sync = rows, bf_ingest = s\<rparr>))"

definition startFullBackfill ::
  "ingest_env \<Rightarrow> mail_parser \<Rightarrow> (string \<Rightarrow> (string \<Rightarrow> imap_box option) option) \<Rightarrow> account_row list \<Rightarrow> folder_row list
     \<Rightarrow> backfill_state \<Rightarrow> backfill_state" where
  "startFullBackfill env parse clients accounts boxes st =
     foldl (\<lambda>st identity. backfill_identity env parse clients accounts boxes identity st) st
       (filter (\<lambda>a. ac_kind a = ''email'' \<and> truthy (ac_smtpAccountId a)) accounts)"

subsection \<open>Lemmas: one round\<close>

lemma backfill_loop_deliver:
  assumes "0 < limit"
  shows "\<forall>m \<in> set ms. size_of m \<le> limit \<Longrightarrow> backfill_loop h ms limit b s = (case deliver_all h (filter (\<lambda>m. raw_of m \<noteq> []) ms) s of
     (s1, Some e) \<Rightarrow> (s1, Inl e) | (s1, None) \<Rightarrow> (s1, Inr (limit, b + sum_list (map size_of (filter (\<lambda>m. raw_of m \<noteq> []) ms)), True)))"
proof (induction ms arbitrary: b s)
  case (Cons m ms)
  then show ?case using assms by (auto simp: add.assoc split: prod.split option.split)
qed simp

text \<open>The row of a mailbox after a round that moved the cursor to \<open>c\<close>.\<close>

definition moved_row :: "int \<Rightarrow> int \<Rightarrow> sync_row \<Rightarrow> sync_row" where
  "moved_row uid_top c y =
     (if sy_lastSeenUid y = 0 then y\<lparr>sy_lastSeenUid := max 0 (uid_top - TAIL_WINDOW + 1)\<rparr> else y)
       \<lparr>sy_backfillCursorUid := c, sy_phase := (if c \<le> 0 then IDLE else BACKFILL)\<rparr>"

lemma find_update_other: "(\<And>x. P (f x) = P x) \<Longrightarrow> find P (update_where Q f xs) = map_option (\<lambda>x. if Q x then f x else x) (find P xs)"
  by (induction xs) (auto simp: update_where_def)

abbreviation row_of :: "string \<Rightarrow> string \<Rightarrow> sync_row list \<Rightarrow> sync_row option" where
  "row_of identityId mailboxId rows \<equiv> find (\<lambda>y. sy_identityId y = identityId \<and> sy_mailboxId y = mailboxId) rows"

lemma row_moved:
  "row_of i b rows = Some sync \<Longrightarrow> row_of i b (set_cursor (sy_id sync) c (boot_last_seen t sync rows)) = Some (moved_row t c sync)"
  "row_of i b rows = Some sync \<Longrightarrow>
   row_of i b (set_cursor (sy_id sync) c (set_phase (sy_id sync) BACKFILL (boot_last_seen t sync rows))) = Some (moved_row t c sync)"
  by (simp_all add: set_cursor_def set_phase_def boot_last_seen_def set_last_seen_def find_update_other moved_row_def)

lemma backfill_round:
  assumes srv: "serves ms box" and l: "0 < limit" "\<forall>m \<in> set ms. size_of m \<le> limit"
    and row: "row_of i b rows = Some sync" and c: "0 < sy_backfillCursorUid sync"
    and W: "W = filter (\<lambda>m. raw_of m \<noteq> []) (in_range (max 1 (sy_backfillCursorUid sync - window + 1)) (sy_backfillCursorUid sync) ms)"
    and nb: "\<not> snd (bx_fetch box (max 1 (sy_backfillCursorUid sync - window + 1)) (sy_backfillCursorUid sync))"
    and d: "deliver_all h W s = (s', None)"
  shows "\<exists>limit' rows'. backfillMailboxFull (Some box) h i b window (limit, rows, s) = ((limit', rows', s'), None)
     \<and> row_of i b rows' = Some (moved_row (top_uid (bx_uidNext box)) (max 1 (sy_backfillCursorUid sync - window + 1) - 1) sync)"
proof -
  define start where "start = max 1 (sy_backfillCursorUid sync - window + 1)"
  have f: "bx_fetch box start (sy_backfillCursorUid sync) = (in_range start (sy_backfillCursorUid sync) ms, False)"
    using srv nb unfolding serves_def start_def by (metis prod.collapse)
  have "\<forall>m \<in> set (in_range start (sy_backfillCursorUid sync) ms). size_of m \<le> limit" using l(2) by (simp add: in_range_def)
  from backfill_loop_deliver [OF l(1) this, of h 0 s]
  have loop: "\<exists>b. backfill_loop h (in_range start (sy_backfillCursorUid sync) ms) limit 0 s = (s', Inr (limit, b, True))"
    using d unfolding W start_def [symmetric] by simp
  show ?thesis using loop row c l(1) f row_moved(2) [OF row, of "start - 1" "top_uid (bx_uidNext box)"]
    by (auto simp: backfillMailboxFull_def Let_def start_def [symmetric])
qed

text \<open>Nothing left to do: the row is marked idle.\<close>

lemma backfill_done:
  assumes "0 < limit" "row_of i b rows = Some sync" "sy_backfillCursorUid sync \<le> 0"
  shows "\<exists>rows'. backfillMailboxFull (Some box) h i b window (limit, rows, s) = ((limit, rows', s), None)
     \<and> row_of i b rows' = Some (moved_row (top_uid (bx_uidNext box)) 0 sync)"
  using assms row_moved(1) [OF assms(2), of 0 "top_uid (bx_uidNext box)"] by (simp add: backfillMailboxFull_def Let_def)

text \<open>\<open>n\<close> rounds of a mailbox in successive ticks, each with the quota \<open>q\<close>.\<close>

fun backfill_rounds ::
  "imap_box option \<Rightarrow> (fetched_msg \<Rightarrow> 's \<Rightarrow> 's \<times> 'e option) \<Rightarrow> string \<Rightarrow> string \<Rightarrow> int \<Rightarrow> rat \<Rightarrow> nat \<Rightarrow> sync_row list \<times> 's \<Rightarrow> sync_row list \<times> 's" where
  "backfill_rounds opened h i b window q 0 st = st"
| "backfill_rounds opened h i b window q (Suc n) st =
     backfill_rounds opened h i b window q n (snd (fst (backfillMailboxFull opened h i b window (q, st))))"

subsection \<open>Handlers that store\<close>

text \<open>
  The contract of a handler under which a backfill is complete: it does not fail on the messages \<open>M\<close>,
  and what it stores for a message it and every later call keeps.
\<close>

locale storing_handler = message_handler h I
  for h :: "fetched_msg \<Rightarrow> 's \<Rightarrow> 's \<times> 'e option" and I :: "'s \<Rightarrow> bool" +
  fixes M :: "fetched_msg set" and key :: "fetched_msg \<Rightarrow> 'k option" and keys :: "'s \<Rightarrow> 'k set"
  assumes no_error: "I s \<Longrightarrow> m \<in> M \<Longrightarrow> snd (h m s) = None"
    and keys_grow: "I s \<Longrightarrow> keys s \<subseteq> keys (fst (h m s))"
    and stored: "I s \<Longrightarrow> m \<in> M \<Longrightarrow> key m = Some k \<Longrightarrow> k \<in> keys (fst (h m s))"
begin

lemma deliver_stores:
  "I s \<Longrightarrow> set ms \<subseteq> M \<Longrightarrow> \<exists>s'. deliver_all h ms s = (s', None) \<and> I s' \<and> keys s \<subseteq> keys s'
     \<and> (\<forall>m \<in> set ms. \<forall>k. key m = Some k \<longrightarrow> k \<in> keys s')"
proof (induction ms arbitrary: s)
  case (Cons m ms)
  obtain s1 where s1: "h m s = (s1, None)" using no_error [of s m] Cons.prems by (metis insert_subset list.simps(15) prod.collapse)
  have "I s1" "keys s \<subseteq> keys s1" "\<forall>k. key m = Some k \<longrightarrow> k \<in> keys s1"
    using keeps [OF Cons.prems(1), of m] keys_grow [OF Cons.prems(1), of m] stored [OF Cons.prems(1), of m] Cons.prems(2) s1 by auto
  moreover obtain s' where "deliver_all h ms s1 = (s', None)" "I s'" "keys s1 \<subseteq> keys s'" "\<forall>m \<in> set ms. \<forall>k. key m = Some k \<longrightarrow> k \<in> keys s'"
    using Cons.IH [OF \<open>I s1\<close>] Cons.prems(2) by auto
  ultimately show ?case by (intro exI [of _ s']) (auto simp: s1)
qed simp

lemma rounds_store:
  assumes srv: "serves ms box" "\<forall>a b. \<not> snd (bx_fetch box a b)" and q: "0 < q" "\<forall>m \<in> set ms. size_of m \<le> q"
    and M: "\<forall>m \<in> set ms. raw_of m \<noteq> [] \<longrightarrow> m \<in> M" and w: "1 \<le> window"
  shows "I s \<Longrightarrow> row_of i b rows = Some sync \<Longrightarrow> sy_backfillCursorUid sync \<le> window * int n \<Longrightarrow> 0 < n \<Longrightarrow>
    \<exists>rows' s' y. backfill_rounds (Some box) h i b window q n (rows, s) = (rows', s')
      \<and> I s' \<and> keys s \<subseteq> keys s' \<and> row_of i b rows' = Some y \<and> sy_backfillCursorUid y = 0 \<and> sy_phase y = IDLE
      \<and> (\<forall>m \<in> set ms. \<forall>k. 1 \<le> fm_uid m \<and> fm_uid m \<le> sy_backfillCursorUid sync \<and> raw_of m \<noteq> [] \<and> key m = Some k \<longrightarrow> k \<in> keys s')"
proof (induction n arbitrary: rows s sync)
  case (Suc n)
  let ?F = "\<lambda>st. snd (fst (backfillMailboxFull (Some box) h i b window (q, st)))" and ?R = "backfill_rounds (Some box) h i b window q"
  let ?c = "sy_backfillCursorUid sync" and ?t = "top_uid (bx_uidNext box)"
  define c' where "c' = (if ?c \<le> 0 then 0 else max 1 (?c - window + 1) - 1)"
  have round: "\<exists>rows1 s1. ?F (rows, s) = (rows1, s1) \<and> I s1 \<and> keys s \<subseteq> keys s1 \<and> row_of i b rows1 = Some (moved_row ?t c' sync)
      \<and> (\<forall>m \<in> set ms. \<forall>k. c' < fm_uid m \<and> fm_uid m \<le> ?c \<and> raw_of m \<noteq> [] \<and> key m = Some k \<longrightarrow> k \<in> keys s1)"
  proof (cases "?c \<le> 0")
    case True
    from backfill_done [OF q(1) Suc.prems(2) True, of box h window s] show ?thesis using Suc.prems(1) True by (auto simp: c'_def)
  next
    case False
    let ?W = "filter (\<lambda>m. raw_of m \<noteq> []) (in_range (max 1 (?c - window + 1)) ?c ms)"
    have "set ?W \<subseteq> M" using M by (auto simp: in_range_def)
    from deliver_stores [OF Suc.prems(1) this] obtain s1 where s1: "deliver_all h ?W s = (s1, None)" "I s1" "keys s \<subseteq> keys s1"
      "\<forall>m \<in> set ?W. \<forall>k. key m = Some k \<longrightarrow> k \<in> keys s1" by blast
    have "m \<in> set ?W" if "m \<in> set ms" "c' < fm_uid m" "fm_uid m \<le> ?c" "raw_of m \<noteq> []" for m
      using that False by (auto simp: c'_def in_range_def)
    then have k: "\<forall>m \<in> set ms. \<forall>k. c' < fm_uid m \<and> fm_uid m \<le> ?c \<and> raw_of m \<noteq> [] \<and> key m = Some k \<longrightarrow> k \<in> keys s1"
      using s1(4) by blast
    have "0 < ?c" using False by simp
    from backfill_round [OF srv(1) q Suc.prems(2) this refl _ s1(1)] srv(2) obtain limit' rows'
      where "backfillMailboxFull (Some box) h i b window (q, rows, s) = ((limit', rows', s1), None)" "row_of i b rows' = Some (moved_row ?t c' sync)"
      using False unfolding c'_def by auto
    then show ?thesis using s1(2,3) k by (intro exI [of _ rows'] exI [of _ s1]) simp
  qed
  then obtain rows1 s1 where r: "?F (rows, s) = (rows1, s1)" "I s1" "keys s \<subseteq> keys s1" "row_of i b rows1 = Some (moved_row ?t c' sync)"
    "\<forall>m \<in> set ms. \<forall>k. c' < fm_uid m \<and> fm_uid m \<le> ?c \<and> raw_of m \<noteq> [] \<and> key m = Some k \<longrightarrow> k \<in> keys s1" by blast
  have sel: "sy_backfillCursorUid (moved_row ?t c' sync) = c'" "sy_phase (moved_row ?t c' sync) = (if c' \<le> 0 then IDLE else BACKFILL)"
    by (simp_all add: moved_row_def)
  have step: "?R (Suc n) (rows, s) = ?R n (rows1, s1)" using r(1) by simp
  show ?case
  proof (cases n)
    case 0
    then have "c' = 0" using Suc.prems(3) w by (auto simp: c'_def)
    then show ?thesis using r sel 0 step by (intro exI [of _ rows1] exI [of _ s1] exI [of _ "moved_row ?t c' sync"]) auto
  next
    case (Suc n')
    have "c' \<le> window * int n" using Suc.prems(3) w Suc by (auto simp: c'_def algebra_simps)
    then have "sy_backfillCursorUid (moved_row ?t c' sync) \<le> window * int n" using sel by simp
    from Suc.IH [OF r(2,4) this] Suc obtain rows' s' y where
      f: "?R n (rows1, s1) = (rows', s')" "I s'" "keys s1 \<subseteq> keys s'" "row_of i b rows' = Some y" "sy_backfillCursorUid y = 0" "sy_phase y = IDLE"
        "\<forall>m \<in> set ms. \<forall>k. 1 \<le> fm_uid m \<and> fm_uid m \<le> c' \<and> raw_of m \<noteq> [] \<and> key m = Some k \<longrightarrow> k \<in> keys s'"
      unfolding sel(1) by blast
    have "k \<in> keys s'" if "m \<in> set ms" "1 \<le> fm_uid m" "fm_uid m \<le> ?c" "raw_of m \<noteq> []" "key m = Some k" for m k
      using r(5) f(3,7) that by (cases "fm_uid m \<le> c'") auto
    then show ?thesis using f r(3) unfolding step by (intro exI [of _ rows'] exI [of _ s'] exI [of _ y]) auto
  qed
qed simp

end

subsection \<open>The handler of the backfill stores\<close>

lemma uploads_succeed: "\<forall>p. \<not> ge_uploadFails env p \<Longrightarrow> snd (store_attachments env opts i seen as s) = None"
  by (induction env opts i seen as s rule: store_attachments.induct) (auto split: prod.split)

lemma after_insert_no_upload:
  "\<forall>p. \<not> ge_uploadFails env p \<Longrightarrow> after_insert env opts raw p m s = (s', Inl e) \<Longrightarrow> \<exists>x. e = StoreError x"
  using uploads_succeed [of env opts "row_id m" "[]" "pm_attachments p"]
  by (auto simp: after_insert_def Let_def split: prod.splits sum.splits option.splits) (metis snd_conv option.distinct(1))

lemma parseAndStoreEmail_stores:
  "message_key ` set (st_messages (in_store s)) \<subseteq> message_key ` set (st_messages (in_store (fst (parseAndStoreEmail env opts raw p s))))"
  "find_mailbox (in_store s) (io_mailboxId opts) \<noteq> None \<Longrightarrow> pm_messageId p = Some i \<Longrightarrow> i \<noteq> [] \<Longrightarrow>
   (io_mailboxId opts, i) \<in> message_key ` set (st_messages (in_store (fst (parseAndStoreEmail env opts raw p s))))"
proof -
  obtain s1 t where t: "createOrInitializeThread env (io_ownerId opts) p s = (s1, t)" by fastforce
  have s1: "st_messages (in_store s1) = st_messages (in_store s)" "find_mailbox (in_store s1) = find_mailbox (in_store s)"
    using createOrInitializeThread_tables [OF t] by (simp_all add: fun_eq_iff find_mailbox_def)
  show "message_key ` set (st_messages (in_store s)) \<subseteq> message_key ` set (st_messages (in_store (fst (parseAndStoreEmail env opts raw p s))))"
    by (auto simp: parseAndStoreEmail_def Let_def t s1 after_insert_tables split: option.split)
  assume b: "find_mailbox (in_store s) (io_mailboxId opts) \<noteq> None" and i: "pm_messageId p = Some i" "i \<noteq> []"
  have h: "has_message_id p" using i by (simp add: has_message_id_def)
  have k: "message_key (ingest_row env opts p i j x) = (io_mailboxId opts, i)" for j x by (simp add: message_key_def ingest_row_def)
  show "(io_mailboxId opts, i) \<in> message_key ` set (st_messages (in_store (fst (parseAndStoreEmail env opts raw p s))))"
    using b by (auto simp: parseAndStoreEmail_def Let_def t h i(1) s1 k after_insert_tables)
qed

lemma parseAndStoreEmail_no_error:
  assumes "tables_ok env s" "find_mailbox (in_store s) (io_mailboxId opts) = Some b" "mx_ownerId b = io_ownerId opts"
    "find_identity (in_store s) (mx_identityId b) \<noteq> None" "\<forall>p. \<not> ge_uploadFails env p" "pm_messageId p \<noteq> None"
  shows "\<exists>s' r. parseAndStoreEmail env opts raw p s = (s', Inr r)"
proof -
  obtain s' res where run: "parseAndStoreEmail env opts raw p s = (s', res)" by fastforce
  have box: "\<forall>b. find_mailbox (in_store s) (io_mailboxId opts) = Some b \<longrightarrow>
      mx_ownerId b = io_ownerId opts \<and> find_identity (in_store s) (mx_identityId b) \<noteq> None" using assms(2-4) by simp
  obtain s1 t where t: "createOrInitializeThread env (io_ownerId opts) p s = (s1, t)" by fastforce
  have s1: "find_mailbox (in_store s1) = find_mailbox (in_store s)"
    using createOrInitializeThread_tables [OF t] by (simp add: fun_eq_iff find_mailbox_def)
  have "\<nexists>path. res = Inl (UploadFailed path)" "res \<noteq> Inl MissingMessageId" "res \<noteq> Inl ForeignKey"
    using run assms(2,6) by (auto simp: parseAndStoreEmail_def Let_def t s1 split: if_splits option.splits dest!: after_insert_no_upload [OF assms(5)])
  then show ?thesis using parseAndStoreEmail_run [OF assms(1) box run] run by auto
qed

definition stored_key :: "mail_parser \<Rightarrow> string \<Rightarrow> fetched_msg \<Rightarrow> (string \<times> string) option" where
  "stored_key parse mailboxId m = map_option (Pair mailboxId) (or_undefined (pm_messageId (parse (raw_of m))))"

lemma raw_of_default: "or_default (fm_source m) [] = raw_of m"
  unfolding raw_of_def by (cases "fm_source m") simp_all

interpretation backfill: storing_handler "backfill_message env parse ownerId mailboxId path"
  "\<lambda>s. (\<forall>p. \<not> ge_uploadFails env p) \<and> owner_box ownerId mailboxId boxes idents \<and> delta_inv env boxes idents s"
  "{m. pm_messageId (parse (raw_of m)) \<noteq> None}" "stored_key parse mailboxId" "\<lambda>s. message_key ` set (st_messages (in_store s))"
  for env parse ownerId mailboxId path boxes idents
proof unfold_locales
  let ?I = "\<lambda>s. (\<forall>p. \<not> ge_uploadFails env p) \<and> owner_box ownerId mailboxId boxes idents \<and> delta_inv env boxes idents s"
  fix s m assume I: "?I s"
  let ?o = "backfill_opts ownerId mailboxId path m"
  have sel: "io_ownerId ?o = ownerId" "io_mailboxId ?o = mailboxId" by (simp_all add: backfill_opts_def)
  show "?I (fst (backfill_message env parse ownerId mailboxId path m s))"
    using I store_fetched_keeps [of env boxes idents s ?o parse m] by (simp add: backfill_message_def sel)
  have ok: "tables_ok env s" "st_mailboxes (in_store s) = boxes" "st_identities (in_store s) = idents" using I by (simp_all add: delta_inv_def)
  obtain b where b: "find_mailbox (in_store s) (io_mailboxId ?o) = Some b" "mx_ownerId b = io_ownerId ?o"
    "find_identity (in_store s) (mx_identityId b) \<noteq> None"
    using owner_box_store [OF _ ok(2,3), of ownerId mailboxId] I unfolding sel by metis
  let ?r = "parseAndStoreEmail env ?o (raw_of m) (parse (raw_of m)) s"
  have fst: "fst (backfill_message env parse ownerId mailboxId path m s) = fst ?r"
    by (simp add: backfill_message_def store_fetched_def raw_of_default Let_def split: prod.split sum.split)
  show "message_key ` set (st_messages (in_store s))
      \<subseteq> message_key ` set (st_messages (in_store (fst (backfill_message env parse ownerId mailboxId path m s))))"
    unfolding fst by (rule parseAndStoreEmail_stores(1))
  assume M: "m \<in> {m. pm_messageId (parse (raw_of m)) \<noteq> None}"
  then obtain s' x where "?r = (s', Inr x)" using parseAndStoreEmail_no_error [OF ok(1) b] I by blast
  then show "snd (backfill_message env parse ownerId mailboxId path m s) = None"
    by (simp add: backfill_message_def store_fetched_def raw_of_default Let_def)
  fix k assume k: "stored_key parse mailboxId m = Some k"
  then obtain i where i: "pm_messageId (parse (raw_of m)) = Some i" "i \<noteq> []" "k = (io_mailboxId ?o, i)"
    by (auto simp: stored_key_def sel split: if_splits elim!: or_undefined.elims)
  show "k \<in> message_key ` set (st_messages (in_store (fst (backfill_message env parse ownerId mailboxId path m s))))"
    unfolding fst i(3) by (rule parseAndStoreEmail_stores(2)) (use b i in simp_all)
qed

subsection \<open>Lemmas: what every tick keeps\<close>

context message_handler
begin

lemma backfill_loop_keeps: "I s \<Longrightarrow> I (fst (backfill_loop h ms limit b s))"
proof (induction ms arbitrary: b s)
  case (Cons m ms)
  then show ?case using keeps [of s m] by (auto split: prod.split option.split)
qed simp

lemma backfillMailboxFull_keeps: "I (snd (snd st)) \<Longrightarrow> I (snd (snd (fst (backfillMailboxFull opened h i b window st))))"
proof (cases st)
  case (fields limit rows s)
  assume "I (snd (snd st))"
  then have "I (fst (backfill_loop h ms limit 0 s))" for ms using backfill_loop_keeps [of s ms limit 0] fields by simp
  then have "backfill_loop h ms limit 0 s = (s1, r) \<Longrightarrow> I s1" for ms s1 r by (metis fst_conv)
  then show ?thesis using \<open>I (snd (snd st))\<close> unfolding fields
    by (auto simp: backfillMailboxFull_def Let_def split: option.split prod.split sum.split)
qed

end

lemma backfill_loop_limit: "backfill_loop h ms limit b s = (s1, Inr (limit1, b1, f)) \<Longrightarrow> 0 \<le> limit \<Longrightarrow> 0 \<le> limit1"
  by (induction ms arbitrary: b s) (auto split: if_splits prod.splits option.splits)

text \<open>The rows of \<open>mailbox_sync\<close> after any number of rounds: the same rows, no cursor moved up.\<close>

definition cursors_fall :: "sync_row list \<Rightarrow> sync_row list \<Rightarrow> bool" where
  "cursors_fall = list_all2 (\<lambda>a b. sy_id b = sy_id a \<and> sy_backfillCursorUid b \<le> max 0 (sy_backfillCursorUid a))"

lemma cursors_fall_refl [simp]: "cursors_fall rows rows"
  by (simp add: cursors_fall_def list.rel_refl)

lemma cursors_fall_trans: "cursors_fall a b \<Longrightarrow> cursors_fall b c \<Longrightarrow> cursors_fall a c"
  unfolding cursors_fall_def by (rule list_all2_trans [of _ _ _ a b c]) auto

lemma cursors_fall_ids: "cursors_fall rows rows' \<Longrightarrow> map sy_id rows' = map sy_id rows"
  by (simp add: cursors_fall_def list_eq_iff_nth_eq list_all2_conv_all_nth)

lemma cursors_fall_update:
  assumes "\<And>y. y \<in> set rows \<Longrightarrow> P y \<Longrightarrow> sy_id (f y) = sy_id y \<and> sy_backfillCursorUid (f y) \<le> max 0 (sy_backfillCursorUid y)"
  shows "cursors_fall rows (update_where P f rows)"
  using assms by (simp add: cursors_fall_def update_where_def list_all2_conv_all_nth)

lemma row_kept:
  assumes "sync \<in> set rows" "\<And>y. sy_id (f y) = sy_id y \<and> sy_backfillCursorUid (f y) = sy_backfillCursorUid y"
  shows "\<exists>y \<in> set (update_where P f rows). sy_id y = sy_id sync \<and> sy_backfillCursorUid sync = sy_backfillCursorUid y"
proof (rule bexI [of _ "if P sync then f sync else sync"])
  show "(if P sync then f sync else sync) \<in> set (update_where P f rows)"
    unfolding update_where_def set_map by (rule image_eqI [OF _ assms(1)]) simp
qed (use assms(2) in auto)

lemma backfillMailboxFull_rows:
  assumes d: "distinct (map sy_id rows)" and run: "backfillMailboxFull opened h i b window (limit, rows, s) = ((limit', rows', s'), e)"
    and l: "0 \<le> limit" and w: "1 \<le> window"
  shows "cursors_fall rows rows' \<and> 0 \<le> limit'"
proof -
  have boot: "cursors_fall rows (boot_last_seen t y rows)" for t y
    by (simp add: boot_last_seen_def set_last_seen_def cursors_fall_update)
  have ph: "cursors_fall rows (set_phase j x (boot_last_seen t y rows))" for t j x y
    unfolding set_phase_def by (rule cursors_fall_trans [OF boot], rule cursors_fall_update) simp
  have cur: "cursors_fall rows (set_cursor (sy_id sync) c rows1)"
    if "sync \<in> set rows" "cursors_fall rows rows1" "sy_backfillCursorUid sync = sy_backfillCursorUid y" "y \<in> set rows1" "sy_id y = sy_id sync"
      "c \<le> max 0 (sy_backfillCursorUid sync)" for sync c rows1 y
  proof -
    have d1: "distinct (map sy_id rows1)" using d cursors_fall_ids [OF that(2)] by simp
    have "cursors_fall rows1 (set_cursor (sy_id sync) c rows1)" unfolding set_cursor_def
      by (rule cursors_fall_update) (use that distinct_key_eq [OF d1 _ that(4)] in auto)
    then show ?thesis by (rule cursors_fall_trans [OF that(2)])
  qed
  have booted: "\<exists>y \<in> set (boot_last_seen t z rows). sy_id y = sy_id sync \<and> sy_backfillCursorUid sync = sy_backfillCursorUid y"
    if "sync \<in> set rows" for t z sync
    using that row_kept [OF that, of "\<lambda>y. y\<lparr>sy_lastSeenUid := max 0 (t - TAIL_WINDOW + 1)\<rparr>" "\<lambda>y. sy_id y = sy_id z"]
    by (auto simp: boot_last_seen_def set_last_seen_def)
  have phased: "\<exists>y \<in> set (set_phase j x (boot_last_seen t z rows)). sy_id y = sy_id sync \<and> sy_backfillCursorUid sync = sy_backfillCursorUid y"
    if "sync \<in> set rows" for j x t z sync
  proof -
    from booted [OF that, of t z] obtain y0
      where y0: "y0 \<in> set (boot_last_seen t z rows)" "sy_id y0 = sy_id sync" "sy_backfillCursorUid sync = sy_backfillCursorUid y0" by blast
    from row_kept [OF y0(1), of "\<lambda>y. y\<lparr>sy_phase := x\<rparr>" "\<lambda>y. sy_id y = j"] show ?thesis using y0(2,3) by (simp add: set_phase_def)
  qed
  have row: "sync \<in> set rows" if "row_of i b rows = Some sync" for sync using find_mem [OF that] by simp
  have finished: "cursors_fall rows (set_cursor (sy_id sync) 0 (boot_last_seen t z rows))" if "row_of i b rows = Some sync" for sync t z
    using booted [OF row [OF that], of t z] cur [OF row [OF that] boot [of t z]] by auto
  have moved: "cursors_fall rows (set_cursor (sy_id sync) (max 1 (sy_backfillCursorUid sync - window + 1) - 1) (set_phase j x (boot_last_seen t z rows)))"
    if "row_of i b rows = Some sync" "\<not> sy_backfillCursorUid sync \<le> 0" for sync j x t z
  proof -
    have "max 1 (sy_backfillCursorUid sync - window + 1) - 1 \<le> max 0 (sy_backfillCursorUid sync)" using w by simp
    then show ?thesis using phased [OF row [OF that(1)], of j x t z] cur [OF row [OF that(1)] ph [of j x t z]] by blast
  qed
  show ?thesis using run l ph backfill_loop_limit [of h _ limit 0 s] finished moved
    by (auto simp: backfillMailboxFull_def Let_def split: if_splits option.splits prod.splits sum.splits)
qed

text \<open>Any connection and any upload: the handler of the backfill keeps the tables.\<close>

interpretation filling: message_handler "backfill_message env parse ownerId mailboxId path"
  "\<lambda>s. owner_box ownerId mailboxId boxes idents \<and> delta_inv env boxes idents s"
  for env parse ownerId mailboxId path boxes idents
  by unfold_locales (simp add: backfill_message_def store_fetched_keeps backfill_opts_def)

text \<open>The state of a round is well formed, and the cursors have only gone down since \<open>rows0\<close>.\<close>

definition filling_ok :: "ingest_env \<Rightarrow> mailbox_row list \<Rightarrow> identity_row list \<Rightarrow> sync_row list \<Rightarrow> rat \<times> sync_row list \<times> ingest \<Rightarrow> bool" where
  "filling_ok env bs ds rows0 st \<longleftrightarrow> 0 \<le> fst st \<and> cursors_fall rows0 (fst (snd st)) \<and> delta_inv env bs ds (snd (snd st))"

lemma filling_round:
  assumes "filling_ok env bs ds rows0 st" "distinct (map sy_id rows0)" "owner_box ownerId b bs ds" "1 \<le> window"
  shows "filling_ok env bs ds rows0 (fst (backfillMailboxFull opened (backfill_message env parse ownerId b path) i b window st))"
proof -
  obtain limit rows s where st: "st = (limit, rows, s)" by (cases st) blast
  obtain limit' rows' s' e where r: "backfillMailboxFull opened (backfill_message env parse ownerId b path) i b window (limit, rows, s) = ((limit', rows', s'), e)"
    by (metis prod.collapse)
  have d: "distinct (map sy_id rows)" using assms(1,2) cursors_fall_ids [of rows0 rows] by (simp add: filling_ok_def st)
  have "cursors_fall rows rows' \<and> 0 \<le> limit'" by (rule backfillMailboxFull_rows [OF d r]) (use assms(1,4) in \<open>simp_all add: filling_ok_def st\<close>)
  moreover have "delta_inv env bs ds s'"
    using filling.backfillMailboxFull_keeps [of ownerId b bs ds env "(limit, rows, s)" opened parse path i b window] assms(1,3) r
    by (simp add: filling_ok_def st)
  ultimately show ?thesis using assms(1) cursors_fall_trans [of rows0 rows rows'] by (simp add: filling_ok_def st r)
qed

lemma backfill_boxes_keeps:
  "filling_ok env bs ds rows0 st \<Longrightarrow> distinct (map sy_id rows0) \<Longrightarrow> \<forall>r \<in> set rs. owner_box ownerId (fo_id r) bs ds \<Longrightarrow>
   filling_ok env bs ds rows0 (backfill_boxes env parse opened ownerId identityId rs st)"
proof (induction rs arbitrary: st)
  case (Cons r rs)
  have w: "1 \<le> DEFAULT_WINDOW" by (simp add: DEFAULT_WINDOW_def)
  have k: "filling_ok env bs ds rows0 st1"
    if "backfillMailboxFull (opened p) (backfill_message env parse ownerId (fo_id r) p) identityId (fo_id r) DEFAULT_WINDOW st = (st1, e)" for p st1 e
    using filling_round [OF Cons.prems(1,2) _ w, of ownerId "fo_id r" "opened p" parse p identityId] Cons.prems(3) that by simp
  show ?case using Cons.prems Cons.IH k by (auto split: option.split prod.split)
qed simp

lemma for_identity_keeps:
  assumes "filling_ok env bs ds rows0 st" "distinct (map sy_id rows0)"
    "\<forall>a \<in> set accounts. \<forall>r \<in> set boxes. fo_identityId r = ac_id a \<longrightarrow> owner_box (ac_ownerId a) (fo_id r) bs ds"
  shows "filling_ok env bs ds rows0 (startFullBackfillForIdentity env parse opened accounts boxes identityId st)"
proof (cases "find (\<lambda>a. ac_id a = identityId) accounts")
  case (Some a)
  have a: "a \<in> set accounts" "ac_id a = identityId" using find_mem [OF Some] by simp_all
  have "\<forall>r \<in> set (inboxFirst (filter (\<lambda>r. fo_identityId r = identityId) boxes)). owner_box (ac_ownerId a) (fo_id r) bs ds"
    using assms(3) a by (auto simp: inboxFirst_def)
  then show ?thesis using assms(1) backfill_boxes_keeps [OF assms(1,2)] by (simp add: startFullBackfillForIdentity_def Some)
qed (simp add: startFullBackfillForIdentity_def assms(1))

definition backfill_ok :: "ingest_env \<Rightarrow> mailbox_row list \<Rightarrow> identity_row list \<Rightarrow> sync_row list \<Rightarrow> backfill_state \<Rightarrow> bool" where
  "backfill_ok env bs ds rows0 st \<longleftrightarrow> (\<forall>i. \<forall>x. bf_quotas st i = Some x \<longrightarrow> 0 \<le> iq_limit x) \<and> cursors_fall rows0 (bf_sync st)
     \<and> delta_inv env bs ds (bf_ingest st)"

lemma getDailyQuota_positive: "0 < getDailyQuota a"
  by (simp add: getDailyQuota_def defaultImapQuota_def split: jnum.split)

lemma getOrInitQuota_limits:
  assumes "\<forall>i x. quotas i = Some x \<longrightarrow> 0 \<le> iq_limit x" "0 \<le> q" "getOrInitQuota now i q quotas = (x, quotas')"
  shows "0 \<le> iq_limit x \<and> (\<forall>i x. quotas' i = Some x \<longrightarrow> 0 \<le> iq_limit x)"
  using assms by (auto simp: getOrInitQuota_def Let_def split: option.splits if_splits)

lemma backfill_identity_keeps:
  assumes ok: "backfill_ok env bs ds rows0 st" and d: "distinct (map sy_id rows0)"
    and own: "\<forall>a \<in> set accounts. \<forall>r \<in> set boxes. fo_identityId r = ac_id a \<longrightarrow> owner_box (ac_ownerId a) (fo_id r) bs ds"
  shows "backfill_ok env bs ds rows0 (backfill_identity env parse clients accounts boxes a st)"
proof -
  obtain x quotas where q: "getOrInitQuota (ge_now env) (ac_id a) (getDailyQuota a) (bf_quotas st) = (x, quotas)" by fastforce
  have l: "0 \<le> iq_limit x" "\<forall>i y. quotas i = Some y \<longrightarrow> 0 \<le> iq_limit y"
    using getOrInitQuota_limits [OF _ _ q] ok getDailyQuota_positive [of a] by (auto simp: backfill_ok_def)
  have "filling_ok env bs ds rows0 (iq_limit x, bf_sync st, bf_ingest st)" using ok l(1) by (simp add: filling_ok_def backfill_ok_def)
  then have f: "filling_ok env bs ds rows0 (startFullBackfillForIdentity env parse opened accounts boxes (ac_id a) (iq_limit x, bf_sync st, bf_ingest st))"
    for opened by (rule for_identity_keeps [OF _ d own])
  show ?thesis
  proof (cases "iq_limit x \<le> 0 \<or> clients (ac_id a) = None")
    case True
    then show ?thesis using ok l by (auto simp: backfill_identity_def q Let_def backfill_ok_def)
  next
    case False
    then obtain opened where o': "clients (ac_id a) = Some opened" by blast
    obtain limit rows s where r: "startFullBackfillForIdentity env parse opened accounts boxes (ac_id a) (iq_limit x, bf_sync st, bf_ingest st) = (limit, rows, s)"
      by (rule prod_cases3)
    have "backfill_identity env parse clients accounts boxes a st
        = \<lparr>bf_quotas = quotas(ac_id a \<mapsto> x\<lparr>iq_limit := limit\<rparr>), bf_sync = rows, bf_ingest = s\<rparr>"
      using False o' by (simp add: backfill_identity_def q Let_def r)
    then show ?thesis using f [of opened] l(2) unfolding r by (simp add: backfill_ok_def filling_ok_def)
  qed
qed

subsection \<open>Properties\<close>

text \<open>
  C7. Backfilling completes: with a connection that does not break, uploads that succeed and a quota that no
  single message exceeds, a mailbox whose cursor is at most 300 times \<open>n\<close> is done after \<open>n\<close> ticks. Its cursor
  is 0 and its phase idle, the tables are well formed, and every message that the server had up to the first
  cursor and that has a Message-ID is stored in the mailbox.\<close>

theorem backfill_completes:
  assumes ok: "tables_ok env s" and own: "owner_box ownerId b (st_mailboxes (in_store s)) (st_identities (in_store s))"
    and srv: "serves ms box" "\<forall>a z. \<not> snd (bx_fetch box a z)" and up: "\<forall>p. \<not> ge_uploadFails env p"
    and q: "0 < q" "\<forall>m \<in> set ms. size_of m \<le> q" and ids: "\<forall>m \<in> set ms. raw_of m \<noteq> [] \<longrightarrow> pm_messageId (parse (raw_of m)) \<noteq> None"
    and row: "row_of i b rows = Some sync" and n: "sy_backfillCursorUid sync \<le> 300 * int n" "0 < n"
  shows "\<exists>rows' s' y. backfill_rounds (Some box) (backfill_message env parse ownerId b path) i b DEFAULT_WINDOW q n (rows, s) = (rows', s')
     \<and> tables_ok env s' \<and> row_of i b rows' = Some y \<and> sy_backfillCursorUid y = 0 \<and> sy_phase y = IDLE
     \<and> (\<forall>m \<in> set ms. \<forall>j. 1 \<le> fm_uid m \<and> fm_uid m \<le> sy_backfillCursorUid sync \<and> raw_of m \<noteq> [] \<and> j \<noteq> []
            \<and> pm_messageId (parse (raw_of m)) = Some j \<longrightarrow> (b, j) \<in> message_key ` set (st_messages (in_store s')))"
proof -
  let ?bs = "st_mailboxes (in_store s)" and ?ds = "st_identities (in_store s)"
  have I: "(\<forall>p. \<not> ge_uploadFails env p) \<and> owner_box ownerId b ?bs ?ds \<and> delta_inv env ?bs ?ds s"
    using ok own up by (simp add: delta_inv_def)
  have M: "\<forall>m \<in> set ms. raw_of m \<noteq> [] \<longrightarrow> m \<in> {m. pm_messageId (parse (raw_of m)) \<noteq> None}" using ids by simp
  have w: "1 \<le> DEFAULT_WINDOW" and n': "sy_backfillCursorUid sync \<le> DEFAULT_WINDOW * int n" using n(1) by (simp_all add: DEFAULT_WINDOW_def)
  obtain rows' s' y where r: "backfill_rounds (Some box) (backfill_message env parse ownerId b path) i b DEFAULT_WINDOW q n (rows, s) = (rows', s')"
    "delta_inv env ?bs ?ds s'" "row_of i b rows' = Some y" "sy_backfillCursorUid y = 0" "sy_phase y = IDLE"
    "\<forall>m \<in> set ms. \<forall>k. 1 \<le> fm_uid m \<and> fm_uid m \<le> sy_backfillCursorUid sync \<and> raw_of m \<noteq> [] \<and> stored_key parse b m = Some k
       \<longrightarrow> k \<in> message_key ` set (st_messages (in_store s'))"
    using backfill.rounds_store [OF srv q M w I row n' n(2), of path] by blast
  have "(b, j) \<in> message_key ` set (st_messages (in_store s'))"
    if "m \<in> set ms" "1 \<le> fm_uid m" "fm_uid m \<le> sy_backfillCursorUid sync" "raw_of m \<noteq> []" "j \<noteq> []" "pm_messageId (parse (raw_of m)) = Some j" for m j
    using r(6) that by (simp add: stored_key_def)
  then show ?thesis using r(1-5) by (intro exI [of _ rows'] exI [of _ s'] exI [of _ y]) (simp add: delta_inv_def)
qed

theorem backfill_completes_witness:
  "\<exists>rows' s'. backfill_rounds (Some (sample_box [2, 3])) (backfill_message sample_env (\<lambda>_. sample_mail ''m'' None NoReferences) ''o'' ''b1'' ''INBOX'')
       ''i'' ''b1'' DEFAULT_WINDOW 10 1 ([sample_sync 0 3], sample_ingest [] []) = (rows', s')
     \<and> tables_ok sample_env s' \<and> (''b1'', ''m'') \<in> message_key ` set (st_messages (in_store s'))"
proof -
  let ?s = "sample_ingest [] []" and ?ms = "map sample_fetched [2, 3]" and ?y = "sample_sync 0 3"
  let ?parse = "\<lambda>_ :: string. sample_mail ''m'' None NoReferences"
  have "ingest_ok sample_env ?s" by (rule sample_ingest_ok) code_simp+
  then have ok: "tables_ok sample_env ?s" by (simp add: ingest_ok_def)
  have own: "owner_box ''o'' ''b1'' (st_mailboxes (in_store ?s)) (st_identities (in_store ?s))"
    by (simp add: owner_box_def sample_ingest_def sample_store_def sample_mailbox_def)
  have srv: "serves ?ms (sample_box [2, 3])" "\<forall>a z. \<not> snd (bx_fetch (sample_box [2, 3]) a z)"
    by (rule sample_box_serves, simp) (simp add: sample_box_def)
  have c: "\<forall>p. \<not> ge_uploadFails sample_env p" "(0 :: rat) < 10" "\<forall>m \<in> set ?ms. size_of m \<le> 10"
    "\<forall>m \<in> set ?ms. raw_of m \<noteq> [] \<longrightarrow> pm_messageId (?parse (raw_of m)) \<noteq> None" "row_of ''i'' ''b1'' [?y] = Some ?y"
    "sy_backfillCursorUid ?y \<le> 300 * int 1" "0 < (1 :: nat)"
    by (simp_all add: sample_env_def sample_fetched_def size_of_def sample_mail_def sample_sync_def)
  from backfill_completes [OF ok own srv c, of "''INBOX''"] obtain rows' s' where
    r: "backfill_rounds (Some (sample_box [2, 3])) (backfill_message sample_env ?parse ''o'' ''b1'' ''INBOX'') ''i'' ''b1'' DEFAULT_WINDOW 10 1
        ([?y], ?s) = (rows', s')" "tables_ok sample_env s'"
      "\<forall>m \<in> set ?ms. \<forall>j. 1 \<le> fm_uid m \<and> fm_uid m \<le> sy_backfillCursorUid ?y \<and> raw_of m \<noteq> [] \<and> j \<noteq> []
         \<and> pm_messageId (?parse (raw_of m)) = Some j \<longrightarrow> (''b1'', j) \<in> message_key ` set (st_messages (in_store s'))" by blast
  moreover have "(''b1'', ''m'') \<in> message_key ` set (st_messages (in_store s'))"
    using r(3) by (simp add: sample_fetched_def raw_of_def sample_mail_def sample_sync_def)
  ultimately show ?thesis by blast
qed

text \<open>
  C8. A tick of the backfill over all accounts keeps the mail tables well formed, however its connections,
  its uploads and its quotas turn out: no quota becomes negative, no cursor moves up, and the rows of the
  mailboxes and identities are those of before.\<close>

theorem startFullBackfill_keeps:
  assumes ok: "tables_ok env (bf_ingest st)" and d: "distinct (map sy_id (bf_sync st))"
    and q: "\<forall>i. \<forall>x. bf_quotas st i = Some x \<longrightarrow> 0 \<le> iq_limit x"
    and own: "\<forall>a \<in> set accounts. \<forall>r \<in> set boxes. fo_identityId r = ac_id a \<longrightarrow>
      owner_box (ac_ownerId a) (fo_id r) (st_mailboxes (in_store (bf_ingest st))) (st_identities (in_store (bf_ingest st)))"
  shows "let st' = startFullBackfill env parse clients accounts boxes st
    in tables_ok env (bf_ingest st') \<and> cursors_fall (bf_sync st) (bf_sync st') \<and> (\<forall>i. \<forall>x. bf_quotas st' i = Some x \<longrightarrow> 0 \<le> iq_limit x)
       \<and> st_mailboxes (in_store (bf_ingest st')) = st_mailboxes (in_store (bf_ingest st))
       \<and> st_identities (in_store (bf_ingest st')) = st_identities (in_store (bf_ingest st))"
proof -
  let ?bs = "st_mailboxes (in_store (bf_ingest st))" and ?ds = "st_identities (in_store (bf_ingest st))"
  have "backfill_ok env ?bs ?ds (bf_sync st) s \<Longrightarrow>
      backfill_ok env ?bs ?ds (bf_sync st) (foldl (\<lambda>st a. backfill_identity env parse clients accounts boxes a st) s xs)" for s xs
    by (induction xs arbitrary: s) (simp_all add: backfill_identity_keeps [OF _ d own])
  moreover have "backfill_ok env ?bs ?ds (bf_sync st) st" using ok q by (simp add: backfill_ok_def delta_inv_def)
  ultimately have "backfill_ok env ?bs ?ds (bf_sync st) (startFullBackfill env parse clients accounts boxes st)"
    by (simp add: startFullBackfill_def)
  then show ?thesis by (simp add: Let_def backfill_ok_def delta_inv_def)
qed

theorem startFullBackfill_keeps_witness:
  "\<exists>st'. startFullBackfill sample_env (\<lambda>_. sample_mail ''m'' None NoReferences) (\<lambda>_. Some (\<lambda>_. Some (sample_box [2, 3])))
       [\<lparr>ac_id = ''i'', ac_ownerId = ''o'', ac_kind = ''email'', ac_smtpAccountId = Some ''a'', ac_dailyQuota = JStr ''100''\<rparr>]
       [\<lparr>fo_id = ''b1'', fo_ownerId = ''o'', fo_identityId = ''i'', fo_parentId = None, fo_kind = ''inbox'', fo_name = ''Inbox'', fo_slug = None,
         fo_isDefault = True, fo_imap = Some \<lparr>ii_path = Some ''INBOX'', ii_name = ''Inbox'', ii_parentPath = [], ii_delimiter = ''.'', ii_flags = [], ii_specialUse = None, ii_selectable = True\<rparr>\<rparr>]
       \<lparr>bf_quotas = Map.empty, bf_sync = [sample_sync 0 3], bf_ingest = sample_ingest [] []\<rparr> = st'
     \<and> tables_ok sample_env (bf_ingest st') \<and> map sy_backfillCursorUid (bf_sync st') = [0] \<and> map_option iq_limit (bf_quotas st' ''i'') = Some 80"
proof -
  let ?a = "\<lparr>ac_id = ''i'', ac_ownerId = ''o'', ac_kind = ''email'', ac_smtpAccountId = Some ''a'', ac_dailyQuota = JStr ''100''\<rparr>"
  let ?r = "\<lparr>fo_id = ''b1'', fo_ownerId = ''o'', fo_identityId = ''i'', fo_parentId = None, fo_kind = ''inbox'', fo_name = ''Inbox'', fo_slug = None,
         fo_isDefault = True, fo_imap = Some \<lparr>ii_path = Some ''INBOX'', ii_name = ''Inbox'', ii_parentPath = [], ii_delimiter = ''.'', ii_flags = [], ii_specialUse = None, ii_selectable = True\<rparr>\<rparr>"
  let ?st = "\<lparr>bf_quotas = Map.empty, bf_sync = [sample_sync 0 3], bf_ingest = sample_ingest [] []\<rparr>"
  let ?parse = "\<lambda>_ :: string. sample_mail ''m'' None NoReferences" and ?cs = "\<lambda>_ :: string. Some (\<lambda>_ :: string. Some (sample_box [2, 3]))"
  have "ingest_ok sample_env (sample_ingest [] [])" by (rule sample_ingest_ok) code_simp+
  then have h: "tables_ok sample_env (bf_ingest ?st)" "distinct (map sy_id (bf_sync ?st))" "\<forall>i. \<forall>x. bf_quotas ?st i = Some x \<longrightarrow> 0 \<le> iq_limit x"
    "\<forall>a \<in> set [?a]. \<forall>r \<in> set [?r]. fo_identityId r = ac_id a \<longrightarrow>
      owner_box (ac_ownerId a) (fo_id r) (st_mailboxes (in_store (bf_ingest ?st))) (st_identities (in_store (bf_ingest ?st)))"
    by (simp_all add: ingest_ok_def owner_box_def sample_ingest_def sample_store_def sample_mailbox_def)
  have v: "map sy_backfillCursorUid (bf_sync (startFullBackfill sample_env ?parse ?cs [?a] [?r] ?st)) = [0]"
    "map_option iq_limit (bf_quotas (startFullBackfill sample_env ?parse ?cs [?a] [?r] ?st) ''i'') = Some 80" by code_simp+
  from startFullBackfill_keeps [OF h, of ?parse ?cs] v show ?thesis by (auto simp: Let_def)
qed

text \<open>
  The quota can lose messages: a message larger than what is left of it is skipped, with the rest of its
  window, and the cursor still moves below the window. Here the mailbox ends idle with its cursor at 0 and a
  quota of 0, and no message of it is stored.\<close>

theorem backfill_quota_skips:
  "\<exists>rows' s'. backfillMailboxFull (Some (sample_box [1, 2, 3])) (backfill_message sample_env (\<lambda>_. sample_mail ''m'' None NoReferences) ''o'' ''b1'' ''INBOX'')
       ''i'' ''b1'' DEFAULT_WINDOW (9, [sample_sync 1 3], sample_ingest [] []) = ((0, rows', s'), None)
     \<and> map sy_phase rows' = [IDLE] \<and> map sy_backfillCursorUid rows' = [0] \<and> st_messages (in_store s') = []"
proof -
  let ?r = "backfillMailboxFull (Some (sample_box [1, 2, 3])) (backfill_message sample_env (\<lambda>_. sample_mail ''m'' None NoReferences) ''o'' ''b1'' ''INBOX'')
       ''i'' ''b1'' DEFAULT_WINDOW (9, [sample_sync 1 3], sample_ingest [] [])"
  have "(fst (fst ?r), snd ?r, map sy_phase (fst (snd (fst ?r))), map sy_backfillCursorUid (fst (snd (fst ?r))), st_messages (in_store (snd (snd (fst ?r)))))
      = (0, None, [IDLE], [0], [])" by code_simp
  then show ?thesis by (cases ?r) (auto simp del: split_paired_Ex intro!: exI)
qed

text \<open>
  Each message is compared with the quota as it was before the window, so that a window may take more
  than the quota: here twice as much.\<close>

theorem backfill_quota_exceeded:
  "\<exists>ms q s'. 0 < q \<and> backfill_loop (\<lambda>m (s :: int list). (s @ [fm_uid m], None :: ingest_error option)) ms q 0 [] = (s', Inr (q, 2 * q, True))
     \<and> s' = map fm_uid ms"
  by (rule exI [of _ "[sample_fetched 1, sample_fetched 2]"], rule exI [of _ 10], rule exI [of _ "[1, 2]"])
     (simp add: sample_fetched_def raw_of_def size_of_def)

end
