(* ===== verification/Subscriptions.thy ===== *)
theory Subscriptions
  imports Ingest
begin

text \<open>
  Mailing lists in the web client: the part of \<open>apps/web/lib/actions/mailbox.ts\<close> that finds the subscriptions of
  the messages of a thread and leaves a list. The rows are those that the ingestion of mail writes
  (theory \<open>Ingest\<close>); the web client computes the key of a list anew from the stored headers.

  \<open>new URL\<close> is an argument, as in the ingestion. A row of \<open>mail_subscriptions\<close> is named by its unique key
  instead of its id. The request to the list is the list of the URLs posted to.
\<close>

subsection \<open>The key of a list\<close>

text \<open>\<open>.replace(/^<|>$/g, "")\<close> and \<open>/^https?:/i\<close>.\<close>

definition strip_angles :: "string \<Rightarrow> string" where
  "strip_angles l =
     (let l1 = (case l of c # cs \<Rightarrow> if c = CHR ''<'' then cs else l | [] \<Rightarrow> [])
      in if l1 \<noteq> [] \<and> last l1 = CHR ''>'' then butlast l1 else l1)"

definition http_url :: "string \<Rightarrow> bool" where
  "http_url u \<longleftrightarrow> startsWith (toLowerCase u) ''http:'' \<or> startsWith (toLowerCase u) ''https:''"

definition header_url :: "(string \<times> jsval) list \<Rightarrow> string option" where
  "header_url headers =
     (let unsub = opt_prop ''unsubscribe'' (js_prop ''list'' headers);
          fromList = (if js_Boolean (opt_prop ''url'' unsub) then opt_prop ''url'' unsub else opt_prop ''href'' unsub);
          url = (case fromList of JStr u \<Rightarrow> or_undefined (Some u) | _ \<Rightarrow> None)
      in case url of
           Some u \<Rightarrow> Some u
         | None \<Rightarrow>
             (case js_prop ''list-unsubscribe'' headers of
                JStr h \<Rightarrow> or_undefined (find http_url (map (\<lambda>s. strip_angles (trim s)) (split_on CHR '','' h)))
              | _ \<Rightarrow> None))"

definition subscriptionKeyFromHeadersJson :: "(string \<Rightarrow> url_parts option) \<Rightarrow> (string \<times> jsval) list \<Rightarrow> string option" where
  "subscriptionKeyFromHeadersJson parse_url headers =
     (case or_undefined (Some (trim (js_String (coalesce (js_prop ''list-id'' headers) (JStr []))))) of
        Some l \<Rightarrow> (let cleaned = toLowerCase (filter (\<lambda>c. \<not> is_ws c) (strip_angles l))
                   in if cleaned = [] then None else Some (''list-id:'' @ cleaned))
      | None \<Rightarrow>
          (case header_url headers of
             None \<Rightarrow> None
           | Some u \<Rightarrow>
               (case parse_url u of
                  None \<Rightarrow> None
                | Some parts \<Rightarrow>
                    let p = or_default (Some (strip_slashes (or_default (Some (url_pathname parts)) ''/''))) ''/''
                    in Some (url_protocol parts @ ''//'' @ toLowerCase (url_host parts) @ p))))"

subsection \<open>The subscriptions of a thread\<close>

text \<open>A \<open>Map\<close> keeps the last value that was set for a key.\<close>

definition fetchThreadMailSubscriptions ::
  "(string \<Rightarrow> url_parts option) \<Rightarrow> string \<Rightarrow> (string \<times> (string \<times> jsval) list) list \<Rightarrow> subscription_row list
     \<Rightarrow> (string \<rightharpoonup> subscription_row option) \<times> (string \<rightharpoonup> string)" where
  "fetchThreadMailSubscriptions parse_url ownerId ms rows =
     (let keysByMessageId = foldl (\<lambda>f m. case subscriptionKeyFromHeadersJson parse_url (snd m) of
                                           Some k \<Rightarrow> if k \<noteq> [] then f(fst m \<mapsto> k) else f | None \<Rightarrow> f) Map.empty ms;
          uniqueKeys = List.map_filter (\<lambda>m. keysByMessageId (fst m)) ms;
          found = filter (\<lambda>r. ms_ownerId r = ownerId \<and> ms_subscriptionKey r \<in> set uniqueKeys) rows;
          byKey = foldl (\<lambda>f r. f(ms_subscriptionKey r \<mapsto> r)) Map.empty found
      in if uniqueKeys = [] then (Map.empty, keysByMessageId)
         else (\<lambda>i. case keysByMessageId i of None \<Rightarrow> None | Some k \<Rightarrow> Some (byKey k), keysByMessageId))"

subsection \<open>Leaving a list\<close>

text \<open>
  \<open>posts\<close> says whether the request goes through; \<open>handleAction\<close> turns an exception into a failure. The result
  is the rows, the URLs posted to and the success.
\<close>

definition is_subscription :: "string \<Rightarrow> string \<Rightarrow> subscription_row \<Rightarrow> bool" where
  "is_subscription ownerId key r \<longleftrightarrow> ms_ownerId r = ownerId \<and> ms_subscriptionKey r = key"

definition oneClickUnsubscribe ::
  "(string \<Rightarrow> bool) \<Rightarrow> string \<times> string \<Rightarrow> subscription_row list \<Rightarrow> subscription_row list \<times> string list \<times> bool" where
  "oneClickUnsubscribe posts i rows =
     (case Option.bind (find (is_subscription (fst i) (snd i)) rows) ms_unsubscribeHttpUrl of
        None \<Rightarrow> (rows, [], False)
      | Some url \<Rightarrow>
          if url = [] then (rows, [], False)
          else if \<not> posts url then (rows, [url], False)
          else (update_where (is_subscription (fst i) (snd i)) (\<lambda>r. r\<lparr>ms_status := ''unsubscribed''\<rparr>) rows, [url], True))"

subsection \<open>Lemmas\<close>

lemma clean_list_id_angles: "clean_list_id l = toLowerCase (filter (\<lambda>c. \<not> is_ws c) (strip_angles l))"
  by (simp add: clean_list_id_def strip_angles_def Let_def)

lemma list_id_of: "lf_listId (list_facts_of headers) = or_undefined (Some (trim (js_String (coalesce (js_prop ''list-id'' headers) (JStr [])))))"
  by (simp add: list_facts_of_def Let_def)

text \<open>With the URL of the list object, both sides read the same one.\<close>

lemma header_url_list:
  assumes "opt_prop ''url'' (opt_prop ''unsubscribe'' (js_prop ''list'' headers)) = JStr u" "u \<noteq> []"
  shows "header_url headers = Some u" "lf_url (list_facts_of headers) = Some u"
  using assms by (simp_all add: header_url_def list_facts_of_def Let_def js_or_null_def)

text \<open>The ids of messages are distinct, so each has the key of its own headers.\<close>

lemma key_nonempty: "subscriptionKeyFromHeadersJson parse_url headers = Some k \<Longrightarrow> k \<noteq> []"
  by (auto simp: subscriptionKeyFromHeadersJson_def Let_def split: option.splits if_splits)

lemma foldl_keys:
  assumes "distinct (map fst ms)"
  shows "foldl (\<lambda>f m. case subscriptionKeyFromHeadersJson parse_url (snd m) of
                        Some k \<Rightarrow> if k \<noteq> [] then f(fst m \<mapsto> k) else f | None \<Rightarrow> f) f0 ms i
    = (case Option.bind (map_of ms i) (subscriptionKeyFromHeadersJson parse_url) of Some k \<Rightarrow> Some k | None \<Rightarrow> f0 i)"
  using assms
proof (induction ms arbitrary: f0)
  case (Cons m ms)
  have "map_of ms (fst m) = None" using Cons.prems by (simp add: map_of_eq_None_iff)
  then show ?case using Cons key_nonempty [of parse_url "snd m"]
    by (cases "subscriptionKeyFromHeadersJson parse_url (snd m)") (auto split: option.split)
qed simp

lemma by_key_find:
  assumes "distinct (map ms_subscriptionKey rs)"
  shows "foldl (\<lambda>f r. f(ms_subscriptionKey r \<mapsto> r)) f0 rs k
    = (case find (\<lambda>r. ms_subscriptionKey r = k) rs of Some r \<Rightarrow> Some r | None \<Rightarrow> f0 k)"
  using assms
proof (induction rs arbitrary: f0)
  case (Cons r rs)
  have "find (\<lambda>x. ms_subscriptionKey x = k) rs = None" if "ms_subscriptionKey r = k"
    using Cons.prems that by (auto simp: find_None_iff image_iff)
  then show ?case using Cons by (auto split: option.split)
qed simp

text \<open>The unique index of the table.\<close>

definition subscriptions_unique :: "subscription_row list \<Rightarrow> bool" where
  "subscriptions_unique rows \<longleftrightarrow> distinct (map (\<lambda>r. (ms_ownerId r, ms_subscriptionKey r)) rows)"

lemma owner_keys_distinct:
  "subscriptions_unique rows \<Longrightarrow> distinct (map ms_subscriptionKey (filter (\<lambda>r. ms_ownerId r = ownerId \<and> P r) rows))"
  by (auto simp: subscriptions_unique_def distinct_map inj_on_def)

lemma fetch_one:
  assumes "distinct (map fst ms)" "(i, headers) \<in> set ms" "subscriptionKeyFromHeadersJson parse_url headers = Some k"
    "subscriptions_unique rows"
  shows "fst (fetchThreadMailSubscriptions parse_url ownerId ms rows) i = Some (find (is_subscription ownerId k) rows)"
proof -
  define keys where "keys = foldl (\<lambda>f m. case subscriptionKeyFromHeadersJson parse_url (snd m) of
      Some k \<Rightarrow> if k \<noteq> [] then f(fst m \<mapsto> k) else f | None \<Rightarrow> f) Map.empty ms"
  let ?u = "List.map_filter (\<lambda>m. keys (fst m)) ms"
  have k: "keys i = Some k" using assms(1-3) by (simp add: keys_def foldl_keys)
  then have u: "k \<in> set ?u" using assms(2) by (force simp: map_filter_def)
  let ?found = "filter (\<lambda>r. ms_ownerId r = ownerId \<and> ms_subscriptionKey r \<in> set ?u) rows"
  have "find (\<lambda>r. ms_subscriptionKey r = k) ?found = find (is_subscription ownerId k) rows"
    using u by (induction rows) (auto simp: is_subscription_def)
  moreover have "foldl (\<lambda>f r. f(ms_subscriptionKey r \<mapsto> r)) Map.empty ?found k = find (\<lambda>r. ms_subscriptionKey r = k) ?found"
    by (subst by_key_find [OF owner_keys_distinct [OF assms(4)]]) (simp split: option.split)
  moreover have "?u \<noteq> []" using u by auto
  ultimately show ?thesis using k by (simp add: fetchThreadMailSubscriptions_def Let_def keys_def [symmetric])
qed

text \<open>What the ingestion leaves for a list with a key.\<close>

lemma ingested_row:
  assumes "subscription_key env p (list_facts_of (pm_headers p)) = Some k"
    "lf_listId (list_facts_of (pm_headers p)) \<noteq> None \<or> lf_url (list_facts_of (pm_headers p)) \<noteq> None \<or> lf_mailto (list_facts_of (pm_headers p)) \<noteq> None"
    "subscriptions_unique (in_subscriptions s)"
  shows "subscriptions_unique (in_subscriptions (ingestMailSubscriptionFromMessage env ownerId p s))"
    "\<exists>r. find (is_subscription ownerId k) (in_subscriptions (ingestMailSubscriptionFromMessage env ownerId p s)) = Some r
       \<and> ms_ownerId r = ownerId \<and> ms_subscriptionKey r = k \<and> ms_lastSeenAt r = ge_now env"
proof -
  let ?f = "list_facts_of (pm_headers p)" and ?h = "is_subscription ownerId k"
  let ?rows = "in_subscriptions (ingestMailSubscriptionFromMessage env ownerId p s)"
  let ?one = "case lf_post ?f of None \<Rightarrow> False | Some x \<Rightarrow> str_includes x ''one-click''"
  let ?g = "\<lambda>r. r\<lparr>ms_listId := lf_listId ?f, ms_unsubscribeHttpUrl := lf_url ?f, ms_unsubscribeMailto := lf_mailto ?f,
    ms_oneClick := ?one, ms_lastSeenAt := ge_now env\<rparr>"
  have h: "(\<lambda>r. ms_ownerId r = ownerId \<and> ms_subscriptionKey r = k) = ?h" by (simp add: fun_eq_iff is_subscription_def)
  have rows: "?rows = (if list_ex ?h (in_subscriptions s) then update_where ?h ?g (in_subscriptions s)
      else in_subscriptions s @ [\<lparr>ms_ownerId = ownerId, ms_subscriptionKey = k, ms_listId = lf_listId ?f,
        ms_unsubscribeHttpUrl = lf_url ?f, ms_unsubscribeMailto = lf_mailto ?f, ms_oneClick = ?one, ms_status = ''subscribed'',
        ms_lastSeenAt = ge_now env\<rparr>])"
  proof -
    have "\<not> (lf_listId ?f = None \<and> lf_url ?f = None \<and> lf_mailto ?f = None)" using assms(2) by blast
    then show ?thesis unfolding ingestMailSubscriptionFromMessage_def Let_def h assms(1) option.case
      by (cases "list_ex ?h (in_subscriptions s)") (simp_all only: if_False if_True, simp_all)
  qed
  have gk: "map (\<lambda>r. (ms_ownerId r, ms_subscriptionKey r)) (update_where ?h ?g xs) = map (\<lambda>r. (ms_ownerId r, ms_subscriptionKey r)) xs" for xs
    by (rule map_update_where) simp
  have fg: "find ?h (update_where ?h ?g xs) = map_option ?g (find ?h xs)" for xs
    by (rule find_update_where) (simp add: is_subscription_def)
  have hit: "find ?h xs \<noteq> None \<longleftrightarrow> list_ex ?h xs" for xs by (induction xs) auto
  show "subscriptions_unique ?rows"
    using assms(3) gk by (auto simp: rows subscriptions_unique_def list_ex_iff is_subscription_def)
  show "\<exists>r. find ?h ?rows = Some r \<and> ms_ownerId r = ownerId \<and> ms_subscriptionKey r = k \<and> ms_lastSeenAt r = ge_now env"
  proof (cases "list_ex ?h (in_subscriptions s)")
    case True
    then obtain q where q: "find ?h (in_subscriptions s) = Some q" using hit by auto
    then have "?h q" using find_mem by fastforce
    then show ?thesis using True q by (simp add: rows fg is_subscription_def)
  next
    case False
    then have "find ?h (in_subscriptions s) = None" using hit [of "in_subscriptions s"] by simp
    then show ?thesis using False by (simp add: rows find_snoc) (simp add: is_subscription_def)
  qed
qed

text \<open>The ingestion never changes the status of a row.\<close>

lemma ingest_rows_cases:
  obtains (same) "in_subscriptions (ingestMailSubscriptionFromMessage env o' p s) = in_subscriptions s"
    | (update) Q g where "in_subscriptions (ingestMailSubscriptionFromMessage env o' p s) = update_where Q g (in_subscriptions s)"
        "\<And>r. ms_ownerId (g r) = ms_ownerId r \<and> ms_subscriptionKey (g r) = ms_subscriptionKey r \<and> ms_status (g r) = ms_status r"
    | (new) x where "in_subscriptions (ingestMailSubscriptionFromMessage env o' p s) = in_subscriptions s @ [x]"
proof (cases "subscription_key env p (list_facts_of (pm_headers p))")
  case None
  then show thesis using same by (simp add: ingestMailSubscriptionFromMessage_def Let_def)
next
  case (Some k)
  let ?f = "list_facts_of (pm_headers p)" and ?hit = "\<lambda>r. ms_ownerId r = o' \<and> ms_subscriptionKey r = k"
  let ?g = "\<lambda>r. r\<lparr>ms_listId := lf_listId ?f, ms_unsubscribeHttpUrl := lf_url ?f, ms_unsubscribeMailto := lf_mailto ?f,
    ms_oneClick := (case lf_post ?f of None \<Rightarrow> False | Some x \<Rightarrow> str_includes x ''one-click''), ms_lastSeenAt := ge_now env\<rparr>"
  show thesis
  proof (cases "lf_listId ?f = None \<and> lf_url ?f = None \<and> lf_mailto ?f = None")
    case True
    then show thesis using same by (simp add: ingestMailSubscriptionFromMessage_def Let_def)
  next
    case False
    show thesis
    proof (cases "list_ex ?hit (in_subscriptions s)")
      case True
      have "in_subscriptions (ingestMailSubscriptionFromMessage env o' p s) = update_where ?hit ?g (in_subscriptions s)"
        unfolding ingestMailSubscriptionFromMessage_def Let_def Some option.case using False True by (simp_all only: if_False if_True, simp_all)
      then show thesis by (rule update) simp
    next
      case no: False
      show thesis
        by (rule new) (unfold ingestMailSubscriptionFromMessage_def Let_def Some option.case, use False no in \<open>simp_all only: if_False if_True, simp_all\<close>)
    qed
  qed
qed

lemma status_kept:
  assumes "find (is_subscription ownerId key) (in_subscriptions s) = Some r"
  shows "map_option ms_status (find (is_subscription ownerId key) (in_subscriptions (ingestMailSubscriptionFromMessage env o' p s))) = Some (ms_status r)"
proof (cases rule: ingest_rows_cases [of env o' p s])
  case (update Q g)
  have "find (is_subscription ownerId key) (update_where Q g xs) = map_option (\<lambda>x. if Q x then g x else x) (find (is_subscription ownerId key) xs)" for xs
    using update(2) by (induction xs) (auto simp: update_where_def is_subscription_def)
  then show ?thesis using assms update by simp
qed (use assms in \<open>simp_all add: find_snoc\<close>)

definition list_mail :: "(string \<times> jsval) list \<Rightarrow> parsed_mail" where
  "list_mail headers = (sample_mail ''m'' None NoReferences)\<lparr>pm_headers := headers\<rparr>"

definition list_id_headers :: "(string \<times> jsval) list" where
  "list_id_headers = [(''list-id'', JStr ''<News.example.org>'')]"

subsection \<open>Properties\<close>

text \<open>
  The web client and the worker compute the same key of a list that has an id, and of one that has no id
  but the URL of a list object whose host is in lower case, as URL parsing gives it for the web's schemes.\<close>

theorem subscription_keys_agree:
  assumes "lf_listId (list_facts_of headers) \<noteq> None
    \<or> opt_prop ''url'' (opt_prop ''unsubscribe'' (js_prop ''list'' headers)) = JStr u \<and> u \<noteq> []
      \<and> (\<forall>parts. ge_url env u = Some parts \<longrightarrow> toLowerCase (url_host parts) = url_host parts)"
  shows "subscriptionKeyFromHeadersJson (ge_url env) headers = subscription_key env p (list_facts_of headers)"
proof (cases "lf_listId (list_facts_of headers)")
  case (Some l)
  then show ?thesis unfolding subscriptionKeyFromHeadersJson_def list_id_of [symmetric] subscription_key_def clean_list_id_angles by simp
next
  case None
  then have u: "opt_prop ''url'' (opt_prop ''unsubscribe'' (js_prop ''list'' headers)) = JStr u" "u \<noteq> []"
    and host: "\<And>parts. ge_url env u = Some parts \<Longrightarrow> toLowerCase (url_host parts) = url_host parts" using assms by auto
  show ?thesis unfolding subscriptionKeyFromHeadersJson_def list_id_of [symmetric] subscription_key_def None header_url_list [OF u]
    by (simp add: host Let_def split: option.split)
qed

theorem subscription_keys_agree_witness:
  "subscriptionKeyFromHeadersJson (ge_url sample_env) list_id_headers = Some ''list-id:news.example.org''
   \<and> subscription_key sample_env (list_mail []) (list_facts_of list_id_headers) = Some ''list-id:news.example.org''"
proof -
  have "lf_listId (list_facts_of list_id_headers) \<noteq> None" by code_simp
  then have "subscriptionKeyFromHeadersJson (ge_url sample_env) list_id_headers = subscription_key sample_env (list_mail []) (list_facts_of list_id_headers)"
    by (intro subscription_keys_agree [where u = "[]"]) (rule disjI1)
  moreover have "subscriptionKeyFromHeadersJson (ge_url sample_env) list_id_headers = Some ''list-id:news.example.org''" by code_simp
  ultimately show ?thesis by simp
qed



text \<open>
  A list that can be left by mail only is remembered under a key that the thread view does not compute: its
  messages are shown without a subscription.\<close>

theorem mailto_list_not_found:
  "let headers = [(''list-unsubscribe'', JStr ''<mailto:leave@example.org>'')];
       rows = in_subscriptions (ingestMailSubscriptionFromMessage sample_env ''o'' (list_mail headers) (sample_ingest [] []))
   in map ms_subscriptionKey rows = [''mailto:leave@example.org'']
      \<and> fst (fetchThreadMailSubscriptions (ge_url sample_env) ''o'' [(''m'', headers)] rows) ''m'' = None"
  by code_simp

text \<open>
  C36. Leaving a list posts once, to the URL of exactly that subscription, marks exactly its row, and the row
  stays marked whatever mail arrives later; without a URL, or when the request fails, nothing changes.\<close>

theorem oneClickUnsubscribe_correct:
  assumes "oneClickUnsubscribe posts (ownerId, key) (in_subscriptions s) = (rows, urls, ok)"
    "subscriptions_unique (in_subscriptions s)"
  shows "if ok then (\<exists>r url. find (is_subscription ownerId key) (in_subscriptions s) = Some r \<and> ms_unsubscribeHttpUrl r = Some url
              \<and> urls = [url] \<and> posts url)
           \<and> rows = update_where (is_subscription ownerId key) (\<lambda>r. r\<lparr>ms_status := ''unsubscribed''\<rparr>) (in_subscriptions s)
           \<and> map_option ms_status (find (is_subscription ownerId key)
                (in_subscriptions (ingestMailSubscriptionFromMessage env o' p (s\<lparr>in_subscriptions := rows\<rparr>)))) = Some ''unsubscribed''
         else rows = in_subscriptions s"
proof (cases ok)
  case False
  then show ?thesis using assms(1) by (auto simp: oneClickUnsubscribe_def split: option.splits if_splits)
next
  case True
  let ?h = "is_subscription ownerId key" and ?g = "\<lambda>r. r\<lparr>ms_status := ''unsubscribed''\<rparr>"
  obtain r url where r: "find ?h (in_subscriptions s) = Some r" "ms_unsubscribeHttpUrl r = Some url" "urls = [url]" "posts url"
    "rows = update_where ?h ?g (in_subscriptions s)"
    using assms(1) True by (auto simp: oneClickUnsubscribe_def bind_eq_Some_conv split: option.splits if_splits)
  have f: "find ?h rows = Some (?g r)" unfolding r(5) by (subst find_update_where) (simp_all add: is_subscription_def r(1))
  have "map_option ms_status (find ?h (in_subscriptions (ingestMailSubscriptionFromMessage env o' p (s\<lparr>in_subscriptions := rows\<rparr>))))
      = Some ''unsubscribed''"
    using status_kept [of ownerId key "s\<lparr>in_subscriptions := rows\<rparr>" "?g r" env o' p] f by simp
  then show ?thesis using True r by auto
qed

theorem oneClickUnsubscribe_correct_witness:
  "let rows0 = [\<lparr>ms_ownerId = ''o'', ms_subscriptionKey = ''k'', ms_listId = None, ms_unsubscribeHttpUrl = Some ''https://x'',
       ms_unsubscribeMailto = None, ms_oneClick = True, ms_status = ''subscribed'', ms_lastSeenAt = 1\<rparr>];
     s = (sample_ingest [] [])\<lparr>in_subscriptions := rows0\<rparr>;
     (rows, urls, ok) = oneClickUnsubscribe (\<lambda>_. True) (''o'', ''k'') rows0
   in ok \<and> urls = [''https://x''] \<and> map_option ms_status (find (is_subscription ''o'' ''k'')
        (in_subscriptions (ingestMailSubscriptionFromMessage sample_env ''o'' (list_mail []) (s\<lparr>in_subscriptions := rows\<rparr>)))) = Some ''unsubscribed''"
proof -
  let ?r0 = "\<lparr>ms_ownerId = ''o'', ms_subscriptionKey = ''k'', ms_listId = None, ms_unsubscribeHttpUrl = Some ''https://x'',
       ms_unsubscribeMailto = None, ms_oneClick = True, ms_status = ''subscribed'', ms_lastSeenAt = 1\<rparr>"
  let ?s = "(sample_ingest [] [])\<lparr>in_subscriptions := [?r0]\<rparr>"
  have run: "oneClickUnsubscribe (\<lambda>_. True) (''o'', ''k'') (in_subscriptions ?s)
      = (update_where (is_subscription ''o'' ''k'') (\<lambda>r. r\<lparr>ms_status := ''unsubscribed''\<rparr>) [?r0], [''https://x''], True)"
    by (simp add: oneClickUnsubscribe_def) (simp add: is_subscription_def)
  moreover have "subscriptions_unique (in_subscriptions ?s)" by (simp add: subscriptions_unique_def)
  ultimately show ?thesis using oneClickUnsubscribe_correct [OF run, of sample_env "''o''" "list_mail []"] by simp
qed

end
