(* ===== verification/WebFolders.thy ===== *)
theory WebFolders
  imports Folders
begin

text \<open>
  Folders in the web client: \<open>addNewMailboxFolder\<close> and \<open>deleteMailboxFolder\<close> of
  \<open>apps/web/lib/actions/mailbox.ts\<close>, on the tables of theory \<open>Folders\<close>. For an IMAP account they queue a job
  and wait for it; the worker (\<open>server/plugins/smtp-worker.ts\<close>) runs it up to three times, each time with the
  server as it is then. For other accounts they change the tables themselves.

  The foreign keys of the tables cascade: deleting a folder deletes its subfolders and the rows of
  \<open>mailbox_sync\<close> of all of them. Redirection and the cache of rendered pages are left out.
\<close>

subsection \<open>Jobs that are tried again\<close>

fun run_attempts :: "('s \<Rightarrow> 's \<times> ('e + 'a)) list \<Rightarrow> 's \<Rightarrow> 's \<times> ('e + 'a) option" where
  "run_attempts [] st = (st, None)"
| "run_attempts (f # fs) st =
     (case f st of
        (st', Inr x) \<Rightarrow> (st', Some (Inr x))
      | (st', Inl e) \<Rightarrow> if fs = [] then (st', Some (Inl e)) else run_attempts fs st')"

text \<open>Nothing is done when the account has no connection, and the job still counts as done.\<close>

definition with_client :: "('c \<Rightarrow> 's \<Rightarrow> 's \<times> ('e + 'a)) \<Rightarrow> 'c option \<Rightarrow> 's \<Rightarrow> 's \<times> ('e + 'a option)" where
  "with_client f client st =
     (case client of
        None \<Rightarrow> (st, Inr None)
      | Some c \<Rightarrow> (case f c st of (st', Inr x) \<Rightarrow> (st', Inr (Some x)) | (st', Inl e) \<Rightarrow> (st', Inl e)))"

datatype form_result = FormDone | FormFailed string | FormThrown

definition job_result :: "('e + 'a) option \<Rightarrow> form_result" where
  "job_result r = (case r of Some (Inl e) \<Rightarrow> FormThrown | _ \<Rightarrow> FormDone)"

subsection \<open>Creating a folder\<close>

record folder_form =
  ff_name :: "string option"
  ff_parentId :: "string option"
  ff_identityId :: "string option"
  ff_imapOp :: "string option"

definition isImapOp :: "folder_form \<Rightarrow> bool" where
  "isImapOp form \<longleftrightarrow> trim (nullish (ff_imapOp form) ''undefined'') \<noteq> []"

definition form_folder :: "string option \<Rightarrow> folder_form \<Rightarrow> new_folder" where
  "form_folder user form =
     \<lparr>nf_name = ff_name form, nf_parentId = ff_parentId form, nf_identityId = nullish (ff_identityId form) [],
      nf_ownerId = nullish user [], nf_kind = Some ''custom''\<rparr>"

definition form_parent :: "folder_form \<Rightarrow> string option" where
  "form_parent form = (case ff_parentId form of Some p \<Rightarrow> if p \<noteq> [] \<and> p \<noteq> ''none'' then Some p else None | None \<Rightarrow> None)"

definition local_row :: "folder_env \<Rightarrow> string \<Rightarrow> string \<Rightarrow> string option \<Rightarrow> string \<Rightarrow> folders \<Rightarrow> folder_row" where
  "local_row env ownerId identityId parentId name st =
     \<lparr>fo_id = fe_fresh env (fs_next st), fo_ownerId = ownerId, fo_identityId = identityId, fo_parentId = parentId,
      fo_kind = ''custom'', fo_name = name, fo_slug = Some (fe_slugify env (toLowerCase name)), fo_isDefault = False, fo_imap = None\<rparr>"

definition parent_valid :: "string option \<Rightarrow> string \<Rightarrow> folders \<Rightarrow> bool" where
  "parent_valid parentId identityId st =
     (case parentId of
        None \<Rightarrow> True
      | Some p \<Rightarrow> (case find (\<lambda>r. fo_id r = p) (fs_rows st) of None \<Rightarrow> False | Some r \<Rightarrow> fo_identityId r = identityId))"

text \<open>A local folder needs a user: the owner column takes no empty text.\<close>

definition add_local :: "folder_env \<Rightarrow> string option \<Rightarrow> folder_form \<Rightarrow> folders \<Rightarrow> folders \<times> form_result" where
  "add_local env user form st =
     (let name = trim (nullish (ff_name form) []); identityId = nullish (ff_identityId form) ''undefined'';
          parentId = form_parent form
      in if name = [] then (st, FormFailed ''Folder name is required'')
         else if \<not> parent_valid parentId identityId st then (st, FormFailed ''Invalid parent folder'')
         else case user of
           None \<Rightarrow> (st, FormThrown)
         | Some u \<Rightarrow> (case insert_folder (local_row env u identityId parentId name st) st of
                          Inl e \<Rightarrow> (st, FormThrown) | Inr st' \<Rightarrow> (st', FormDone)))"

definition addNewMailboxFolder ::
  "folder_env \<Rightarrow> (folder_env \<times> (string \<Rightarrow> create_outcome)) option list \<Rightarrow> date \<Rightarrow> string option \<Rightarrow> folder_form \<Rightarrow> folders
     \<Rightarrow> folders \<times> form_result" where
  "addNewMailboxFolder env clients now user form st =
     (if isImapOp form
      then (case run_attempts (map (with_client (\<lambda>(e, create). addNewFolder e create now (form_folder user form))) clients) st of
              (st', r) \<Rightarrow> (st', job_result r))
      else add_local env user form st)"

subsection \<open>Deleting a folder\<close>

text \<open>Rows with one of the ids go, and with them the rows below them.\<close>

definition child_ids :: "string list \<Rightarrow> folder_row list \<Rightarrow> string list" where
  "child_ids ids rows = map fo_id (filter (\<lambda>r. case fo_parentId r of None \<Rightarrow> False | Some p \<Rightarrow> p \<in> set ids) rows)"

function remove_tree :: "string list \<Rightarrow> folder_row list \<Rightarrow> folder_row list" where
  "remove_tree ids rows =
     (let kids = filter (\<lambda>i. i \<notin> set ids) (child_ids ids rows)
      in if kids = [] then filter (\<lambda>r. fo_id r \<notin> set ids) rows else remove_tree (ids @ kids) rows)"
  by pat_completeness auto

termination
proof (relation "measure (\<lambda>(ids, rows). length (filter (\<lambda>r. fo_id r \<notin> set ids) rows))", goal_cases)
  case (2 ids rows kids)
  have sub: "set kids \<subseteq> {i \<in> fo_id ` set rows. i \<notin> set ids}" unfolding 2(1) child_ids_def by auto
  obtain i where "i \<in> set kids" using 2(2) by (cases kids) auto
  then have i: "i \<in> set kids" "i \<notin> set ids" "i \<in> fo_id ` set rows" using sub by auto
  then obtain r where r: "r \<in> set rows" "fo_id r = i" by auto
  then have "r \<in> set (filter (\<lambda>r. fo_id r \<notin> set ids) rows)" "\<not> fo_id r \<notin> set kids" using i by simp_all
  then have "length (filter (\<lambda>r. fo_id r \<notin> set kids) (filter (\<lambda>r. fo_id r \<notin> set ids) rows)) < length (filter (\<lambda>r. fo_id r \<notin> set ids) rows)"
    by (rule length_filter_less)
  then have "length (filter (\<lambda>r. fo_id r \<notin> set (ids @ kids)) rows) < length (filter (\<lambda>r. fo_id r \<notin> set ids) rows)"
    by (simp add: conj_commute)
  then show ?case by simp
qed simp

definition delete_folders :: "string list \<Rightarrow> folders \<Rightarrow> folders" where
  "delete_folders ids st =
     (let rows = remove_tree ids (fs_rows st)
      in st\<lparr>fs_rows := rows, fs_sync := filter (\<lambda>y. sy_mailboxId y \<in> set (map fo_id rows)) (fs_sync st)\<rparr>)"

definition delete_local :: "string \<Rightarrow> folders \<Rightarrow> folders \<times> form_result" where
  "delete_local mailboxId st =
     (case find (\<lambda>r. fo_id r = mailboxId) (fs_rows st) of
        None \<Rightarrow> (st, FormFailed ''Folder not found'')
      | Some mbx \<Rightarrow>
          if fo_isDefault mbx then (st, FormFailed ''Cannot delete a default folder'')
          else let st1 = delete_folders (child_ids [mailboxId] (fs_rows st)) st;
                   st2 = st1\<lparr>fs_sync := filter (\<lambda>y. sy_mailboxId y \<noteq> mailboxId) (fs_sync st1)\<rparr>
               in (delete_folders [mailboxId] st2, FormDone))"

text \<open>\<open>identities\<close> gives the id of an account with a public id, \<open>clients\<close> what the server answers to each attempt.\<close>

definition deleteMailboxFolder ::
  "(string \<rightharpoonup> string) \<Rightarrow> (string \<Rightarrow> bool) option list \<Rightarrow> bool \<Rightarrow> string \<Rightarrow> string \<Rightarrow> folders \<Rightarrow> folders \<times> form_result" where
  "deleteMailboxFolder identities clients imapOp identityPublicId mailboxId st =
     (if \<not> imapOp then delete_local mailboxId st
      else case identities identityPublicId of
        None \<Rightarrow> (st, FormThrown)
      | Some identityId \<Rightarrow>
          (case run_attempts (map (with_client (\<lambda>deleted. deleteFolder deleted mailboxId identityId)) clients) st of
             (st', r) \<Rightarrow> (st', job_result r)))"

subsection \<open>Lemmas: what lies below a folder\<close>

inductive under :: "folder_row list \<Rightarrow> string \<Rightarrow> string \<Rightarrow> bool" for rows i where
  self: "under rows i i"
| child: "under rows i q \<Longrightarrow> r \<in> set rows \<Longrightarrow> fo_parentId r = Some q \<Longrightarrow> under rows i (fo_id r)"

lemma under_trans: "under rows j x \<Longrightarrow> under rows i j \<Longrightarrow> under rows i x"
  by (induction rule: under.induct) (auto intro: under.child)

lemma under_cases_first:
  "under rows i x \<Longrightarrow> x = i \<or> (\<exists>c \<in> set (child_ids [i] rows). under rows c x)"
proof (induction rule: under.induct)
  case (child q r)
  show ?case
  proof (cases "q = i")
    case True
    then have "fo_id r \<in> set (child_ids [i] rows)" using child.hyps by (auto simp: child_ids_def intro!: image_eqI [of _ _ r])
    then show ?thesis using under.self by blast
  next
    case False
    then show ?thesis using child under.child by blast
  qed
qed simp

lemma no_children: "(\<And>r. r \<in> set rows \<Longrightarrow> fo_parentId r \<noteq> Some i) \<Longrightarrow> child_ids [i] rows = []"
  by (auto simp: child_ids_def filter_empty_conv split: option.split)

lemma child_under: "c \<in> set (child_ids ids rows) \<Longrightarrow> \<exists>i \<in> set ids. under rows i c"
  by (auto simp: child_ids_def split: option.splits intro: under.child [OF under.self])

lemma remove_tree_under: "remove_tree ids rows = filter (\<lambda>r. \<not> (\<exists>i \<in> set ids. under rows i (fo_id r))) rows"
proof (induction ids rows rule: remove_tree.induct)
  case (1 ids rows)
  define kids where "kids = filter (\<lambda>i. i \<notin> set ids) (child_ids ids rows)"
  show ?case
  proof (cases "kids = []")
    case True
    have "x \<in> set ids" if "under rows i x" "i \<in> set ids" for i x
      using that
    proof (induction rule: under.induct)
      case (child q r)
      then have "fo_id r \<in> set (child_ids ids rows)" by (auto simp: child_ids_def intro!: image_eqI [of _ _ r])
      then show ?case using True by (auto simp: kids_def filter_empty_conv)
    qed
    then have all: "(\<exists>i \<in> set ids. under rows i (fo_id r)) \<longleftrightarrow> fo_id r \<in> set ids" for r using under.self by blast
    have "filter (\<lambda>r. \<not> (\<exists>i \<in> set ids. under rows i (fo_id r))) rows = filter (\<lambda>r. fo_id r \<notin> set ids) rows"
      unfolding all ..
    then show ?thesis using True by (subst remove_tree.simps) (simp only: kids_def Let_def simp_thms if_True)
  next
    case False
    have "(\<exists>i \<in> set (ids @ kids). under rows i x) \<longleftrightarrow> (\<exists>i \<in> set ids. under rows i x)" for x
    proof -
      have "\<exists>i \<in> set ids. under rows i k" if "k \<in> set kids" for k
        using that child_under [of k ids rows] by (simp add: kids_def)
      then show ?thesis using under_trans by fastforce
    qed
    moreover have "remove_tree (ids @ kids) rows = filter (\<lambda>r. \<not> (\<exists>i \<in> set (ids @ kids). under rows i (fo_id r))) rows"
      by (rule 1 [OF kids_def False])
    moreover have "remove_tree ids rows = remove_tree (ids @ kids) rows"
      using False by (subst remove_tree.simps) (simp add: kids_def Let_def)
    ultimately show ?thesis by simp
  qed
qed

declare remove_tree.simps [simp del]

lemma delete_folders_ok:
  assumes "folder_ok env st"
  shows "folder_ok env (delete_folders ids st)"
proof -
  let ?gone = "\<lambda>x. \<exists>i \<in> set ids. under (fs_rows st) i x"
  have rows: "fs_rows (delete_folders ids st) = filter (\<lambda>r. \<not> ?gone (fo_id r)) (fs_rows st)"
    by (simp add: delete_folders_def Let_def remove_tree_under)
  have ids: "folder_ids (delete_folders ids st) = filter (\<lambda>x. \<not> ?gone x) (folder_ids st)"
    by (simp add: folder_ids_def rows filter_map comp_def)
  have par: "p \<in> set (folder_ids (delete_folders ids st))" if "r \<in> set (fs_rows (delete_folders ids st))" "fo_parentId r = Some p" for r p
  proof -
    have r: "r \<in> set (fs_rows st)" "\<not> ?gone (fo_id r)" using that(1) by (auto simp: rows)
    then have "\<not> ?gone p" using that(2) under.child by blast
    then show ?thesis using assms r(1) that(2) unfolding ids by (simp add: folder_ok_def)
  qed
  have "indexes_hold (fs_rows (delete_folders ids st))" using assms unfolding rows by (simp add: folder_ok_def indexes_hold_filter)
  moreover have "fs_sync (delete_folders ids st) = filter (\<lambda>y. sy_mailboxId y \<in> set (folder_ids (delete_folders ids st))) (fs_sync st)"
    by (simp add: delete_folders_def Let_def folder_ids_def)
  moreover have "fs_next (delete_folders ids st) = fs_next st" by (simp add: delete_folders_def Let_def)
  moreover have "distinct (folder_ids (delete_folders ids st))" using assms by (simp add: ids folder_ok_def)
  moreover have "set (folder_ids (delete_folders ids st)) \<subseteq> set (folder_ids st)" by (simp add: ids)
  ultimately show ?thesis using assms par by (auto simp: folder_ok_def distinct_map_filter)
qed

lemma drop_sync_ok: "folder_ok env st \<Longrightarrow> folder_ok env (st\<lparr>fs_sync := filter P (fs_sync st)\<rparr>)"
  by (auto simp: folder_ok_def folder_ids_def distinct_map_filter)

text \<open>Deleting the subfolders first and then the folder deletes all that is below it.\<close>

lemma delete_local_rows:
  assumes "delete_local i st = (st', FormDone)"
  shows "fs_rows st' = filter (\<lambda>r. \<not> under (fs_rows st) i (fo_id r)) (fs_rows st)"
    "fs_sync st' = filter (\<lambda>y. sy_mailboxId y \<in> set (folder_ids st')) (filter (\<lambda>y. sy_mailboxId y \<noteq> i)
       (filter (\<lambda>y. sy_mailboxId y \<in> set (folder_ids (delete_folders (child_ids [i] (fs_rows st)) st))) (fs_sync st)))"
proof -
  let ?c = "child_ids [i] (fs_rows st)" and ?u = "under (fs_rows st)"
  let ?rows1 = "filter (\<lambda>r. \<not> (\<exists>c \<in> set ?c. ?u c (fo_id r))) (fs_rows st)"
  have st': "st' = delete_folders [i] ((delete_folders ?c st)\<lparr>fs_sync := filter (\<lambda>y. sy_mailboxId y \<noteq> i) (fs_sync (delete_folders ?c st))\<rparr>)"
    using assms by (auto simp: delete_local_def Let_def split: option.splits if_splits)
  have "fo_parentId r \<noteq> Some i" if "r \<in> set ?rows1" for r
  proof
    assume "fo_parentId r = Some i"
    then have "fo_id r \<in> set ?c" using that by (auto simp: child_ids_def intro!: image_eqI [of _ _ r])
    then show False using that under.self by auto
  qed
  then have none: "child_ids [i] ?rows1 = []" by (rule no_children)
  have low: "under ?rows1 i x \<longleftrightarrow> x = i" for x
  proof
    assume "under ?rows1 i x"
    then have "x = i \<or> (\<exists>c \<in> set (child_ids [i] ?rows1). under ?rows1 c x)" by (rule under_cases_first)
    then show "x = i" unfolding none by simp
  qed (simp add: under.self)
  have high: "?u i x \<longleftrightarrow> x = i \<or> (\<exists>c \<in> set ?c. ?u c x)" for x
  proof
    show "?u i x \<Longrightarrow> x = i \<or> (\<exists>c \<in> set ?c. ?u c x)" by (rule under_cases_first)
    have "?u i c" if "c \<in> set ?c" for c using child_under [OF that] by simp
    then show "x = i \<or> (\<exists>c \<in> set ?c. ?u c x) \<Longrightarrow> ?u i x" using under.self under_trans by blast
  qed
  show "fs_rows st' = filter (\<lambda>r. \<not> ?u i (fo_id r)) (fs_rows st)"
  proof -
    have "fs_rows st' = filter (\<lambda>r. \<not> under ?rows1 i (fo_id r)) ?rows1"
      by (simp add: st' delete_folders_def Let_def remove_tree_under)
    also have "\<dots> = filter (\<lambda>r. \<not> (\<exists>c \<in> set ?c. ?u c (fo_id r)) \<and> fo_id r \<noteq> i) (fs_rows st)" unfolding low filter_filter ..
    also have "\<dots> = filter (\<lambda>r. \<not> ?u i (fo_id r)) (fs_rows st)" unfolding high by (rule filter_cong) blast+
    finally show ?thesis .
  qed
  show "fs_sync st' = filter (\<lambda>y. sy_mailboxId y \<in> set (folder_ids st')) (filter (\<lambda>y. sy_mailboxId y \<noteq> i)
       (filter (\<lambda>y. sy_mailboxId y \<in> set (folder_ids (delete_folders ?c st))) (fs_sync st)))"
    by (simp add: st' delete_folders_def [of "[i]"] delete_folders_def [of ?c] folder_ids_def Let_def)
qed

subsection \<open>Lemmas: attempts\<close>

text \<open>When a failed attempt changes nothing, the attempts act as the last one that was made.\<close>

lemma run_attempts_one:
  assumes "run_attempts fs st = (st', r)" "\<And>f e s. f \<in> set fs \<Longrightarrow> f st = (s, Inl e) \<Longrightarrow> s = st"
  shows "(fs = [] \<and> st' = st \<and> r = None) \<or> (\<exists>f \<in> set fs. \<exists>x. f st = (st', x) \<and> r = Some x)"
  using assms
proof (induction fs)
  case (Cons f fs)
  obtain s x where f: "f st = (s, x)" by fastforce
  show ?case
  proof (cases x)
    case (Inr y)
    then show ?thesis using Cons.prems(1) f by auto
  next
    case (Inl e)
    then have s: "s = st" using Cons.prems(2) [of f s e] f by simp
    show ?thesis
    proof (cases "fs = []")
      case True
      then show ?thesis using Cons.prems(1) f Inl by auto
    next
      case False
      then have "run_attempts fs st = (st', r)" using Cons.prems(1) f Inl s by simp
      from Cons.IH [OF this] Cons.prems(2) False show ?thesis by auto
    qed
  qed
qed simp

lemma folder_ok_fresh: "fe_fresh e = fe_fresh env \<Longrightarrow> folder_ok e st = folder_ok env st"
  by (simp add: folder_ok_def)

lemma add_local_result:
  assumes "folder_ok env st" "add_local env user form st = (st', res)"
  shows "folder_ok env st' \<and> (if res = FormDone
    then \<exists>r. fs_rows st' = fs_rows st @ [r] \<and> fs_sync st' = fs_sync st \<and> Some (fo_ownerId r) = user
           \<and> (\<forall>p. fo_parentId r = Some p \<longrightarrow> (\<exists>q \<in> set (fs_rows st). fo_id q = p \<and> fo_identityId q = fo_identityId r))
    else st' = st)"
proof (cases "res = FormDone")
  case False
  then show ?thesis using assms by (auto simp: add_local_def Let_def split: if_splits option.splits sum.splits)
next
  case True
  define name where "name = trim (nullish (ff_name form) [])"
  define i where "i = nullish (ff_identityId form) ''undefined''"
  obtain u where u: "user = Some u" "parent_valid (form_parent form) i st"
    "insert_folder (local_row env u i (form_parent form) name st) st = Inr st'"
    using assms(2) True by (auto simp: add_local_def Let_def name_def i_def split: if_splits option.splits sum.splits)
  let ?r = "local_row env u i (form_parent form) name st"
  have par: "\<exists>q \<in> set (fs_rows st). fo_id q = p \<and> fo_identityId q = i" if "fo_parentId ?r = Some p" for p
    using u(2) that by (auto simp: local_row_def parent_valid_def dest: find_mem split: option.splits)
  have "p \<in> set (folder_ids st)" if "fo_parentId ?r = Some p" for p using par [OF that] by (auto simp: folder_ids_def)
  note g = insert_folder_grows [OF u(3) _ this]
  have "fo_id ?r = fe_fresh env (fs_next st)" "fo_identityId ?r = i" "fo_ownerId ?r = u" by (simp_all add: local_row_def)
  then show ?thesis using g assms(1) par u(1) True by (auto simp: grows_def)
qed

subsection \<open>Properties\<close>

text \<open>
  C37. Creating a folder from the web client keeps the tables well formed, however the server answers the up to
  three attempts of the job: at most one folder is added, and none when the action fails. A folder of an
  account without IMAP belongs to the user and lies below a folder of the same account.\<close>

theorem addNewMailboxFolder_correct:
  assumes "folder_ok env st" "addNewMailboxFolder env clients now user form st = (st', res)"
    "\<And>e create. Some (e, create) \<in> set clients \<Longrightarrow> fe_fresh e = fe_fresh env"
  shows "folder_ok env st' \<and> (folder_ids st' = folder_ids st \<or> (\<exists>i. folder_ids st' = folder_ids st @ [i]))
    \<and> (res \<noteq> FormDone \<longrightarrow> st' = st)
    \<and> (\<not> isImapOp form \<and> res = FormDone \<longrightarrow> (\<exists>r. fs_rows st' = fs_rows st @ [r] \<and> Some (fo_ownerId r) = user
         \<and> (\<forall>p. fo_parentId r = Some p \<longrightarrow> (\<exists>q \<in> set (fs_rows st). fo_id q = p \<and> fo_identityId q = fo_identityId r))))"
proof (cases "isImapOp form")
  case False
  then have "add_local env user form st = (st', res)" using assms(2) by (simp add: addNewMailboxFolder_def)
  from add_local_result [OF assms(1) this] show ?thesis using False by (auto simp: folder_ids_def split: if_splits)
next
  case True
  let ?f = "with_client (\<lambda>(e, create). addNewFolder e create now (form_folder user form))"
  obtain r where run: "run_attempts (map ?f clients) st = (st', r)" "res = job_result r"
    using assms(2) True by (auto simp: addNewMailboxFolder_def split: prod.splits)
  have one: "folder_ok env s \<and> (case x of Inl e \<Rightarrow> s = st
      | Inr _ \<Rightarrow> folder_ids s = folder_ids st \<or> (\<exists>i. folder_ids s = folder_ids st @ [i]))"
    if "c \<in> set clients" "?f c st = (s, x)" for c s x
  proof (cases c)
    case None
    then show ?thesis using that(2) assms(1) by (auto simp: with_client_def)
  next
    case (Some ec)
    obtain e create where ec: "ec = (e, create)" by fastforce
    have fr: "fe_fresh e = fe_fresh env" using assms(3) that(1) Some ec by blast
    obtain s1 x1 where a: "addNewFolder e create now (form_folder user form) st = (s1, x1)" by fastforce
    have "folder_ok e st" using assms(1) folder_ok_fresh [OF fr] by simp
    from addNewFolder_result [OF this a] have "folder_ok env s1" "case x1 of Inl e \<Rightarrow> s1 = st | Inr i \<Rightarrow> folder_ids s1 = folder_ids st @ [i]"
      using folder_ok_fresh [OF fr] by (auto split: sum.splits)
    then show ?thesis using that(2) Some ec a by (auto simp: with_client_def split: sum.splits)
  qed
  have "(map ?f clients = [] \<and> st' = st \<and> r = None) \<or> (\<exists>f \<in> set (map ?f clients). \<exists>x. f st = (st', x) \<and> r = Some x)"
    by (rule run_attempts_one [OF run(1)]) (use one in \<open>fastforce split: sum.splits\<close>)
  then consider "st' = st" "r = None" | c x where "c \<in> set clients" "?f c st = (st', x)" "r = Some x"
    by (auto simp del: split_paired_Ex)
  then show ?thesis
  proof cases
    case 1
    then show ?thesis using assms(1) True by simp
  next
    case 2
    then show ?thesis using one [OF 2(1,2)] True run(2) by (auto simp: job_result_def split: sum.splits)
  qed
qed

definition sample_form :: "string option \<Rightarrow> folder_form" where
  "sample_form op = \<lparr>ff_name = Some ''New'', ff_parentId = None, ff_identityId = Some ''i'', ff_imapOp = op\<rparr>"

theorem addNewMailboxFolder_correct_witness:
  "\<exists>st'. addNewMailboxFolder (sample_folder_env []) [] 7 (Some ''o'') (sample_form (Some [])) no_folders = (st', FormDone)
     \<and> folder_ok (sample_folder_env []) st' \<and> folder_ids st' = [''x'']"
proof -
  let ?r = "addNewMailboxFolder (sample_folder_env []) [] 7 (Some ''o'') (sample_form (Some [])) no_folders"
  obtain st' res where run: "?r = (st', res)" by fastforce
  have "snd ?r = FormDone" "folder_ids (fst ?r) = [''x'']" by code_simp+
  then show ?thesis using addNewMailboxFolder_correct [OF no_folders_ok run] run by (intro exI [of _ st']) simp
qed


definition sample_tree :: folders where
  "sample_tree = \<lparr>fs_rows = map (\<lambda>(i, p, d). \<lparr>fo_id = i, fo_ownerId = ''o'', fo_identityId = ''i'', fo_parentId = p, fo_kind = ''custom'',
       fo_name = i, fo_slug = Some i, fo_isDefault = d, fo_imap = None\<rparr>)
     [([], None, False), (''x'', Some [], False), (''xx'', Some ''x'', True), (''xxx'', None, False)], fs_sync = [], fs_next = 4\<rparr>"

text \<open>
  A default folder is protected from being deleted, but not from being below a folder that is deleted.\<close>

theorem default_subfolder_deleted:
  "map fo_isDefault (filter (\<lambda>r. fo_id r = ''xx'') (fs_rows sample_tree)) = [True]
   \<and> folder_ids (fst (deleteMailboxFolder Map.empty [] False ''i'' ''x'' sample_tree)) = [[], ''xxx'']"
  by code_simp


text \<open>
  A form without the field \<open>imapOp\<close> is taken for one of an IMAP account, since the missing field becomes the
  text \<open>undefined\<close>; and without a connection nothing is created although the action reports success.\<close>

theorem folder_not_created:
  "isImapOp (sample_form None) \<and> addNewMailboxFolder env [None] now user (sample_form None) st = (st, FormDone)"
proof
  show i: "isImapOp (sample_form None)" by code_simp
  show "addNewMailboxFolder env [None] now user (sample_form None) st = (st, FormDone)"
    by (simp add: addNewMailboxFolder_def i with_client_def job_result_def)
qed

end
