(* ===== verification/SmtpRouter.thy ===== *)
theory SmtpRouter
  imports Prelude
begin

text \<open>
  \<open>apps/worker/lib/smtp/router.ts\<close>: the choice of the outgoing channel. A message goes through the
  relay if some recipient is at a mainland-China provider, and is delivered directly otherwise.
\<close>

datatype smtp_channel = Sendcloud | Stalwart

record route_result =
  rt_channel :: smtp_channel
  rt_host :: string
  rt_port :: nat
  rt_secure :: bool
  rt_requiresAuth :: bool

record stalwart_config =
  sw_host :: string
  sw_port :: nat
  sw_secure :: bool

record sendcloud_config =
  sc_host :: string
  sc_port :: nat
  sc_secure :: bool
  sc_apiUser :: string
  sc_apiKey :: string

record router_config =
  rc_stalwart :: "stalwart_config option"
  rc_sendcloud :: "sendcloud_config option"

definition CHINA_DOMAINS :: "string list" where
  "CHINA_DOMAINS = [''qq.com'', ''foxmail.com'', ''vip.qq.com'', ''163.com'', ''126.com'', ''yeah.net'', ''188.com'',
     ''vip.163.com'', ''vip.126.com'', ''sina.com'', ''sina.cn'', ''sohu.com'', ''aliyun.com'', ''alimail.com'',
     ''mxhichina.com'', ''exmail.qq.com'', ''139.com'', ''wo.cn'', ''189.cn'', ''tom.com'', ''21cn.com'']"

definition DEFAULT_STALWART :: stalwart_config where
  "DEFAULT_STALWART = \<lparr>sw_host = ''stalwart.mail.svc.cluster.local'', sw_port = 587, sw_secure = False\<rparr>"

definition DEFAULT_SENDCLOUD :: sendcloud_config where
  "DEFAULT_SENDCLOUD = \<lparr>sc_host = ''smtp.sendcloud.net'', sc_port = 587, sc_secure = False, sc_apiUser = [], sc_apiKey = []\<rparr>"

definition extractDomain :: "string \<Rightarrow> string" where
  "extractDomain email =
     (case last_index_of (CHR ''@'') email of
        None \<Rightarrow> []
      | Some atIndex \<Rightarrow> trim (toLowerCase (drop (atIndex + 1) email)))"

definition isChinaDomain :: "string \<Rightarrow> bool" where
  "isChinaDomain domain \<longleftrightarrow> toLowerCase domain \<in> set CHINA_DOMAINS"

definition routeEmail :: "string list \<Rightarrow> router_config option \<Rightarrow> route_result" where
  "routeEmail recipients config =
     (let stalwartCfg = nullish (Option.bind config rc_stalwart) DEFAULT_STALWART;
          sendcloudCfg = nullish (Option.bind config rc_sendcloud) DEFAULT_SENDCLOUD;
          hasChinaRecipient = list_ex (\<lambda>r. isChinaDomain (extractDomain r)) recipients
      in if hasChinaRecipient
         then \<lparr>rt_channel = Sendcloud, rt_host = sc_host sendcloudCfg, rt_port = sc_port sendcloudCfg,
                rt_secure = sc_secure sendcloudCfg, rt_requiresAuth = True\<rparr>
         else \<lparr>rt_channel = Stalwart, rt_host = sw_host stalwartCfg, rt_port = sw_port stalwartCfg,
                rt_secure = sw_secure stalwartCfg, rt_requiresAuth = True\<rparr>)"

fun classify_loop :: "string list \<Rightarrow> string list \<times> string list \<Rightarrow> string list \<times> string list" where
  "classify_loop [] acc = acc"
| "classify_loop (r # rs) (china, international) =
     (if isChinaDomain (extractDomain r) then classify_loop rs (china @ [r], international)
      else classify_loop rs (china, international @ [r]))"

definition classifyRecipients :: "string list \<Rightarrow> string list \<times> string list" where
  "classifyRecipients recipients = classify_loop recipients ([], [])"

subsection \<open>Lemmas\<close>

lemma classify_loop_filter:
  "classify_loop rs (c, i) =
     (c @ filter (\<lambda>r. isChinaDomain (extractDomain r)) rs, i @ filter (\<lambda>r. \<not> isChinaDomain (extractDomain r)) rs)"
  by (induction rs arbitrary: c i) auto

lemma extractDomain_at: "CHR ''@'' \<notin> set d \<Longrightarrow> extractDomain (l @ CHR ''@'' # d) = trim (toLowerCase d)"
  by (simp add: extractDomain_def last_index_of_append)

lemma extractDomain_none: "CHR ''@'' \<notin> set s \<Longrightarrow> extractDomain s = []"
  unfolding last_index_of_None [symmetric] by (simp only: extractDomain_def option.case)

lemma extractDomain_lower: "toLowerCase (extractDomain s) = extractDomain s"
  by (simp add: extractDomain_def toLowerCase_trim split: option.split)

subsection \<open>Properties\<close>

text \<open>
  A message is routed through the relay exactly when the classification finds a recipient at a
  mainland-China provider, whatever the configuration; the two groups of the classification keep
  the order of the recipients, and together they are the recipients, each in exactly one group.
\<close>

theorem routeEmail_classify:
  "(rt_channel (routeEmail recipients config) = Sendcloud) = (fst (classifyRecipients recipients) \<noteq> [])
   \<and> mset (fst (classifyRecipients recipients)) + mset (snd (classifyRecipients recipients)) = mset recipients
   \<and> fst (classifyRecipients recipients) = filter (\<lambda>r. isChinaDomain (extractDomain r)) recipients
   \<and> snd (classifyRecipients recipients) = filter (\<lambda>r. \<not> isChinaDomain (extractDomain r)) recipients
   \<and> rt_requiresAuth (routeEmail recipients config)"
  by (simp add: routeEmail_def classifyRecipients_def classify_loop_filter Let_def list_ex_iff filter_empty_conv)

text \<open>
  The channel depends on the domain after the last at-sign only, in any letter case and with
  white space around it; an address without an at-sign never selects the relay.
\<close>

theorem isChinaDomain_of_address:
  "CHR ''@'' \<notin> set d \<Longrightarrow>
   isChinaDomain (extractDomain (l @ CHR ''@'' # d)) = (trim (toLowerCase d) \<in> set CHINA_DOMAINS)
   \<and> isChinaDomain (extractDomain d) = False"
proof -
  assume d: "CHR ''@'' \<notin> set d"
  have "[] \<notin> set CHINA_DOMAINS" by (simp add: CHINA_DOMAINS_def)
  then show ?thesis using d
    by (simp add: isChinaDomain_def extractDomain_lower) (simp add: extractDomain_at extractDomain_none)
qed

theorem isChinaDomain_of_address_witness:
  "isChinaDomain (extractDomain ''a@b@ QQ.com '') = True"
  using isChinaDomain_of_address [of "'' QQ.com ''" "''a@b''"] by (simp, code_simp)

end
