(* ===== verification/JsDate.thy ===== *)
theory JsDate
  imports Prelude
begin

text \<open>
  The part of the language's \<open>Date\<close> that the code uses: the proleptic Gregorian calendar on day
  numbers (day 0 is 1 January 1970), the two-way conversion between day numbers and calendar
  dates, and the local components of a time value. The two functions \<open>LocalTime\<close> and \<open>UTC\<close> of the
  language specification, which depend on the time zone of the host, are a parameter.
\<close>

datatype js_date = InvalidDate | ValidDate date

record time_zone =
  LocalTime :: "date \<Rightarrow> int"
  UTC :: "int \<Rightarrow> date"

definition fixed_zone :: "int \<Rightarrow> time_zone" where
  "fixed_zone off = \<lparr>LocalTime = (\<lambda>t. t + off), UTC = (\<lambda>t. t - off)\<rparr>"

definition msPerDay :: int where "msPerDay = 86400000"

subsection \<open>Years, months and days\<close>

definition leap_year :: "int \<Rightarrow> bool" where
  "leap_year y = (y mod 4 = 0 \<and> (y mod 100 \<noteq> 0 \<or> y mod 400 = 0))"

definition DayFromYear :: "int \<Rightarrow> int" where
  "DayFromYear y = 365 * (y - 1970) + (y - 1969) div 4 - (y - 1901) div 100 + (y - 1601) div 400"

definition YearFromDay :: "int \<Rightarrow> int" where
  "YearFromDay n =
     (let y = 1970 + (400 * n) div 146097
      in if DayFromYear (y + 1) \<le> n then y + 1 else if n < DayFromYear y then y - 1 else y)"

text \<open>Days of the year before month \<open>m\<close>, counted from 0.\<close>

definition days_before_month :: "bool \<Rightarrow> int \<Rightarrow> int" where
  "days_before_month leap m =
     (let l = (if leap then 1 else 0) in
      if m = 0 then 0 else if m = 1 then 31 else if m = 2 then 59 + l else if m = 3 then 90 + l
      else if m = 4 then 120 + l else if m = 5 then 151 + l else if m = 6 then 181 + l
      else if m = 7 then 212 + l else if m = 8 then 243 + l else if m = 9 then 273 + l
      else if m = 10 then 304 + l else if m = 11 then 334 + l else 365 + l)"

definition MonthFromDay :: "bool \<Rightarrow> int \<Rightarrow> int" where
  "MonthFromDay leap n =
     (let b = days_before_month leap in
      if n < b 1 then 0 else if n < b 2 then 1 else if n < b 3 then 2 else if n < b 4 then 3
      else if n < b 5 then 4 else if n < b 6 then 5 else if n < b 7 then 6 else if n < b 8 then 7
      else if n < b 9 then 8 else if n < b 10 then 9 else if n < b 11 then 10 else 11)"

definition MakeDay :: "int \<Rightarrow> int \<Rightarrow> int \<Rightarrow> int" where
  "MakeDay year month dt =
     (let ym = year + month div 12; mn = month mod 12
      in DayFromYear ym + days_before_month (leap_year ym) mn + dt - 1)"

text \<open>The year, the month counted from 0 and the day of the month of a day number.\<close>

definition civil_of_day :: "int \<Rightarrow> int \<times> int \<times> int" where
  "civil_of_day n =
     (let y = YearFromDay n; leap = leap_year y; d = n - DayFromYear y; m = MonthFromDay leap d
      in (y, m, d - days_before_month leap m + 1))"

definition days_in_month :: "int \<Rightarrow> int \<Rightarrow> int" where
  "days_in_month y m = days_before_month (leap_year y) (m + 1) - days_before_month (leap_year y) m"

subsection \<open>Date objects\<close>

definition new_Date :: "time_zone \<Rightarrow> int \<Rightarrow> int \<Rightarrow> int \<Rightarrow> date" where
  "new_Date tz year month dt =
     UTC tz (msPerDay * MakeDay (if 0 \<le> year \<and> year \<le> 99 then 1900 + year else year) month dt)"

definition local_civil :: "time_zone \<Rightarrow> date \<Rightarrow> int \<times> int \<times> int" where
  "local_civil tz t = civil_of_day (LocalTime tz t div msPerDay)"

definition getFullYear :: "time_zone \<Rightarrow> date \<Rightarrow> int" where
  "getFullYear tz t = fst (local_civil tz t)"

definition getMonth :: "time_zone \<Rightarrow> date \<Rightarrow> int" where
  "getMonth tz t = fst (snd (local_civil tz t))"

definition getDate :: "time_zone \<Rightarrow> date \<Rightarrow> int" where
  "getDate tz t = snd (snd (local_civil tz t))"

text \<open>\<open>new Date('YYYY-MM-DD')\<close>: a date-only string is read as midnight UTC.\<close>

definition new_Date_iso :: "string \<Rightarrow> js_date" where
  "new_Date_iso s =
     (let y = int (nat_of_digits (take 4 s)); m = int (nat_of_digits (take 2 (drop 5 s)));
          d = int (nat_of_digits (take 2 (drop 8 s)))
      in if 1 \<le> m \<and> m \<le> 12 \<and> 1 \<le> d \<and> d \<le> 31 then ValidDate (msPerDay * MakeDay y (m - 1) d)
         else InvalidDate)"

text \<open>The pattern \<open>/^\d{4}-\d{2}-\d{2}$/\<close>.\<close>

definition iso_date_shape :: "string \<Rightarrow> bool" where
  "iso_date_shape s =
     (length s = 10 \<and> list_all is_digit (take 4 s) \<and> s ! 4 = CHR ''-'' \<and> list_all is_digit (take 2 (drop 5 s))
      \<and> s ! 7 = CHR ''-'' \<and> list_all is_digit (drop 8 s))"

text \<open>\<open>t.setDate(dt)\<close>: the local day of the month is replaced, the local time of day kept.\<close>

definition setDate :: "time_zone \<Rightarrow> date \<Rightarrow> int \<Rightarrow> date" where
  "setDate tz t dt =
     (let l = LocalTime tz t; (y, m, _) = civil_of_day (l div msPerDay)
      in UTC tz (msPerDay * MakeDay y m dt + l mod msPerDay))"

text \<open>\<open>String(n).padStart(2, '0')\<close> and its four-digit variant.\<close>

definition padStart :: "nat \<Rightarrow> char \<Rightarrow> string \<Rightarrow> string" where
  "padStart n c s = replicate (n - length s) c @ s"

text \<open>\<open>t.toISOString().split('T')[0]\<close>: the date in UTC, with the six-digit form outside the years 0 to 9999.\<close>

definition iso_date :: "date \<Rightarrow> string" where
  "iso_date t =
     (let (y, m, d) = civil_of_day (t div msPerDay);
          pad = (\<lambda>n x. padStart n (CHR ''0'') (show_nat (nat x)))
      in (if 0 \<le> y \<and> y \<le> 9999 then pad 4 y else (if y < 0 then ''-'' else ''+'') @ pad 6 (abs y))
         @ ''-'' @ pad 2 (m + 1) @ ''-'' @ pad 2 d)"

subsection \<open>Lemmas\<close>

lemma month_cases:
  "0 \<le> m \<Longrightarrow> m \<le> 11 \<Longrightarrow> (m :: int) = 0 \<or> m = 1 \<or> m = 2 \<or> m = 3 \<or> m = 4 \<or> m = 5 \<or> m = 6
     \<or> m = 7 \<or> m = 8 \<or> m = 9 \<or> m = 10 \<or> m = 11"
  by arith

lemma div_bounds: "0 < k \<Longrightarrow> k * (x div k) \<le> (x :: int) \<and> x < k * (x div k) + k"
  using mult_div_mod_eq [of k x] pos_mod_bound [of k x] pos_mod_sign [of k x] by linarith

lemma div_succ: "0 < k \<Longrightarrow> (x + 1) div k = x div k + (if (x + 1) mod k = 0 then 1 else (0 :: int))"
proof -
  assume k: "0 < k"
  have x: "x + 1 = k * (x div k) + (x mod k + 1)" using mult_div_mod_eq [of k x] by linarith
  show ?thesis
  proof (cases "x mod k + 1 = k")
    case True
    then have "x + 1 = k * (x div k + 1)" using x by (simp add: algebra_simps)
    then show ?thesis using k by simp
  next
    case False
    then have r: "0 < x mod k + 1" "x mod k + 1 < k" using k pos_mod_bound [of k x] pos_mod_sign [of k x] by linarith+
    then have "(x + 1) div k = x div k" "(x + 1) mod k = x mod k + 1"
      using int_div_pos_eq [OF x] int_mod_pos_eq [OF x] by simp_all
    with r show ?thesis by simp
  qed
qed

lemma mod_succ: "0 < k \<Longrightarrow> (x + 1) mod k = (if x mod k = k - 1 then 0 else x mod k + (1 :: int))"
proof -
  assume k: "0 < k"
  have "x mod k \<noteq> k - 1 \<Longrightarrow> (x mod k + 1) mod k = x mod k + 1"
    using pos_mod_bound [OF k, of x] pos_mod_sign [OF k, of x] by (intro mod_pos_pos_trivial) linarith+
  then show ?thesis using mod_add_left_eq [of x k 1] by auto
qed

lemma DayFromYear_Suc: "DayFromYear (y + 1) = DayFromYear y + (if leap_year y then 366 else 365)"
proof -
  obtain A B C where abc: "(y - 1969) div 4 = A" "(y - 1901) div 100 = B" "(y - 1601) div 400 = C" by simp
  have "(y + 1 - 1969) div 4 = A + (if y mod 4 = 0 then 1 else 0)"
    using div_succ [of 4 "y - 1969"] mod_diff_right_eq [of y 1968 4] abc by simp
  moreover have "(y + 1 - 1901) div 100 = B + (if y mod 100 = 0 then 1 else 0)"
    using div_succ [of 100 "y - 1901"] mod_diff_right_eq [of y 1900 100] abc by simp
  moreover have "(y + 1 - 1601) div 400 = C + (if y mod 400 = 0 then 1 else 0)"
    using div_succ [of 400 "y - 1601"] mod_diff_right_eq [of y 1600 400] abc by simp
  ultimately have s: "DayFromYear (y + 1) = DayFromYear y + 365 + (if y mod 4 = 0 then 1 else 0)
      - (if y mod 100 = 0 then 1 else 0) + (if y mod 400 = 0 then 1 else 0)"
    by (simp only: DayFromYear_def abc) simp
  have "y mod 100 = 0 \<longrightarrow> y mod 4 = 0" "y mod 400 = 0 \<longrightarrow> y mod 100 = 0"
    using dvd_trans [of 4 100 y] dvd_trans [of 100 400 y] by (simp_all add: mod_eq_0_iff_dvd)
  then show ?thesis unfolding s leap_year_def
    by (cases "y mod 4 = 0"; cases "y mod 100 = 0"; cases "y mod 400 = 0") simp_all
qed

lemma DayFromYear_bounds:
  "146097 * (y - 1970) - 800 \<le> 400 * DayFromYear y \<and> 400 * DayFromYear y \<le> 146097 * (y - 1970) + 800"
  using div_bounds [of 4 "y - 1969"] div_bounds [of 100 "y - 1901"] div_bounds [of 400 "y - 1601"]
  unfolding DayFromYear_def by (intro conjI) simp_all

lemma DayFromYear_mono: "x \<le> y \<Longrightarrow> DayFromYear x \<le> DayFromYear y"
proof (induction "nat (y - x)" arbitrary: y)
  case (Suc n)
  then have "DayFromYear x \<le> DayFromYear (y - 1)" by simp
  also have "\<dots> \<le> DayFromYear y" using DayFromYear_Suc [of "y - 1"] by simp
  finally show ?case .
qed simp

lemma YearFromDay_between: "DayFromYear (YearFromDay n) \<le> n \<and> n < DayFromYear (YearFromDay n + 1)"
proof -
  let ?y = "1970 + (400 * n) div 146097"
  note d = div_bounds [of 146097 "400 * n", simplified]
  have "DayFromYear (?y - 1) \<le> n" using DayFromYear_bounds [of "?y - 1"] d by simp
  moreover have "n < DayFromYear (?y + 2)" using DayFromYear_bounds [of "?y + 2"] d by simp
  ultimately show ?thesis by (auto simp: YearFromDay_def Let_def algebra_simps)
qed

lemma YearFromDay_unique:
  assumes "DayFromYear y \<le> n" "n < DayFromYear (y + 1)"
  shows "YearFromDay n = y"
proof (rule ccontr)
  assume "YearFromDay n \<noteq> y"
  then consider "YearFromDay n + 1 \<le> y" | "y + 1 \<le> YearFromDay n" by linarith
  then show False
    by cases (use DayFromYear_mono YearFromDay_between [of n] assms in fastforce)+
qed

lemma MonthFromDay_unique:
  assumes "0 \<le> m" "m \<le> 11" "days_before_month leap m \<le> n" "n < days_before_month leap (m + 1)"
  shows "MonthFromDay leap n = m"
proof -
  show ?thesis using month_cases [OF assms(1,2)] assms(3,4)
    by (auto simp: MonthFromDay_def days_before_month_def Let_def split: if_splits)
qed

lemma days_before_month_range:
  assumes "0 \<le> m" "m \<le> 11"
  shows "0 \<le> days_before_month leap m" "days_before_month leap (m + 1) \<le> (if leap then 366 else 365)"
proof -
  show "0 \<le> days_before_month leap m" "days_before_month leap (m + 1) \<le> (if leap then 366 else 365)"
    using month_cases [OF assms] by (auto simp: days_before_month_def Let_def)
qed

text \<open>A calendar date is determined by its day number.\<close>

lemma civil_of_MakeDay:
  assumes "0 \<le> m" "m \<le> 11" "1 \<le> d" "d \<le> days_in_month y m"
  shows "civil_of_day (MakeDay y m d) = (y, m, d)"
proof -
  let ?b = "days_before_month (leap_year y)" and ?n = "MakeDay y m d"
  have n: "?n = DayFromYear y + ?b m + d - 1" using assms by (simp add: MakeDay_def)
  note r = days_before_month_range [OF assms(1,2), of "leap_year y"]
  have "DayFromYear y \<le> ?n" using assms r n by simp
  moreover have "?n < DayFromYear (y + 1)"
    using assms(4) r n DayFromYear_Suc [of y] by (simp add: days_in_month_def)
  ultimately have y: "YearFromDay ?n = y" by (rule YearFromDay_unique)
  have "MonthFromDay (leap_year y) (?n - DayFromYear y) = m"
    using assms n by (intro MonthFromDay_unique) (simp_all add: days_in_month_def)
  with y n show ?thesis by (simp add: civil_of_day_def Let_def)
qed

lemma civil_of_day_valid:
  "civil_of_day n = (y, m, d) \<Longrightarrow>
   0 \<le> m \<and> m \<le> 11 \<and> 1 \<le> d \<and> d \<le> days_in_month y m \<and> MakeDay y m d = n"
proof -
  assume c: "civil_of_day n = (y, m, d)"
  let ?l = "leap_year y" and ?k = "n - DayFromYear y"
  from c have y: "y = YearFromDay n" and m: "m = MonthFromDay ?l ?k" and d: "d = ?k - days_before_month ?l m + 1"
    by (auto simp: civil_of_day_def Let_def)
  have k: "0 \<le> ?k" "?k < (if ?l then 366 else 365)"
    using YearFromDay_between [of n] DayFromYear_Suc [of y] by (auto simp: y)
  have "days_before_month ?l m \<le> ?k \<and> ?k < days_before_month ?l (m + 1) \<and> 0 \<le> m \<and> m \<le> 11"
    using k by (cases ?l) (simp_all add: m MonthFromDay_def days_before_month_def Let_def)
  then show ?thesis by (simp add: d days_in_month_def MakeDay_def)
qed

end
