(* ===== verification/QueryParser.thy ===== *)
theory QueryParser
  imports JsValue JsDate
begin

text \<open>
  \<open>apps/web/lib/search/query-parser.ts\<close>: the search syntax of the mail client. A global pattern is a
  matcher that looks at one position, and \<open>scan\<close> applies it from left to right, as \<open>exec\<close> in a loop,
  \<open>replace\<close> and the highlighter do; every matcher here consumes at least one code unit. A size is
  computed in exact arithmetic. The clock and the time zone of the host are arguments.
\<close>

subsection \<open>Scanning\<close>

function scan :: "(string \<Rightarrow> ('m \<times> string) option) \<Rightarrow> string \<Rightarrow> (char + 'm) list" where
  "scan matcher [] = []"
| "scan matcher (c # s) =
     (case matcher (c # s) of
        Some (m, rest) \<Rightarrow> if length rest \<le> length s then Inr m # scan matcher rest else []
      | None \<Rightarrow> Inl c # scan matcher s)"
  by pat_completeness auto
termination by (relation "measure (\<lambda>(_, s). length s)") auto

text \<open>The matches, in order, and the text that \<open>replace(pattern, "")\<close> leaves.\<close>

definition matches_of :: "(char + 'm) list \<Rightarrow> 'm list" where
  "matches_of ts = concat (map (\<lambda>t. case t of Inl _ \<Rightarrow> [] | Inr m \<Rightarrow> [m]) ts)"

definition text_of :: "(char + 'm) list \<Rightarrow> string" where
  "text_of ts = concat (map (\<lambda>t. case t of Inl c \<Rightarrow> [c] | Inr _ \<Rightarrow> []) ts)"

text \<open>\<open>/"([^"]+)"/\<close> at the start of a string: the phrase and what follows it.\<close>

fun phrase_at :: "string \<Rightarrow> (string \<times> string) option" where
  "phrase_at (c # s) =
     (if c = dquote
      then let p = takeWhile (\<lambda>x. x \<noteq> dquote) s; r = dropWhile (\<lambda>x. x \<noteq> dquote) s
           in if p \<noteq> [] \<and> r \<noteq> [] then Some (p, tl r) else None
      else None)"
| "phrase_at [] = None"

record op_match =
  om_dash :: string
  om_word :: string
  om_value :: string

text \<open>
  \<open>/(-?)(\w+):(?:"([^"]+)"|(\S+))/\<close>. No shorter run of word characters can be followed by a colon and a
  dash is not a word character, so the pattern has one way to match at a position, up to the choice
  between the quoted and the plain value, which is tried in this order.
\<close>

definition op_at :: "string \<Rightarrow> (op_match \<times> string) option" where
  "op_at s =
     (let dash = (case s of [] \<Rightarrow> [] | c # _ \<Rightarrow> if c = CHR ''-'' then ''-'' else []);
          s1 = drop (length dash) s; word = takeWhile is_word_char s1; s2 = dropWhile is_word_char s1
      in if word = [] \<or> s2 = [] \<or> hd s2 \<noteq> CHR '':'' then None
         else case phrase_at (tl s2) of
                Some (p, rest) \<Rightarrow> Some (\<lparr>om_dash = dash, om_word = word, om_value = p\<rparr>, rest)
              | None \<Rightarrow>
                  (let v = takeWhile (\<lambda>c. \<not> is_ws c) (tl s2)
                   in if v = [] then None
                      else Some (\<lparr>om_dash = dash, om_word = word, om_value = v\<rparr>, dropWhile (\<lambda>c. \<not> is_ws c) (tl s2))))"

subsection \<open>Sizes and dates\<close>

definition SIZE_UNITS :: "(string \<times> nat) list" where
  "SIZE_UNITS = [(''b'', 1), (''kb'', 1024), (''k'', 1024), (''mb'', 1024 * 1024), (''m'', 1024 * 1024),
     (''gb'', 1024 * 1024 * 1024), (''g'', 1024 * 1024 * 1024)]"

text \<open>\<open>/^(\d+(?:\.\d+)?)\s*(b|kb?|mb?|gb?)?$/i\<close>, then \<open>Math.floor(num * multiplier)\<close>.\<close>

definition parseSize :: "string \<Rightarrow> nat option" where
  "parseSize value =
     (let whole = takeWhile is_digit value; s1 = dropWhile is_digit value;
          frac = (if s1 \<noteq> [] \<and> hd s1 = CHR ''.'' then takeWhile is_digit (tl s1) else []);
          s2 = (if frac = [] then s1 else dropWhile is_digit (tl s1));
          u = toLowerCase (dropWhile is_ws s2)
      in if whole = [] \<or> u \<notin> set ([] # map fst SIZE_UNITS) then None
         else let multiplier = nullish (map_of SIZE_UNITS (if u = [] then ''b'' else u)) 1
              in Some (nat_of_digits (whole @ frac) * multiplier div 10 ^ length frac))"

definition relative :: "(string \<times> int) list" where
  "relative = [(''today'', 0), (''yesterday'', 1), (''1d'', 1), (''7d'', 7), (''1w'', 7), (''30d'', 30), (''1m'', 30),
     (''90d'', 90), (''3m'', 90), (''1y'', 365)]"

definition slash_date :: "nat \<Rightarrow> nat \<Rightarrow> nat \<Rightarrow> string \<Rightarrow> bool" where
  "slash_date a b c s =
     (length s = a + b + c + 2 \<and> list_all is_digit (take a s) \<and> s ! a = CHR ''/'' \<and> list_all is_digit (take b (drop (a + 1) s))
      \<and> s ! (a + 1 + b) = CHR ''/'' \<and> list_all is_digit (drop (a + b + 2) s))"

definition digits_at :: "nat \<Rightarrow> nat \<Rightarrow> string \<Rightarrow> int" where
  "digits_at i n s = int (nat_of_digits (take n (drop i s)))"

text \<open>
  \<open>lower in relative\<close> also holds of the two inherited names in lower case; the day of the month
  minus such a value is not a number, and the date becomes invalid.
\<close>

definition parseDate :: "time_zone \<Rightarrow> date \<Rightarrow> string \<Rightarrow> js_date option" where
  "parseDate tz now value =
     (if iso_date_shape value \<or> slash_date 4 2 2 value
      then Some (ValidDate (new_Date tz (digits_at 0 4 value) (digits_at 5 2 value - 1) (digits_at 8 2 value)))
      else if slash_date 2 2 4 value
      then Some (ValidDate (new_Date tz (digits_at 6 4 value) (digits_at 0 2 value - 1) (digits_at 3 2 value)))
      else let lower = toLowerCase value
           in case map_of relative lower of
                Some daysAgo \<Rightarrow> Some (ValidDate (setDate tz now (getDate tz now - daysAgo)))
              | None \<Rightarrow> if lower \<in> {''constructor'', ''__proto__''} then Some InvalidDate else None)"

subsection \<open>Parsing a query\<close>

record search_filter =
  sf_type :: string
  sf_value :: string
  sf_negated :: bool

record parsed_query =
  pq_filters :: "search_filter list"
  pq_freeText :: string

text \<open>One turn of the loop over the operators; \<open>toISOString\<close> of an invalid date throws.\<close>

definition operator_step :: "time_zone \<Rightarrow> date \<Rightarrow> op_match \<Rightarrow> search_filter list \<times> string
    \<Rightarrow> js_error + search_filter list \<times> string" where
  "operator_step tz now m acc =
     (let (filters, freeText) = acc; negated = (om_dash m = ''-''); operator = toLowerCase (om_word m); v = om_value m;
          push = (\<lambda>x. Inr (filters @ [\<lparr>sf_type = operator, sf_value = x, sf_negated = negated\<rparr>], freeText))
      in if operator \<in> {''from'', ''to'', ''subject'', ''label'', ''in''} then push v
         else if operator = ''has'' then (if v = ''attachment'' \<or> v = ''attachments'' then push ''attachment'' else Inr acc)
         else if operator = ''is'' then
           (if v \<in> {''unread'', ''read'', ''starred'', ''flagged''} then push v else Inr acc)
         else if operator = ''after'' \<or> operator = ''before'' then
           (case parseDate tz now v of None \<Rightarrow> Inr acc | Some InvalidDate \<Rightarrow> Inl RangeError
            | Some (ValidDate d) \<Rightarrow> push (iso_date d))
         else if operator = ''larger'' \<or> operator = ''smaller'' then
           (case parseSize v of None \<Rightarrow> Inr acc | Some n \<Rightarrow> push (show_nat n))
         else Inr (filters, freeText @ '' '' @ operator @ '':'' @ v))"

fun operator_loop :: "time_zone \<Rightarrow> date \<Rightarrow> op_match list \<Rightarrow> search_filter list \<times> string
    \<Rightarrow> js_error + search_filter list \<times> string" where
  "operator_loop tz now [] acc = Inr acc"
| "operator_loop tz now (m # ms) acc =
     (case operator_step tz now m acc of Inl e \<Rightarrow> Inl e | Inr acc' \<Rightarrow> operator_loop tz now ms acc')"

text \<open>The text collected by the loop is overwritten before it is returned.\<close>

definition parseSearchQuery :: "time_zone \<Rightarrow> date \<Rightarrow> string \<Rightarrow> js_error + parsed_query" where
  "parseSearchQuery tz now query =
     (let phrases = matches_of (scan phrase_at query);
          processedQuery = text_of (scan phrase_at query);
          ops = scan op_at processedQuery
      in case operator_loop tz now (matches_of ops) ([], []) of
           Inl e \<Rightarrow> Inl e
         | Inr (filters, _) \<Rightarrow>
             (let textParts = filter (\<lambda>t. t \<noteq> []) (trim (text_of ops) # phrases)
              in Inr \<lparr>pq_filters = filters, pq_freeText = trim (join '' '' textParts)\<rparr>))"

subsection \<open>Formatting a query\<close>

definition format_filter :: "search_filter \<Rightarrow> string" where
  "format_filter f =
     (if sf_negated f then ''-'' else []) @ sf_type f @ '':''
       @ (if CHR '' '' \<in> set (sf_value f) then [dquote] @ sf_value f @ [dquote] else sf_value f)"

definition formatSearchQuery :: "parsed_query \<Rightarrow> string" where
  "formatSearchQuery q =
     join '' '' (map format_filter (pq_filters q) @ (if pq_freeText q \<noteq> [] then [pq_freeText q] else []))"

text \<open>
  \<open>new Date(v).getTime() / 1000\<close> as text; \<open>epoch\<close> stands for the strings that are not plain dates, whose
  reading the language leaves to the host.
\<close>

definition epoch_seconds :: "(string \<Rightarrow> string) \<Rightarrow> string \<Rightarrow> string" where
  "epoch_seconds epoch v =
     (if iso_date_shape v then (case new_Date_iso v of ValidDate t \<Rightarrow> show_int (t div 1000) | InvalidDate \<Rightarrow> ''NaN'')
      else epoch v)"

definition filter_conditions :: "(string \<Rightarrow> string) \<Rightarrow> search_filter \<Rightarrow> string list" where
  "filter_conditions epoch f =
     (let t = sf_type f; v = sf_value f; flag = (\<lambda>yes. if sf_negated f = yes then ''false'' else ''true'')
      in if t = ''from'' then [''fromEmail:'' @ v]
         else if t = ''to'' then [''toEmail:'' @ v]
         else if t = ''is'' then
           (if v = ''unread'' then [''isRead:'' @ flag False]
            else if v = ''read'' then [''isRead:'' @ flag True]
            else if v = ''starred'' \<or> v = ''flagged'' then [''isStarred:'' @ flag True] else [])
         else if t = ''has'' then (if v = ''attachment'' then [''hasAttachment:'' @ flag True] else [])
         else if t = ''after'' then [''createdAt:>'' @ epoch_seconds epoch v]
         else if t = ''before'' then [''createdAt:<'' @ epoch_seconds epoch v]
         else if t = ''larger'' then [''sizeBytes:>'' @ v]
         else if t = ''smaller'' then [''sizeBytes:<'' @ v]
         else [])"

definition toTypesenseFilter :: "(string \<Rightarrow> string) \<Rightarrow> parsed_query \<Rightarrow> string \<times> string option" where
  "toTypesenseFilter epoch q =
     (let conditions = concat (map (filter_conditions epoch) (pq_filters q))
      in (if pq_freeText q = [] then ''*'' else pq_freeText q,
          if length conditions > 0 then Some (join '' && '' conditions) else None))"

subsection \<open>Highlighting a query\<close>

datatype highlighted_part = OperatorPart string | ValuePart string | TextPart string

definition flush_text :: "string \<Rightarrow> highlighted_part list" where
  "flush_text s = (if trim s = [] then [] else [TextPart (trim s)])"

text \<open>\<open>before\<close> is \<open>query.slice(lastIndex, match.index)\<close>, the text since the last match.\<close>

fun highlight_loop :: "string \<Rightarrow> (char + op_match) list \<Rightarrow> highlighted_part list" where
  "highlight_loop before [] = flush_text before"
| "highlight_loop before (Inl c # ts) = highlight_loop (before @ [c]) ts"
| "highlight_loop before (Inr m # ts) =
     flush_text before @ [OperatorPart (om_dash m @ om_word m @ '':''), ValuePart (om_value m)] @ highlight_loop [] ts"

definition highlightQuery :: "string \<Rightarrow> highlighted_part list" where
  "highlightQuery query = highlight_loop [] (scan op_at query)"

subsection \<open>Lemmas: scanning\<close>

lemma phrase_at_Some:
  "phrase_at s = Some (p, rest) \<Longrightarrow> s = dquote # p @ dquote # rest \<and> p \<noteq> [] \<and> dquote \<notin> set p"
proof (induction s rule: phrase_at.induct)
  case (1 c s)
  let ?p = "takeWhile (\<lambda>x. x \<noteq> dquote) s" and ?r = "dropWhile (\<lambda>x. x \<noteq> dquote) s"
  from 1 have h: "c = dquote" "?p = p" "p \<noteq> []" "?r \<noteq> []" "tl ?r = rest"
    by (auto simp: Let_def split: if_splits)
  then have "hd ?r = dquote" using hd_dropWhile [of "\<lambda>x. x \<noteq> dquote" s] by blast
  with h have "?r = dquote # rest" by (cases ?r) simp_all
  moreover have "s = ?p @ ?r" by simp
  ultimately show ?case using h set_takeWhileD [of dquote "\<lambda>x. x \<noteq> dquote" s] by auto
qed simp

lemma phrase_at_None: "hd s \<noteq> dquote \<Longrightarrow> phrase_at s = None"
  by (cases s) simp_all

text \<open>What a match of the operator pattern covers: the value may stand in quotes.\<close>

lemma op_at_Some:
  assumes "op_at s = Some (m, rest)"
  obtains v where "s = om_dash m @ om_word m @ '':'' @ v @ rest" "om_word m \<noteq> []" "om_value m \<noteq> []"
    "v = om_value m \<or> v = [dquote] @ om_value m @ [dquote]"
proof -
  define dash where "dash = (case s of [] \<Rightarrow> [] | c # _ \<Rightarrow> if c = CHR ''-'' then ''-'' else [])"
  define s1 where "s1 = drop (length dash) s"
  define s2 where "s2 = dropWhile is_word_char s1"
  have s: "s = dash @ s1" by (simp add: dash_def s1_def split: list.split)
  have s1: "s1 = takeWhile is_word_char s1 @ s2" by (simp add: s2_def)
  note run = assms [unfolded op_at_def Let_def, folded dash_def, folded s1_def, folded s2_def]
  have c: "takeWhile is_word_char s1 \<noteq> []" "s2 = CHR '':'' # tl s2"
    using run by (cases s2; auto split: if_splits)+
  show thesis
  proof (cases "phrase_at (tl s2)")
    case None
    then have "m = \<lparr>om_dash = dash, om_word = takeWhile is_word_char s1, om_value = takeWhile (\<lambda>c. \<not> is_ws c) (tl s2)\<rparr>"
      "rest = dropWhile (\<lambda>c. \<not> is_ws c) (tl s2)" "takeWhile (\<lambda>c. \<not> is_ws c) (tl s2) \<noteq> []"
      using run by (auto split: if_splits)
    then show thesis using c s s1 by (intro that [of "om_value m"]) auto
  next
    case (Some pr)
    then have "m = \<lparr>om_dash = dash, om_word = takeWhile is_word_char s1, om_value = fst pr\<rparr>" "rest = snd pr"
      using run by (auto split: if_splits prod.splits)
    moreover have "tl s2 = dquote # fst pr @ dquote # snd pr \<and> fst pr \<noteq> []"
      using phrase_at_Some [of "tl s2" "fst pr" "snd pr"] Some by simp
    ultimately show thesis using c s s1 by (intro that [of "[dquote] @ om_value m @ [dquote]"]) auto
  qed
qed

lemma op_at_shorter: "op_at s = Some (m, rest) \<Longrightarrow> length rest < length s"
  by (elim op_at_Some) auto

lemma op_at_no_colon: "CHR '':'' \<notin> set s \<Longrightarrow> op_at s = None"
  by (cases "op_at s") (auto elim!: op_at_Some)

lemma scan_none: "(\<And>c r. suffix (c # r) s \<Longrightarrow> matcher (c # r) = None) \<Longrightarrow> scan matcher s = map Inl s"
proof (induction s)
  case (Cons c s)
  have "scan matcher s = map Inl s" using Cons.prems by (intro Cons.IH) (auto intro: suffix_ConsI)
  then show ?case using Cons.prems [of c s] by simp
qed simp

lemma scan_phrase_none: "dquote \<notin> set s \<Longrightarrow> scan phrase_at s = map Inl s"
  by (rule scan_none) (auto dest: set_mono_suffix)

lemma scan_op_none: "CHR '':'' \<notin> set s \<Longrightarrow> scan op_at s = map Inl s"
  by (rule scan_none) (auto intro!: op_at_no_colon dest!: set_mono_suffix)

lemma scan_op_match: "op_at s = Some (m, rest) \<Longrightarrow> scan op_at s = Inr m # scan op_at rest"
  using op_at_shorter [of s m rest] by (cases s) (auto simp: op_at_def)

lemma matches_text_simps [simp]:
  "matches_of [] = []" "matches_of (Inl c # ts) = matches_of ts" "matches_of (Inr m # ts) = m # matches_of ts"
  "text_of [] = []" "text_of (Inl c # ts) = c # text_of ts" "text_of (Inr m # ts) = text_of ts"
  "matches_of (map Inl s) = []" "text_of (map Inl s) = s"
  by (simp_all add: matches_of_def text_of_def comp_def)

subsection \<open>Lemmas: filters that print and parse back\<close>

text \<open>A filter whose value needs no quotes, and free text that is not read as an operator or a phrase.\<close>

definition plain_filter :: "search_filter \<Rightarrow> bool" where
  "plain_filter f \<longleftrightarrow>
     sf_type f \<in> {''from'', ''to'', ''subject'', ''label'', ''in''} \<and> sf_value f \<noteq> []
       \<and> list_all (\<lambda>c. \<not> is_ws c \<and> c \<noteq> dquote) (sf_value f)
     \<or> sf_type f = ''has'' \<and> sf_value f = ''attachment''
     \<or> sf_type f = ''is'' \<and> sf_value f \<in> {''unread'', ''read'', ''starred'', ''flagged''}
     \<or> sf_type f \<in> {''larger'', ''smaller''} \<and> sf_value f = show_nat (nat_of_digits (sf_value f))"

definition plain_text :: "string \<Rightarrow> bool" where
  "plain_text t \<longleftrightarrow> trim t = t \<and> dquote \<notin> set t \<and> CHR '':'' \<notin> set t"

definition match_for :: "search_filter \<Rightarrow> op_match" where
  "match_for f = \<lparr>om_dash = (if sf_negated f then ''-'' else []), om_word = sf_type f, om_value = sf_value f\<rparr>"

lemma plain_type: "plain_filter f \<Longrightarrow> sf_type f \<noteq> [] \<and> list_all is_word_char (sf_type f) \<and> toLowerCase (sf_type f) = sf_type f"
  unfolding plain_filter_def
  by (elim disjE conjE insertE emptyE)
     (simp_all add: is_word_char_def is_alpha_def is_lower_ascii_def code_unit_def toLowerCase_def lower_char_def)

lemma digit_plain: "is_digit c \<Longrightarrow> \<not> is_ws c \<and> c \<noteq> dquote"
  by (auto simp: is_digit_def is_ws_def Let_def dquote_def code_unit_def)

lemma plain_value:
  assumes "plain_filter f"
  shows "sf_value f \<noteq> [] \<and> list_all (\<lambda>c. \<not> is_ws c \<and> c \<noteq> dquote) (sf_value f)"
proof (cases "sf_value f = show_nat (nat_of_digits (sf_value f))")
  case True
  then have "\<forall>c \<in> set (sf_value f). is_digit c" "sf_value f \<noteq> []" using show_nat_digits show_nat_neq_Nil by metis+
  then show ?thesis using digit_plain by (auto simp: list_all_iff)
next
  case False
  with assms show ?thesis unfolding plain_filter_def
    by (elim disjE conjE insertE emptyE) (simp_all add: is_ws_def Let_def dquote_def code_unit_def)
qed

lemma parseSize_show: "parseSize (show_nat n) = Some n"
proof -
  have "\<forall>c \<in> set (show_nat n). is_digit c" using show_nat_digits by blast
  then have t: "takeWhile is_digit (show_nat n) = show_nat n" "dropWhile is_digit (show_nat n) = []"
    by (simp_all add: takeWhile_eq_all_conv dropWhile_eq_Nil_conv)
  show ?thesis unfolding parseSize_def Let_def t by (simp add: SIZE_UNITS_def)
qed

lemma format_plain: "plain_filter f \<Longrightarrow> format_filter f = om_dash (match_for f) @ sf_type f @ '':'' @ sf_value f"
  using plain_value [of f] by (auto simp: format_filter_def match_for_def list_all_iff is_ws_def code_unit_def)

lemma op_at_format:
  assumes f: "plain_filter f" and rest: "rest = [] \<or> is_ws (hd rest)"
  shows "op_at (format_filter f @ rest) = Some (match_for f, rest)"
proof -
  let ?w = "sf_type f" and ?v = "sf_value f"
  have w: "?w \<noteq> []" "\<forall>c \<in> set ?w. is_word_char c" using plain_type [OF f] by (auto simp: list_all_iff)
  have v: "?v \<noteq> []" "\<forall>c \<in> set ?v. \<not> is_ws c" "hd (?v @ rest) \<noteq> dquote"
    using plain_value [OF f] by (auto simp: list_all_iff)
  have colon: "\<not> is_word_char (CHR '':'')" "\<not> is_word_char (CHR ''-'')"
    by (simp_all add: is_word_char_def is_alpha_def is_upper_ascii_def is_lower_ascii_def is_digit_def code_unit_def)
  have word: "takeWhile is_word_char (?w @ CHR '':'' # x) = ?w" "dropWhile is_word_char (?w @ CHR '':'' # x) = CHR '':'' # x" for x
    using w(2) colon(1) by (simp_all add: takeWhile_append2 dropWhile_append2)
  have val: "takeWhile (\<lambda>c. \<not> is_ws c) (?v @ rest) = ?v" "dropWhile (\<lambda>c. \<not> is_ws c) (?v @ rest) = rest"
    using v(2) rest by (cases rest; simp add: takeWhile_append2 dropWhile_append2)+
  have ph: "phrase_at (?v @ rest) = None" by (rule phrase_at_None [OF v(3)])
  let ?d = "om_dash (match_for f)" and ?x = "?w @ CHR '':'' # ?v @ rest"
  have "hd ?w \<noteq> CHR ''-''" using w colon(2) by (cases ?w) auto
  then have dash: "(case ?d @ ?x of [] \<Rightarrow> [] | c # _ \<Rightarrow> if c = CHR ''-'' then ''-'' else []) = ?d"
    using w(1) by (cases ?w) (simp_all add: match_for_def)
  have "format_filter f @ rest = ?d @ ?x" by (simp add: format_plain [OF f])
  moreover have "drop (length ?d) (?d @ ?x) = ?x" by simp
  ultimately show ?thesis
    unfolding op_at_def Let_def by (simp only: dash word val ph option.case list.sel) (simp add: w(1) v(1) match_for_def)
qed

lemma op_at_space: "op_at (CHR '' '' # s) = None"
  by (simp add: op_at_def is_word_char_def is_alpha_def is_upper_ascii_def is_lower_ascii_def is_digit_def code_unit_def)

text \<open>The scan of a printed query finds the filters again; blanks and the free text are left.\<close>

lemma scan_format:
  assumes "list_all plain_filter fs" "plain_text t"
  shows "let ts = scan op_at (join '' '' (map format_filter fs @ (if t \<noteq> [] then [t] else [])))
    in matches_of ts = map match_for fs \<and> (\<exists>k. text_of ts = replicate k (CHR '' '') @ t)"
  using assms(1)
proof (induction fs)
  case Nil
  have "scan op_at t = map Inl t" using assms(2) by (intro scan_op_none) (simp add: plain_text_def)
  then show ?case by (auto simp: Let_def intro: exI [of _ 0])
next
  case (Cons f fs)
  let ?tail = "map format_filter fs @ (if t \<noteq> [] then [t] else [])"
  have f: "plain_filter f" using Cons.prems by simp
  from Cons obtain k where IH: "matches_of (scan op_at (join '' '' ?tail)) = map match_for fs"
    "text_of (scan op_at (join '' '' ?tail)) = replicate k (CHR '' '') @ t" by (auto simp: Let_def)
  show ?case
  proof (cases ?tail)
    case Nil
    then have "fs = []" "t = []" by (auto split: if_splits)
    then show ?thesis using op_at_format [OF f, of "[]"] by (simp add: scan_op_match exI [of _ 0])
  next
    case (Cons x xs)
    then have "join '' '' (map format_filter (f # fs) @ (if t \<noteq> [] then [t] else [])) = format_filter f @ '' '' @ join '' '' ?tail"
      by simp
    moreover have "scan op_at (format_filter f @ '' '' @ join '' '' ?tail)
        = Inr (match_for f) # Inl (CHR '' '') # scan op_at (join '' '' ?tail)"
      using op_at_format [OF f, of "'' '' @ join '' '' ?tail"]
      by (simp add: scan_op_match op_at_space is_ws_def code_unit_def)
    ultimately show ?thesis using IH by (simp add: Let_def exI [of _ "Suc k"])
  qed
qed

subsection \<open>Lemmas: the loop over the operators\<close>

text \<open>The step by the kind of operator.\<close>

definition pushed :: "op_match \<Rightarrow> string \<Rightarrow> search_filter" where
  "pushed m x = \<lparr>sf_type = toLowerCase (om_word m), sf_value = x, sf_negated = (om_dash m = ''-'')\<rparr>"

lemma operator_step_name:
  "toLowerCase (om_word m) \<in> {''from'', ''to'', ''subject'', ''label'', ''in''} \<Longrightarrow>
   operator_step tz now m (fs, free) = Inr (fs @ [pushed m (om_value m)], free)"
  by (simp add: operator_step_def Let_def pushed_def)

lemma operator_step_has:
  "toLowerCase (om_word m) = ''has'' \<Longrightarrow>
   operator_step tz now m (fs, free) =
     Inr (if om_value m \<in> {''attachment'', ''attachments''} then (fs @ [pushed m ''attachment''], free) else (fs, free))"
  by (simp add: operator_step_def Let_def pushed_def)

lemma operator_step_is:
  "toLowerCase (om_word m) = ''is'' \<Longrightarrow>
   operator_step tz now m (fs, free) =
     Inr (if om_value m \<in> {''unread'', ''read'', ''starred'', ''flagged''} then (fs @ [pushed m (om_value m)], free) else (fs, free))"
  by (simp add: operator_step_def Let_def pushed_def)

lemma operator_step_date:
  assumes "toLowerCase (om_word m) \<in> {''after'', ''before''}"
  shows "operator_step tz now m (fs, free) =
     (case parseDate tz now (om_value m) of None \<Rightarrow> Inr (fs, free) | Some InvalidDate \<Rightarrow> Inl RangeError
      | Some (ValidDate d) \<Rightarrow> Inr (fs @ [pushed m (iso_date d)], free))"
  using assms by (elim insertE emptyE) (simp_all add: operator_step_def Let_def pushed_def split: option.split js_date.split)

lemma operator_step_size:
  assumes "toLowerCase (om_word m) \<in> {''larger'', ''smaller''}"
  shows "operator_step tz now m (fs, free) =
     Inr (case parseSize (om_value m) of None \<Rightarrow> (fs, free) | Some n \<Rightarrow> (fs @ [pushed m (show_nat n)], free))"
  using assms by (elim insertE emptyE) (simp_all add: operator_step_def Let_def pushed_def split: option.split)

lemma operator_step_unknown:
  "toLowerCase (om_word m) \<notin> {''from'', ''to'', ''subject'', ''label'', ''in'', ''has'', ''is'', ''after'', ''before'',
     ''larger'', ''smaller''} \<Longrightarrow>
   operator_step tz now m (fs, free) = Inr (fs, free @ '' '' @ toLowerCase (om_word m) @ '':'' @ om_value m)"
  by (simp add: operator_step_def Let_def)

lemma operator_kinds:
  obtains (name) "toLowerCase (om_word m) \<in> {''from'', ''to'', ''subject'', ''label'', ''in''}"
  | (has) "toLowerCase (om_word m) = ''has''" | (mark) "toLowerCase (om_word m) = ''is''"
  | (date) "toLowerCase (om_word m) \<in> {''after'', ''before''}" | (size) "toLowerCase (om_word m) \<in> {''larger'', ''smaller''}"
  | (unknown) "toLowerCase (om_word m) \<notin> {''from'', ''to'', ''subject'', ''label'', ''in'', ''has'', ''is'', ''after'', ''before'',
     ''larger'', ''smaller''}"
  by blast

lemma plain_filterE:
  assumes "plain_filter f"
  obtains (name) "sf_type f \<in> {''from'', ''to'', ''subject'', ''label'', ''in''}"
  | (has) "sf_type f = ''has''" "sf_value f = ''attachment''"
  | (mark) "sf_type f = ''is''" "sf_value f \<in> {''unread'', ''read'', ''starred'', ''flagged''}"
  | (size) n where "sf_type f \<in> {''larger'', ''smaller''}" "sf_value f = show_nat n"
  using assms unfolding plain_filter_def by blast

lemma operator_step_plain:
  assumes "plain_filter f"
  shows "operator_step tz now (match_for f) (fs, free) = Inr (fs @ [f], free)"
proof -
  have l: "toLowerCase (om_word (match_for f)) = sf_type f" "om_value (match_for f) = sf_value f"
    using plain_type [OF assms] by (simp_all add: match_for_def)
  have p: "pushed (match_for f) (sf_value f) = f" using l by (simp add: pushed_def match_for_def)
  from assms show ?thesis
  proof (cases rule: plain_filterE)
    case name
    then show ?thesis using operator_step_name [of "match_for f", unfolded l] p by simp
  next
    case has
    then show ?thesis using operator_step_has [of "match_for f", unfolded l] p by simp
  next
    case mark
    then show ?thesis using operator_step_is [of "match_for f", unfolded l] p by simp
  next
    case (size n)
    then show ?thesis using operator_step_size [of "match_for f", unfolded l] p by (simp add: parseSize_show)
  qed
qed

lemma operator_loop_plain:
  "list_all plain_filter fs \<Longrightarrow> operator_loop tz now (map match_for fs) (acc, free) = Inr (acc @ fs, free)"
  by (induction fs arbitrary: acc) (simp_all add: operator_step_plain)

lemma parseDate_invalid: "parseDate tz now v = Some InvalidDate \<longleftrightarrow> toLowerCase v \<in> {''constructor'', ''__proto__''}"
proof
  assume l: "toLowerCase v \<in> {''constructor'', ''__proto__''}"
  then have "length (toLowerCase v) = 11 \<or> length (toLowerCase v) = 9" by (elim insertE emptyE) simp_all
  then have "length v = 11 \<or> length v = 9" by simp
  moreover have "map_of relative (toLowerCase v) = None" using l by (auto simp: relative_def)
  ultimately show "parseDate tz now v = Some InvalidDate"
    using l by (auto simp: parseDate_def iso_date_shape_def slash_date_def Let_def)
qed (auto simp: parseDate_def Let_def split: if_splits option.splits)

text \<open>The two names at which an operator step throws.\<close>

definition throws :: "op_match \<Rightarrow> bool" where
  "throws m \<longleftrightarrow> toLowerCase (om_word m) \<in> {''after'', ''before''} \<and> toLowerCase (om_value m) \<in> {''constructor'', ''__proto__''}"

lemma operator_step_throws: "(\<exists>e. operator_step tz now m acc = Inl e) \<longleftrightarrow> throws m"
proof -
  obtain fs free where acc: "acc = (fs, free)" by (cases acc)
  show ?thesis
  proof (cases rule: operator_kinds [of m])
    case date
    then have "throws m \<longleftrightarrow> parseDate tz now (om_value m) = Some InvalidDate" by (simp add: throws_def parseDate_invalid)
    then show ?thesis using operator_step_date [OF date] by (auto simp: acc split: option.split js_date.split)
  qed (simp_all add: acc throws_def operator_step_name operator_step_has operator_step_is operator_step_size operator_step_unknown,
    auto)
qed

lemma operator_loop_throws: "(\<exists>e. operator_loop tz now ms acc = Inl e) \<longleftrightarrow> list_ex throws ms"
proof (induction ms arbitrary: acc)
  case (Cons m ms)
  then show ?case using operator_step_throws [of tz now m acc]
    by (cases "operator_step tz now m acc") auto
qed simp

text \<open>What every filter of a parsed query looks like.\<close>

definition filter_ok :: "search_filter \<Rightarrow> bool" where
  "filter_ok f \<longleftrightarrow>
     sf_type f \<in> {''from'', ''to'', ''subject'', ''label'', ''in''} \<and> sf_value f \<noteq> []
     \<or> sf_type f = ''has'' \<and> sf_value f = ''attachment''
     \<or> sf_type f = ''is'' \<and> sf_value f \<in> {''unread'', ''read'', ''starred'', ''flagged''}
     \<or> sf_type f \<in> {''after'', ''before''} \<and> (\<exists>d. sf_value f = iso_date d)
     \<or> sf_type f \<in> {''larger'', ''smaller''} \<and> (\<exists>n. sf_value f = show_nat n)"

lemma operator_step_ok:
  assumes "operator_step tz now m (fs, free) = Inr (fs', free')" "om_value m \<noteq> []" "list_all filter_ok fs"
  shows "list_all filter_ok fs'"
proof -
  have "fs' = fs \<or> (\<exists>f. fs' = fs @ [f] \<and> filter_ok f)"
  proof (cases rule: operator_kinds [of m])
    case name
    then have "filter_ok (pushed m (om_value m))" using assms(2) by (simp add: filter_ok_def pushed_def)
    then show ?thesis using assms(1) operator_step_name [OF name, of tz now fs free] by auto
  next
    case has
    then have "filter_ok (pushed m ''attachment'')" by (simp add: filter_ok_def pushed_def)
    then show ?thesis using assms(1) operator_step_has [OF has, of tz now fs free] by (auto split: if_splits)
  next
    case mark
    then have "om_value m \<in> {''unread'', ''read'', ''starred'', ''flagged''} \<Longrightarrow> filter_ok (pushed m (om_value m))"
      by (simp add: filter_ok_def pushed_def)
    then show ?thesis using assms(1) operator_step_is [OF mark, of tz now fs free] by (auto split: if_splits)
  next
    case date
    then have "filter_ok (pushed m (iso_date d))" for d unfolding filter_ok_def pushed_def by auto
    then show ?thesis using assms(1) operator_step_date [OF date, of tz now fs free] by (auto split: option.splits js_date.splits)
  next
    case size
    then have "filter_ok (pushed m (show_nat n))" for n unfolding filter_ok_def pushed_def by auto
    then show ?thesis using assms(1) operator_step_size [OF size, of tz now fs free] by (auto split: option.splits)
  next
    case unknown
    then show ?thesis using assms(1) operator_step_unknown [OF unknown] by simp
  qed
  then show ?thesis using assms(3) by auto
qed

lemma operator_loop_ok:
  "operator_loop tz now ms (fs, free) = Inr (fs', free') \<Longrightarrow> \<forall>m \<in> set ms. om_value m \<noteq> [] \<Longrightarrow>
   list_all filter_ok fs \<Longrightarrow> list_all filter_ok fs'"
proof (induction ms arbitrary: fs free)
  case (Cons m ms)
  then obtain fs1 free1 where s: "operator_step tz now m (fs, free) = Inr (fs1, free1)"
    by (cases "operator_step tz now m (fs, free)") auto
  with Cons.prems have "list_all filter_ok fs1" using operator_step_ok [of tz now m fs free fs1 free1] by simp
  then show ?case using Cons s by simp
qed simp

lemma scan_op_values: "\<forall>m \<in> set (matches_of (scan op_at s)). om_value m \<noteq> []"
proof (induction s rule: length_induct)
  case (1 s)
  show ?case
  proof (cases "op_at s")
    case None
    then show ?thesis using 1 by (cases s) auto
  next
    case (Some mr)
    obtain m rest where mr: "mr = (m, rest)" by (cases mr)
    have "om_value m \<noteq> []" by (rule op_at_Some [OF Some [unfolded mr]])
    then show ?thesis using 1 op_at_shorter [OF Some [unfolded mr]] by (simp add: scan_op_match [OF Some [unfolded mr]])
  qed
qed

lemma format_no_quote: "plain_filter f \<Longrightarrow> dquote \<notin> set (format_filter f)"
proof -
  assume f: "plain_filter f"
  have "dquote \<notin> set (sf_type f)"
    using plain_type [OF f] by (auto simp: list_all_iff is_word_char_def is_alpha_def is_upper_ascii_def is_lower_ascii_def
        is_digit_def code_unit_def dquote_def)
  moreover have "dquote \<notin> set (sf_value f)" using plain_value [OF f] by (auto simp: list_all_iff)
  ultimately show ?thesis by (simp add: format_plain [OF f] match_for_def dquote_def)
qed

subsection \<open>Lemmas: highlighting\<close>

text \<open>The code units of a query other than blanks and quotes.\<close>

definition solid :: "string \<Rightarrow> string" where
  "solid s = filter (\<lambda>c. \<not> is_ws c \<and> c \<noteq> dquote) s"

fun part_text :: "highlighted_part \<Rightarrow> string" where
  "part_text (OperatorPart s) = s"
| "part_text (ValuePart s) = s"
| "part_text (TextPart s) = s"

definition highlighted_text :: "highlighted_part list \<Rightarrow> string" where
  "highlighted_text ps = concat (map part_text ps)"

lemma solid_append [simp]: "solid (s @ t) = solid s @ solid t"
  by (simp add: solid_def)

lemma solid_dropWhile: "solid (dropWhile is_ws s) = solid s"
  by (induction s) (simp_all add: solid_def)

lemma solid_rev: "solid (rev s) = rev (solid s)"
  by (simp add: solid_def rev_filter)

lemma solid_trim: "solid (trim s) = solid s"
  by (simp add: trim_def solid_dropWhile solid_rev)

lemma solid_flush: "solid (highlighted_text (flush_text s)) = solid s"
  using solid_trim [of s] by (auto simp: flush_text_def highlighted_text_def solid_def)

lemma highlighted_text_simps [simp]:
  "highlighted_text (ps @ qs) = highlighted_text ps @ highlighted_text qs"
  "highlighted_text (p # ps) = part_text p @ highlighted_text ps" "highlighted_text [] = []"
  by (simp_all add: highlighted_text_def)

lemma highlight_loop_solid: "solid (highlighted_text (highlight_loop before (scan op_at s))) = solid (before @ s)"
proof (induction s arbitrary: before rule: length_induct)
  case (1 s)
  show ?case
  proof (cases "op_at s")
    case None
    show ?thesis
    proof (cases s)
      case (Cons c r)
      have "solid (highlighted_text (highlight_loop (before @ [c]) (scan op_at r))) = solid ((before @ [c]) @ r)"
        by (rule 1 [rule_format]) (simp add: Cons)
      then show ?thesis using None Cons by simp
    qed (simp add: solid_flush)
  next
    case (Some mr)
    obtain m rest where mr: "mr = (m, rest)" by (cases mr)
    obtain v where v: "s = om_dash m @ om_word m @ '':'' @ v @ rest" "v = om_value m \<or> v = [dquote] @ om_value m @ [dquote]"
      by (rule op_at_Some [OF Some [unfolded mr]])
    have "solid v = solid (om_value m)" using v(2) by (auto simp: solid_def)
    moreover have "solid (highlighted_text (highlight_loop [] (scan op_at rest))) = solid ([] @ rest)"
      using op_at_shorter [OF Some [unfolded mr]] by (rule 1 [rule_format])
    moreover have "solid s = solid (om_dash m @ om_word m @ '':'') @ solid v @ solid rest"
      unfolding v(1) by (simp only: solid_append append_assoc)
    ultimately show ?thesis by (simp add: scan_op_match [OF Some [unfolded mr]] solid_flush del: append_assoc)
  qed
qed

subsection \<open>Properties\<close>






text \<open>
  Highlighting loses nothing of the query but blanks and quotes: the parts, put together in
  order, have the same remaining code units as the query.\<close>

theorem highlightQuery_complete: "solid (highlighted_text (highlightQuery query)) = solid query"
  unfolding highlightQuery_def using highlight_loop_solid [of "[]" query] by simp

text \<open>
  A quoted operator value is not understood, although the operator pattern has a case for it
  and \<open>formatSearchQuery\<close> prints such values: phrases are cut out of the query first, so the filter is lost
  and its name ends up in the free text.\<close>

theorem quoted_value_lost:
  "formatSearchQuery \<lparr>pq_filters = [\<lparr>sf_type = ''from'', sf_value = ''John Doe'', sf_negated = False\<rparr>], pq_freeText = []\<rparr>
     = ''from:'' @ [dquote] @ ''John Doe'' @ [dquote]
   \<and> parseSearchQuery (fixed_zone 0) 0 (''from:'' @ [dquote] @ ''John Doe'' @ [dquote])
     = Inr \<lparr>pq_filters = [], pq_freeText = ''from: John Doe''\<rparr>"
  by code_simp

text \<open>
  An unknown operator is meant to be kept as text, but the collected text is overwritten: the
  query loses it.\<close>

theorem unknown_operator_lost:
  "parseSearchQuery (fixed_zone 0) 0 ''error:404 page'' = Inr \<lparr>pq_filters = [], pq_freeText = ''page''\<rparr>"
  by code_simp

text \<open>
  In a time zone east of Greenwich a date filter is one day early: the date is built in local time
  and printed in UTC.\<close>

theorem date_filter_shifted:
  "parseSearchQuery (fixed_zone (8 * 3600000)) 0 ''after:2024-01-01''
   = Inr \<lparr>pq_filters = [\<lparr>sf_type = ''after'', sf_value = ''2023-12-31'', sf_negated = False\<rparr>], pq_freeText = []\<rparr>"
  by code_simp

text \<open>
  The index filter honours the negation of flags only: negating a sender, recipient, date or
  size filter does not change the condition that is sent to the index.\<close>

theorem negation_ignored:
  "sf_type f \<in> {''from'', ''to'', ''after'', ''before'', ''larger'', ''smaller''} \<Longrightarrow>
   filter_conditions epoch (f\<lparr>sf_negated := True\<rparr>) = filter_conditions epoch (f\<lparr>sf_negated := False\<rparr>)
   \<and> filter_conditions epoch f \<noteq> []"
  by (elim insertE emptyE) (simp_all add: filter_conditions_def Let_def)

theorem negation_ignored_witness:
  "filter_conditions (\<lambda>v. v) \<lparr>sf_type = ''from'', sf_value = ''a'', sf_negated = True\<rparr>
   = filter_conditions (\<lambda>v. v) \<lparr>sf_type = ''from'', sf_value = ''a'', sf_negated = False\<rparr>"
  using negation_ignored [of "\<lparr>sf_type = ''from'', sf_value = ''a'', sf_negated = True\<rparr>" "\<lambda>v. v"] by simp

end
