(* ===== verification/Mailbox.thy ===== *)
theory Mailbox
  imports Regex Comparators
begin

text \<open>
  \<open>packages/core/src/mail/mailbox.ts\<close>: roles, icons and order of mailboxes, the check of a name
  typed by the user, the slug derived from it, and the counters of a mailbox.
\<close>

datatype mailbox_role = Inbox | Sent | Drafts | Trash | Spam | Archive | Custom

record mailbox =
  mb_id :: string
  mb_identityId :: string
  mb_ownerId :: string
  mb_name :: string
  mb_slug :: string
  mb_role :: mailbox_role
  mb_icon :: "string option"
  mb_color :: "string option"
  mb_unreadCount :: int
  mb_totalCount :: int
  mb_order :: int
  mb_isSystem :: bool
  mb_isHidden :: bool
  mb_createdAt :: date
  mb_updatedAt :: date

record thread_counts =
  tc_unreadCount :: int
  tc_messageCount :: int

definition SYSTEM_MAILBOX_SLUGS :: "string list" where
  "SYSTEM_MAILBOX_SLUGS = [''inbox'', ''sent'', ''drafts'', ''trash'', ''spam'', ''archive'']"

definition isSystemMailbox :: "mailbox \<Rightarrow> bool" where
  "isSystemMailbox m = (mb_isSystem m \<or> mb_slug m \<in> set SYSTEM_MAILBOX_SLUGS)"

definition role_table :: "(string \<times> mailbox_role) list" where
  "role_table = [(''inbox'', Inbox), (''sent'', Sent), (''drafts'', Drafts), (''trash'', Trash),
     (''spam'', Spam), (''archive'', Archive)]"

definition getMailboxRole :: "string \<Rightarrow> mailbox_role" where
  "getMailboxRole slug = nullish (map_of role_table slug) Custom"

fun getMailboxIcon :: "mailbox_role \<Rightarrow> string" where
  "getMailboxIcon Inbox = ''inbox''"
| "getMailboxIcon Sent = ''send''"
| "getMailboxIcon Drafts = ''file-text''"
| "getMailboxIcon Trash = ''trash-2''"
| "getMailboxIcon Spam = ''alert-triangle''"
| "getMailboxIcon Archive = ''archive''"
| "getMailboxIcon Custom = ''folder''"

fun getMailboxOrder :: "mailbox_role \<Rightarrow> int" where
  "getMailboxOrder Inbox = 0"
| "getMailboxOrder Drafts = 1"
| "getMailboxOrder Sent = 2"
| "getMailboxOrder Spam = 3"
| "getMailboxOrder Trash = 4"
| "getMailboxOrder Archive = 5"
| "getMailboxOrder Custom = 100"

definition mailbox_cmp :: "mailbox \<Rightarrow> mailbox \<Rightarrow> int" where
  "mailbox_cmp a b =
     (if mb_isSystem a \<noteq> mb_isSystem b then (if mb_isSystem a then -1 else 1)
      else mb_order a - mb_order b)"

definition sortMailboxes :: "mailbox list \<Rightarrow> mailbox list" where
  "sortMailboxes mailboxes = js_sort mailbox_cmp mailboxes"

definition canDeleteMailbox :: "mailbox \<Rightarrow> bool" where
  "canDeleteMailbox m = (\<not> mb_isSystem m \<and> mb_role m = Custom)"

definition canRenameMailbox :: "mailbox \<Rightarrow> bool" where
  "canRenameMailbox m = (\<not> mb_isSystem m \<and> mb_role m = Custom)"

text \<open>\<open>/[<>:"/\\|?*]/\<close> and the reserved names.\<close>

definition forbidden_char :: "char \<Rightarrow> bool" where
  "forbidden_char c = (c \<in> set ''<>:/|?*'' \<or> c = dquote \<or> c = backslash)"

definition reserved_names :: "string list" where
  "reserved_names = [''inbox'', ''sent'', ''drafts'', ''trash'', ''spam'', ''archive'', ''all'', ''starred'']"

definition validateMailboxName :: "string \<Rightarrow> bool \<times> string option" where
  "validateMailboxName name =
     (if name = [] \<or> length (trim name) = 0 then (False, Some ''Mailbox name is required'')
      else if length name > 100 then (False, Some ''Mailbox name must be 100 characters or less'')
      else if rx_test (RxCls forbidden_char) name
        then (False, Some ''Mailbox name contains invalid characters'')
      else if toLowerCase name \<in> set reserved_names then (False, Some ''This mailbox name is reserved'')
      else (True, None))"

definition slug_char :: "char \<Rightarrow> bool" where
  "slug_char c = (is_lower_ascii c \<or> is_digit c)"

text \<open>\<open>/^-|-$/g\<close>\<close>

definition edge_dash_rx :: rx where
  "edge_dash_rx = RxAlt (RxSeq RxBol (rx_char CHR ''-'')) (RxSeq (rx_char CHR ''-'') RxEol)"

definition generateMailboxSlug :: "string \<Rightarrow> string" where
  "generateMailboxSlug name =
     take 50 (rx_replace True edge_dash_rx []
       (rx_replace True (rx_plus (RxCls (\<lambda>c. \<not> slug_char c))) ''-'' (toLowerCase name)))"

definition calculateMailboxStats :: "thread_counts list \<Rightarrow> thread_counts" where
  "calculateMailboxStats threads =
     foldl (\<lambda>acc t. \<lparr>tc_unreadCount = tc_unreadCount acc + tc_unreadCount t,
                      tc_messageCount = tc_messageCount acc + tc_messageCount t\<rparr>)
       \<lparr>tc_unreadCount = 0, tc_messageCount = 0\<rparr> threads"

subsection \<open>Lemmas\<close>

interpretation mailbox_order: js_comparator mailbox_cmp
  by unfold_locales (auto simp: mailbox_cmp_def split: if_splits)

lemma edge_dash_rest:
  "rx_replace False edge_dash_rx [] s = (if s \<noteq> [] \<and> last s = CHR ''-'' then butlast s else s)"
proof (induction s)
  case Nil
  show ?case by (simp add: rx_replace.simps [of False] edge_dash_rx_def)
next
  case (Cons c s)
  have nil: "rx_replace False edge_dash_rx [] [] = []"
    by (simp add: rx_replace.simps [of False] edge_dash_rx_def)
  show ?case
  proof (cases "s = []")
    case True
    have "rx_ms False edge_dash_rx [c] = (if c = CHR ''-'' then [([c], [])] else [])"
      by (simp add: edge_dash_rx_def)
    with True show ?thesis by (simp add: rx_replace.simps [of False _ _ "[c]"] nil)
  next
    case False
    then have "rx_ms False edge_dash_rx (c # s) = []" by (simp add: edge_dash_rx_def)
    then have "rx_replace False edge_dash_rx [] (c # s) = c # rx_replace False edge_dash_rx [] s"
      by (simp add: rx_replace.simps [of False _ _ "c # s"])
    with False Cons.IH show ?thesis by simp
  qed
qed

text \<open>The pattern strips one dash at each end.\<close>

definition strip_end :: "string \<Rightarrow> string" where
  "strip_end s = (if s \<noteq> [] \<and> last s = CHR ''-'' then butlast s else s)"

lemma edge_dash_eq:
  "rx_replace True edge_dash_rx [] s =
     (case s of [] \<Rightarrow> [] | c # cs \<Rightarrow> if c = CHR ''-'' then strip_end cs else strip_end (c # cs))"
proof (cases s)
  case Nil
  then show ?thesis by (simp add: rx_replace.simps [of True] edge_dash_rx_def)
next
  case (Cons c cs)
  show ?thesis
  proof (cases "c = CHR ''-''")
    case True
    have "\<exists>ms. rx_ms True edge_dash_rx (CHR ''-'' # cs) = ([CHR ''-''], cs) # ms"
      by (simp add: edge_dash_rx_def)
    then have "rx_replace True edge_dash_rx [] (CHR ''-'' # cs) = rx_replace False edge_dash_rx [] cs"
      by (auto simp: rx_replace.simps [of True])
    then show ?thesis using Cons True by (simp add: edge_dash_rest strip_end_def)
  next
    case False
    then have "rx_ms True edge_dash_rx (c # cs) = []" by (simp add: edge_dash_rx_def)
    then have "rx_replace True edge_dash_rx [] (c # cs) = c # rx_replace False edge_dash_rx [] cs"
      by (simp add: rx_replace.simps [of True])
    then show ?thesis using Cons False by (simp add: edge_dash_rest strip_end_def)
  qed
qed

lemma dash_not_slug_char: "\<not> slug_char CHR ''-''"
  by code_simp

definition slug_core :: "string \<Rightarrow> string" where
  "slug_core name = collapse_runs (\<lambda>c. \<not> slug_char c) ''-'' (toLowerCase name)"

lemma slug_core_wf:
  "c \<in> set (slug_core name) \<Longrightarrow> slug_char c \<or> c = CHR ''-''"
  "\<not> sublist ''--'' (slug_core name)"
  using set_collapse_runs [of "\<lambda>c. \<not> slug_char c" "''-''" "toLowerCase name"]
    collapse_runs_no_double [of "\<lambda>c. \<not> slug_char c" "CHR ''-''"] dash_not_slug_char
  by (auto simp: slug_core_def)

lemma generateMailboxSlug_eq:
  "generateMailboxSlug name = take 50 (rx_replace True edge_dash_rx [] (slug_core name))"
  by (simp add: generateMailboxSlug_def slug_core_def rx_replace_plus_cls)

lemma sublist_strip_end: "sublist (strip_end s) s"
  by (simp add: strip_end_def)

lemma hd_strip_end: "strip_end s \<noteq> [] \<Longrightarrow> hd (strip_end s) = hd s"
  by (cases s) (auto simp: strip_end_def)

lemma edge_dash_sublist: "sublist (rx_replace True edge_dash_rx [] s) s"
  using sublist_strip_end [of s] sublist_strip_end [of "tl s"]
  by (cases s) (auto simp: edge_dash_eq sublist_Cons_right)

lemma edge_dash_hd:
  assumes "\<not> sublist ''--'' s" and "rx_replace True edge_dash_rx [] s \<noteq> []"
  shows "hd (rx_replace True edge_dash_rx [] s) \<noteq> CHR ''-''"
proof (cases s)
  case (Cons c cs)
  show ?thesis
  proof (cases "c = CHR ''-''")
    case True
    with Cons assms have ne: "strip_end cs \<noteq> []" by (simp add: edge_dash_eq)
    then have "cs \<noteq> []" by (auto simp: strip_end_def)
    moreover have "\<not> prefix ''-'' cs" using assms(1) Cons True by (simp add: sublist_Cons_right)
    ultimately have "hd cs \<noteq> CHR ''-''" by (cases cs) auto
    with ne Cons True show ?thesis by (simp add: edge_dash_eq hd_strip_end)
  next
    case False
    with Cons assms show ?thesis by (simp add: edge_dash_eq hd_strip_end)
  qed
qed (use assms in \<open>simp add: edge_dash_eq\<close>)

lemma calculateMailboxStats_eq:
  "calculateMailboxStats ts =
     \<lparr>tc_unreadCount = sum_list (map tc_unreadCount ts), tc_messageCount = sum_list (map tc_messageCount ts)\<rparr>"
  by (induction ts rule: rev_induct) (simp_all add: calculateMailboxStats_def)

subsection \<open>Properties\<close>

text \<open>
  A slug has at most 50 characters, all of them lower-case ASCII letters, digits or dashes; it
  does not start with a dash and has no two dashes in a row.
\<close>

theorem generateMailboxSlug_wf:
  "length (generateMailboxSlug name) \<le> 50
   \<and> list_all (\<lambda>c. slug_char c \<or> c = CHR ''-'') (generateMailboxSlug name)
   \<and> \<not> prefix ''-'' (generateMailboxSlug name)
   \<and> \<not> sublist ''--'' (generateMailboxSlug name)"
proof -
  let ?s = "rx_replace True edge_dash_rx [] (slug_core name)"
  have sub: "sublist (generateMailboxSlug name) (slug_core name)"
    unfolding generateMailboxSlug_eq
    using sublist_take sublist_order.order_trans edge_dash_sublist by blast
  have "\<not> prefix ''-'' ?s"
    using edge_dash_hd [OF slug_core_wf(2), of name] by (cases ?s) auto
  then have "\<not> prefix ''-'' (generateMailboxSlug name)"
    unfolding generateMailboxSlug_eq using take_is_prefix prefix_order.order_trans by blast
  moreover have "set (generateMailboxSlug name) \<subseteq> set (slug_core name)"
    using sub by (rule set_mono_sublist)
  ultimately show ?thesis
    using sub slug_core_wf [where name = name] sublist_order.order_trans
    by (auto simp: generateMailboxSlug_eq list_all_iff)
qed

text \<open>
  A name is accepted iff it is not blank, has at most 100 characters, none of them forbidden,
  and is not a reserved name in any case.
\<close>

theorem validateMailboxName_valid_iff:
  "fst (validateMailboxName name) \<longleftrightarrow>
     (\<exists>c \<in> set name. \<not> is_ws c) \<and> length name \<le> 100 \<and> list_all (\<lambda>c. \<not> forbidden_char c) name
     \<and> toLowerCase name \<notin> set reserved_names"
  by (auto simp: validateMailboxName_def rx_test_cls list_all_iff trim_eq_Nil)

text \<open>
  The reserved-name check does not protect the reserved slugs: an accepted name can have the
  slug of a system mailbox, which then takes the role of that mailbox, and another one the empty
  slug.
\<close>

theorem mailbox_name_slug_collision:
  "fst (validateMailboxName ''Inbox!'') \<and> generateMailboxSlug ''Inbox!'' = ''inbox''
   \<and> getMailboxRole (generateMailboxSlug ''Inbox!'') = Inbox
   \<and> fst (validateMailboxName ''!!'') \<and> generateMailboxSlug ''!!'' = []"
  by code_simp

text \<open>
  The sorted mailbox list is a stable permutation with all system mailboxes first, each
  group in ascending order of its \<open>order\<close> field.
\<close>

theorem sortMailboxes_correct:
  "mset (sortMailboxes ms) = mset ms
   \<and> sorted_wrt (\<lambda>a b. (mb_isSystem b \<longrightarrow> mb_isSystem a)
        \<and> (mb_isSystem a = mb_isSystem b \<longrightarrow> mb_order a \<le> mb_order b)) (sortMailboxes ms)
   \<and> (\<forall>s k. filter (\<lambda>m. mb_isSystem m = s \<and> mb_order m = k) (sortMailboxes ms)
         = filter (\<lambda>m. mb_isSystem m = s \<and> mb_order m = k) ms)"
proof -
  have "filter (\<lambda>m. mb_isSystem m = s \<and> mb_order m = k) (sortMailboxes ms)
      = filter (\<lambda>m. mb_isSystem m = s \<and> mb_order m = k) ms" for s k
  proof -
    define x where "x = (undefined :: mailbox)\<lparr>mb_isSystem := s, mb_order := k\<rparr>"
    have "(\<lambda>m. mb_isSystem m = s \<and> mb_order m = k) = (\<lambda>m. mailbox_cmp x m = 0)"
      by (auto simp: x_def mailbox_cmp_def)
    then show ?thesis using mailbox_order.stable_js_sort by (simp add: sortMailboxes_def)
  qed
  moreover have "sorted_wrt (\<lambda>a b. (mb_isSystem b \<longrightarrow> mb_isSystem a)
      \<and> (mb_isSystem a = mb_isSystem b \<longrightarrow> mb_order a \<le> mb_order b)) (sortMailboxes ms)"
    using mailbox_order.sorted_js_sort [of ms] unfolding sortMailboxes_def
    by (rule sorted_wrt_mono_rel [rotated]) (auto simp: mailbox_cmp_def split: if_splits)
  ultimately show ?thesis by (simp add: sortMailboxes_def mset_js_sort)
qed

text \<open>
  The statistics of a mailbox are the sums over its threads; if no thread counts more unread
  messages than messages, neither does the mailbox.
\<close>

theorem calculateMailboxStats_sums:
  "tc_unreadCount (calculateMailboxStats ts) = sum_list (map tc_unreadCount ts)
   \<and> tc_messageCount (calculateMailboxStats ts) = sum_list (map tc_messageCount ts)
   \<and> ((\<forall>t \<in> set ts. tc_unreadCount t \<le> tc_messageCount t) \<longrightarrow>
        tc_unreadCount (calculateMailboxStats ts) \<le> tc_messageCount (calculateMailboxStats ts))"
  by (auto simp: calculateMailboxStats_eq intro: sum_list_mono)

theorem calculateMailboxStats_sums_witness:
  "tc_unreadCount (calculateMailboxStats [\<lparr>tc_unreadCount = 1, tc_messageCount = 3\<rparr>])
     \<le> tc_messageCount (calculateMailboxStats [\<lparr>tc_unreadCount = 1, tc_messageCount = 3\<rparr>])"
  using calculateMailboxStats_sums [of "[\<lparr>tc_unreadCount = 1, tc_messageCount = 3\<rparr>]"] by simp

end
