(* ===== verification/Forest.thy ===== *)
theory Forest
  imports Main "HOL-Library.Multiset"
begin

text \<open>
  A parent function on a finite list of keys, seen from its roots. The walk that starts at a key
  and follows the children is bounded by a fuel, and \<open>forest_level\<close> lists the keys at a given
  distance from the roots. The locale states what the client of such a structure relies on (the
  keys are distinct); its lemmas say that the walk from the roots meets every key of every level
  exactly once, that there are fewer non-empty levels than keys, and that all keys are met
  if the parents are ranked. Keys on a cycle of parents belong to no level.
\<close>

definition forest_children :: "'k list \<Rightarrow> ('k \<Rightarrow> 'k option) \<Rightarrow> 'k \<Rightarrow> 'k list" where
  "forest_children keys par k = filter (\<lambda>c. par c = Some k) keys"

fun forest_level :: "'k list \<Rightarrow> ('k \<Rightarrow> 'k option) \<Rightarrow> nat \<Rightarrow> 'k list" where
  "forest_level keys par 0 = filter (\<lambda>k. par k = None) keys"
| "forest_level keys par (Suc d) =
     filter (\<lambda>k. \<exists>p \<in> set (forest_level keys par d). par k = Some p) keys"

fun forest_walk :: "'k list \<Rightarrow> ('k \<Rightarrow> 'k option) \<Rightarrow> nat \<Rightarrow> 'k \<Rightarrow> 'k list" where
  "forest_walk keys par 0 k = []"
| "forest_walk keys par (Suc n) k = k # concat (map (forest_walk keys par n) (forest_children keys par k))"

lemma mset_filter_disjoint:
  "(\<And>x. x \<in> set xs \<Longrightarrow> \<not> (P x \<and> Q x)) \<Longrightarrow>
   mset (filter P xs) + mset (filter Q xs) = mset (filter (\<lambda>x. P x \<or> Q x) xs)"
  by (induction xs) auto

lemma mset_concat_map_cong:
  "mset xs = mset ys \<Longrightarrow> mset (concat (map f xs)) = mset (concat (map f ys))"
proof -
  have "mset (concat (map f zs)) = sum_mset (image_mset (\<lambda>z. mset (f z)) (mset zs))" for zs
    by (induction zs) auto
  moreover assume "mset xs = mset ys"
  ultimately show ?thesis by simp
qed

lemma mset_concat_map_mset_cong:
  "(\<And>x. x \<in> set xs \<Longrightarrow> mset (f x) = mset (g x)) \<Longrightarrow> mset (concat (map f xs)) = mset (concat (map g xs))"
  by (induction xs) auto

locale forest =
  fixes keys :: "'k list" and par :: "'k \<Rightarrow> 'k option"
  assumes distinct_keys: "distinct keys"
    and par_mem: "k \<in> set keys \<Longrightarrow> par k = Some p \<Longrightarrow> p \<in> set keys"
begin

lemma level_subset: "set (forest_level keys par d) \<subseteq> set keys"
  by (cases d) auto

lemma distinct_level: "distinct (forest_level keys par d)"
  using distinct_keys by (cases d) auto

lemma level_unique:
  "x \<in> set (forest_level keys par d) \<Longrightarrow> x \<in> set (forest_level keys par e) \<Longrightarrow> d = e"
proof (induction d arbitrary: x e)
  case 0
  then show ?case by (cases e) auto
next
  case (Suc d)
  then show ?case by (cases e) auto
qed

lemma level_down: "forest_level keys par (Suc d) \<noteq> [] \<Longrightarrow> forest_level keys par d \<noteq> []"
  by (auto simp: filter_empty_conv)

lemma level_nonempty_below: "forest_level keys par d \<noteq> [] \<Longrightarrow> e \<le> d \<Longrightarrow> forest_level keys par e \<noteq> []"
proof (induction d)
  case (Suc d)
  then show ?case by (metis le_Suc_eq level_down)
qed simp

lemma level_bound: "forest_level keys par d \<noteq> [] \<Longrightarrow> d < length keys"
proof -
  assume ne: "forest_level keys par d \<noteq> []"
  define x where "x e = hd (forest_level keys par e)" for e
  have mem: "x e \<in> set (forest_level keys par e)" if "e \<le> d" for e
    using level_nonempty_below [OF ne that] by (simp add: x_def)
  have "inj_on x {..d}"
    by (rule inj_onI) (metis atMost_iff level_unique mem)
  moreover have "x ` {..d} \<subseteq> set keys" using mem level_subset by auto
  ultimately have "card {..d} \<le> card (set keys)" by (meson card_inj_on_le List.finite_set)
  then show ?thesis by (simp add: distinct_card [OF distinct_keys])
qed

lemma children_of_list:
  "distinct S \<Longrightarrow> mset (concat (map (forest_children keys par) S))
     = mset (filter (\<lambda>c. \<exists>p \<in> set S. par c = Some p) keys)"
proof (induction S)
  case (Cons a S)
  have "mset (forest_children keys par a) + mset (filter (\<lambda>c. \<exists>p \<in> set S. par c = Some p) keys)
      = mset (filter (\<lambda>c. par c = Some a \<or> (\<exists>p \<in> set S. par c = Some p)) keys)"
    unfolding forest_children_def by (rule mset_filter_disjoint) (use Cons.prems in auto)
  with Cons show ?case by simp
qed simp

lemma walk_from_level:
  "mset (concat (map (forest_walk keys par (Suc n)) (forest_level keys par d)))
     = mset (forest_level keys par d)
       + mset (concat (map (forest_walk keys par n) (forest_level keys par (Suc d))))"
proof -
  have "mset (concat (map (forest_walk keys par (Suc n)) S))
      = mset S + mset (concat (map (forest_walk keys par n) (concat (map (forest_children keys par) S))))"
    for S by (induction S) auto
  moreover have "mset (concat (map (forest_children keys par) (forest_level keys par d)))
      = mset (forest_level keys par (Suc d))"
    using children_of_list [OF distinct_level] by simp
  ultimately show ?thesis using mset_concat_map_cong by metis
qed

lemma walk_levels:
  "mset (concat (map (forest_walk keys par n) (forest_level keys par d)))
     = mset (filter (\<lambda>k. \<exists>e. d \<le> e \<and> e < d + n \<and> k \<in> set (forest_level keys par e)) keys)"
proof (induction n arbitrary: d)
  case 0
  have "concat (map (forest_walk keys par 0) S) = []" for S by (induction S) auto
  then show ?case by simp
next
  case (Suc n)
  have "forest_level keys par d = filter (\<lambda>k. k \<in> set (forest_level keys par d)) keys"
    by (cases d) (simp_all cong: filter_cong)
  then have lvl: "mset (forest_level keys par d)
      = mset (filter (\<lambda>k. k \<in> set (forest_level keys par d)) keys)" by metis
  have "mset (filter (\<lambda>k. k \<in> set (forest_level keys par d)) keys)
      + mset (filter (\<lambda>k. \<exists>e. Suc d \<le> e \<and> e < Suc d + n \<and> k \<in> set (forest_level keys par e)) keys)
      = mset (filter (\<lambda>k. k \<in> set (forest_level keys par d)
          \<or> (\<exists>e. Suc d \<le> e \<and> e < Suc d + n \<and> k \<in> set (forest_level keys par e))) keys)"
    by (rule mset_filter_disjoint) (metis Suc_n_not_le_n level_unique)
  also have "\<dots> = mset (filter (\<lambda>k. \<exists>e. d \<le> e \<and> e < d + Suc n \<and> k \<in> set (forest_level keys par e)) keys)"
    by (intro arg_cong [where f = mset] filter_cong refl)
       (metis Suc_leD add_Suc_right add_Suc_shift le_add1 le_neq_implies_less less_add_Suc1 not_less_eq_eq
         linorder_not_le nat_less_le)
  finally show ?case unfolding walk_from_level Suc.IH lvl .
qed

text \<open>With fuel for all keys the walk from the roots meets every levelled key exactly once.\<close>

lemma walk_all:
  assumes "length keys \<le> n"
  shows "mset (concat (map (forest_walk keys par n) (forest_level keys par 0)))
     = mset (filter (\<lambda>k. \<exists>e. k \<in> set (forest_level keys par e)) keys)"
proof -
  have "(\<exists>e. 0 \<le> e \<and> e < 0 + n \<and> k \<in> set (forest_level keys par e)) = (\<exists>e. k \<in> set (forest_level keys par e))"
    for k using assms level_bound by (metis add_0 empty_iff empty_set le0 less_le_trans)
  then show ?thesis using walk_levels [of n 0] by simp
qed

lemma ranked_levelled:
  assumes rank: "\<And>k p. k \<in> set keys \<Longrightarrow> par k = Some p \<Longrightarrow> (rank p :: nat) < rank k"
    and "k \<in> set keys"
  shows "\<exists>d. k \<in> set (forest_level keys par d)"
  using assms(2)
proof (induction "rank k" arbitrary: k rule: less_induct)
  case less
  show ?case
  proof (cases "par k")
    case None
    with less.prems have "k \<in> set (forest_level keys par 0)" by simp
    then show ?thesis ..
  next
    case (Some p)
    with less rank par_mem obtain d where "p \<in> set (forest_level keys par d)" by blast
    with Some less.prems have "k \<in> set (forest_level keys par (Suc d))" by auto
    then show ?thesis ..
  qed
qed

lemma walk_all_ranked:
  assumes "\<And>k p. k \<in> set keys \<Longrightarrow> par k = Some p \<Longrightarrow> (rank p :: nat) < rank k"
    and "length keys \<le> n"
  shows "mset (concat (map (forest_walk keys par n) (forest_level keys par 0))) = mset keys"
proof -
  have "filter (\<lambda>k. \<exists>e. k \<in> set (forest_level keys par e)) keys = keys"
    using ranked_levelled [of rank] assms(1) by (auto simp: filter_id_conv)
  then show ?thesis using walk_all [OF assms(2)] by simp
qed

end

end
