(* ===== verification/Thread.thy ===== *)
theory Thread
  imports Message Forest
begin

text \<open>
  \<open>packages/core/src/mail/thread.ts\<close>: the summary of a thread, the membership test, and the
  conversation tree.

  \<open>buildThreadTree\<close> works on shared mutable node objects, so its model has a store: \<open>nodeMap\<close>
  maps a message id to its node, and a child is the key of its node. The recursion of
  \<open>sortChildren\<close> follows the children; it is bounded here by one more than the number of nodes,
  which a path without repetition cannot exceed, and running out of it is the stack overflow
  (\<open>RangeError\<close>) of a cyclic structure. \<open>buildThreadTree_total\<close> shows that this never happens when
  message ids are distinct.
\<close>

record thread =
  th_id :: string
  th_ownerId :: string
  th_subject :: string
  th_snippet :: string
  th_messageCount :: nat
  th_unreadCount :: nat
  th_starred :: bool
  th_hasAttachments :: bool
  th_latestMessageAt :: date
  th_participants :: "address list"
  th_createdAt :: date
  th_updatedAt :: date

record thread_aggregates =
  ta_unreadCount :: nat
  ta_starred :: bool
  ta_hasAttachments :: bool
  ta_messageCount :: nat

subsection \<open>Summaries\<close>

definition latest_first :: "message \<Rightarrow> message \<Rightarrow> int" where
  "latest_first a b = msg_date b - msg_date a"

definition add_participants :: "(string, address) js_map \<Rightarrow> message \<Rightarrow> (string, address) js_map" where
  "add_participants pm msg =
     foldl (\<lambda>pm a. put_absent (ad_email a) a pm)
       (put_absent (ad_email (msg_from msg)) (msg_from msg) pm) (msg_to msg)"

definition groupMessagesIntoThread :: "message list \<Rightarrow> thread option" where
  "groupMessagesIntoThread messages =
     (if messages = [] then None
      else let sorted = js_sort latest_first messages;
               latest = hd sorted; oldest = last sorted;
               participantMap = foldl add_participants [] messages
           in Some \<lparr>th_id = msg_threadId latest, th_ownerId = msg_ownerId latest,
                th_subject = cleanSubject (msg_subject latest), th_snippet = msg_snippet latest,
                th_messageCount = length messages,
                th_unreadCount = length (filter (\<lambda>m. \<not> msg_seen m) messages),
                th_starred = list_ex msg_flagged messages,
                th_hasAttachments = list_ex msg_hasAttachments messages,
                th_latestMessageAt = msg_date latest,
                th_participants = map snd participantMap,
                th_createdAt = msg_createdAt oldest, th_updatedAt = msg_updatedAt latest\<rparr>)"

definition calculateThreadAggregates :: "message list \<Rightarrow> thread_aggregates" where
  "calculateThreadAggregates messages =
     \<lparr>ta_unreadCount = length (filter (\<lambda>m. \<not> msg_seen m) messages),
      ta_starred = list_ex msg_flagged messages,
      ta_hasAttachments = list_ex msg_hasAttachments messages,
      ta_messageCount = length messages\<rparr>"

definition getThreadPreview :: "message list \<Rightarrow> nat \<Rightarrow> message list" where
  "getThreadPreview messages n = take n (js_sort latest_first messages)"

subsection \<open>Membership\<close>

definition isMessageInThread :: "message \<Rightarrow> message list \<Rightarrow> bool" where
  "isMessageInThread message threadMessages =
     (let messageId = msg_messageId message; inReplyTo = msg_inReplyTo message;
          references = msg_references message;
          threadMessageIds = map (\<lambda>m. nullish (msg_messageId m) [])
            (filter (\<lambda>m. truthy (msg_messageId m)) threadMessages)
      in if list_ex (\<lambda>tm. truthy (msg_messageId tm)
              \<and> (msg_inReplyTo tm = messageId \<or> or_default messageId [] \<in> set (msg_references tm)))
            threadMessages then True
         else if truthy inReplyTo \<and> nullish inReplyTo [] \<in> set threadMessageIds then True
         else list_ex (\<lambda>ref. ref \<in> set threadMessageIds) references)"

subsection \<open>The conversation tree\<close>

datatype thread_node = TNode (tn_message: message) (tn_children: "thread_node list") (tn_depth: nat)

record node_object =
  no_message :: message
  no_children :: "string list"
  no_depth :: nat

type_synonym node_store = "(string, node_object) js_map"

text \<open>The two index loops.\<close>

definition index_message :: "(string, message) js_map \<Rightarrow> message \<Rightarrow> (string, message) js_map" where
  "index_message mm msg =
     (if truthy (msg_messageId msg) then AList.update (nullish (msg_messageId msg) []) msg mm else mm)"

definition create_node :: "node_store \<Rightarrow> message \<Rightarrow> node_store" where
  "create_node nm msg = AList.update (msg_id msg) \<lparr>no_message = msg, no_children = [], no_depth = 0\<rparr> nm"

definition message_map :: "message list \<Rightarrow> (string, message) js_map" where
  "message_map messages = foldl index_message [] messages"

definition node_map :: "message list \<Rightarrow> node_store" where
  "node_map messages = foldl create_node [] messages"

text \<open>
  The parent of a message: the message it replies to, else the last of its references that is
  among the messages. The node of a message that is in \<open>messageMap\<close> always exists.
\<close>

definition lookup_parent :: "(string, message) js_map \<Rightarrow> node_store \<Rightarrow> string \<Rightarrow> string option" where
  "lookup_parent mm nm ref =
     (case map_of mm ref of
        None \<Rightarrow> None
      | Some parentMsg \<Rightarrow>
          (case map_of nm (msg_id parentMsg) of None \<Rightarrow> None | Some _ \<Rightarrow> Some (msg_id parentMsg)))"

fun first_parent :: "(string, message) js_map \<Rightarrow> node_store \<Rightarrow> string list \<Rightarrow> string option" where
  "first_parent mm nm [] = None"
| "first_parent mm nm (ref # refs) =
     (case lookup_parent mm nm ref of Some p \<Rightarrow> Some p | None \<Rightarrow> first_parent mm nm refs)"

definition find_parent :: "(string, message) js_map \<Rightarrow> node_store \<Rightarrow> message \<Rightarrow> string option" where
  "find_parent mm nm msg =
     (case (if truthy (msg_inReplyTo msg) then lookup_parent mm nm (nullish (msg_inReplyTo msg) []) else None) of
        Some p \<Rightarrow> Some p
      | None \<Rightarrow> first_parent mm nm (rev (msg_references msg)))"

text \<open>\<open>parentNode.children.push(node); node.depth = parentNode.depth + 1;\<close> in the store.\<close>

definition push_child :: "string \<Rightarrow> string \<Rightarrow> node_store \<Rightarrow> node_store" where
  "push_child p k nm =
     (case map_of nm p of None \<Rightarrow> nm
      | Some nd \<Rightarrow> AList.update p (nd\<lparr>no_children := no_children nd @ [k]\<rparr>) nm)"

definition set_depth :: "string \<Rightarrow> string \<Rightarrow> node_store \<Rightarrow> node_store" where
  "set_depth p k nm =
     (case map_of nm k of None \<Rightarrow> nm
      | Some nd \<Rightarrow> (case map_of nm p of None \<Rightarrow> nm
           | Some pd \<Rightarrow> AList.update k (nd\<lparr>no_depth := no_depth pd + 1\<rparr>) nm))"

definition link_message :: "(string, message) js_map \<Rightarrow> node_store \<times> string list \<Rightarrow> message
    \<Rightarrow> node_store \<times> string list" where
  "link_message mm st msg =
     (case st of (nm, roots) \<Rightarrow>
        (case find_parent mm nm msg of
           Some p \<Rightarrow> (set_depth p (msg_id msg) (push_child p (msg_id msg) nm), roots)
         | None \<Rightarrow> (nm, roots @ [msg_id msg])))"

definition link_all :: "message list \<Rightarrow> node_store \<times> string list" where
  "link_all messages =
     foldl (link_message (message_map messages)) (node_map messages, []) messages"

text \<open>\<open>sortChildren\<close>, reading the sorted tree off the store.\<close>

definition node_date :: "node_store \<Rightarrow> string \<Rightarrow> date" where
  "node_date nm k = (case map_of nm k of None \<Rightarrow> 0 | Some nd \<Rightarrow> msg_date (no_message nd))"

definition node_cmp :: "node_store \<Rightarrow> string \<Rightarrow> string \<Rightarrow> int" where
  "node_cmp nm a b = node_date nm a - node_date nm b"

fun sort_children :: "nat \<Rightarrow> node_store \<Rightarrow> string \<Rightarrow> thread_node option" where
  "sort_children 0 nm k = None"
| "sort_children (Suc fuel) nm k =
     (case map_of nm k of
        None \<Rightarrow> None
      | Some nd \<Rightarrow>
          map_option (\<lambda>cs. TNode (no_message nd) cs (no_depth nd))
            (those (map (sort_children fuel nm) (js_sort (node_cmp nm) (no_children nd)))))"

definition buildThreadTree :: "message list \<Rightarrow> js_error + thread_node list" where
  "buildThreadTree messages =
     (case link_all messages of (nm, roots) \<Rightarrow>
        (case those (map (sort_children (Suc (length nm)) nm) (js_sort (node_cmp nm) roots)) of
           None \<Rightarrow> Inl RangeError
         | Some ts \<Rightarrow> Inr ts))"

fun flatten_node :: "thread_node \<Rightarrow> message list" where
  "flatten_node (TNode m cs d) = m # concat (map flatten_node cs)"

definition flattenThreadTree :: "thread_node list \<Rightarrow> message list" where
  "flattenThreadTree roots = concat (map flatten_node roots)"

subsection \<open>Lemmas: the store\<close>

lemma fst_update_old: "k \<in> fst ` set m \<Longrightarrow> map fst (AList.update k v m) = map fst m"
  by (induction m) auto

lemma update_new: "k \<notin> fst ` set m \<Longrightarrow> AList.update k v m = m @ [(k, v)]"
  by (induction m) auto

lemma map_of_SomeD_fst: "map_of m k = Some v \<Longrightarrow> k \<in> fst ` set m"
  by (metis map_of_eq_None_iff option.distinct(1))

lemma map_of_fst_Some: "k \<in> fst ` set m \<Longrightarrow> \<exists>v. map_of m k = Some v"
  by (metis map_of_eq_None_iff not_None_eq)

lemma same_keys_None: "map fst m = map fst m' \<Longrightarrow> map_of m k = None \<longleftrightarrow> map_of m' k = None"
  by (metis list.set_map map_of_eq_None_iff)

lemma distinct_node_map: "distinct (map fst (node_map messages))"
  by (induction messages rule: rev_induct) (auto simp: node_map_def create_node_def distinct_update)

lemma node_map_distinct:
  "distinct (map msg_id messages) \<Longrightarrow>
   node_map messages = map (\<lambda>m. (msg_id m, \<lparr>no_message = m, no_children = [], no_depth = 0\<rparr>)) messages"
proof (induction messages rule: rev_induct)
  case (snoc m ms)
  then have "msg_id m \<notin> fst ` set (node_map ms)" by (auto simp: image_iff)
  with snoc show ?case by (simp add: node_map_def create_node_def update_new)
qed (simp add: node_map_def)

lemma fst_push_child: "map fst (push_child p k nm) = map fst nm"
  by (auto simp: push_child_def fst_update_old [OF map_of_SomeD_fst] split: option.split)

lemma fst_set_depth: "map fst (set_depth p k nm) = map fst nm"
  by (auto simp: set_depth_def fst_update_old [OF map_of_SomeD_fst] split: option.split)

lemma lookup_parent_alt:
  "lookup_parent mm nm ref =
     (case map_of mm ref of None \<Rightarrow> None
      | Some pm \<Rightarrow> if map_of nm (msg_id pm) = None then None else Some (msg_id pm))"
  by (auto simp: lookup_parent_def split: option.split)

lemma lookup_parent_keys: "map fst nm = map fst nm' \<Longrightarrow> lookup_parent mm nm r = lookup_parent mm nm' r"
  by (simp add: lookup_parent_alt same_keys_None [of nm nm'] cong: option.case_cong)

lemma first_parent_keys: "map fst nm = map fst nm' \<Longrightarrow> first_parent mm nm rs = first_parent mm nm' rs"
  by (induction rs) (simp_all add: lookup_parent_keys [of nm nm'] cong: option.case_cong)

lemma find_parent_keys: "map fst nm = map fst nm' \<Longrightarrow> find_parent mm nm m = find_parent mm nm' m"
  by (simp add: find_parent_def lookup_parent_keys [of nm nm'] first_parent_keys [of nm nm'] cong: option.case_cong)

lemma lookup_parent_mem: "lookup_parent mm nm r = Some p \<Longrightarrow> p \<in> fst ` set nm"
  by (auto simp: lookup_parent_def dest: map_of_SomeD_fst split: option.splits)

lemma first_parent_mem: "first_parent mm nm rs = Some p \<Longrightarrow> p \<in> fst ` set nm"
  by (induction rs) (auto dest: lookup_parent_mem split: option.splits)

lemma find_parent_mem: "find_parent mm nm m = Some p \<Longrightarrow> p \<in> fst ` set nm"
  by (auto simp: find_parent_def dest: lookup_parent_mem first_parent_mem split: option.splits if_splits)

subsection \<open>Lemmas: the forest of a message list\<close>

definition message_parent :: "message list \<Rightarrow> message \<Rightarrow> string option" where
  "message_parent messages m = find_parent (message_map messages) (node_map messages) m"

definition node_parent :: "message list \<Rightarrow> string \<Rightarrow> string option" where
  "node_parent messages k =
     (case map_of (node_map messages) k of None \<Rightarrow> None | Some nd \<Rightarrow> message_parent messages (no_message nd))"

abbreviation thread_keys :: "message list \<Rightarrow> string list" where
  "thread_keys messages \<equiv> map fst (node_map messages)"

interpretation thread_forest: forest "thread_keys messages" "node_parent messages" for messages
  by unfold_locales
     (auto simp: distinct_node_map node_parent_def message_parent_def dest: find_parent_mem split: option.splits)

text \<open>What the store holds after linking the messages \<open>xs\<close>.\<close>

definition linked :: "message list \<Rightarrow> message list \<Rightarrow> node_store \<times> string list \<Rightarrow> bool" where
  "linked messages xs st \<longleftrightarrow>
     map fst (fst st) = thread_keys messages
     \<and> (\<forall>k nd0. map_of (node_map messages) k = Some nd0 \<longrightarrow>
          (\<exists>nd. map_of (fst st) k = Some nd \<and> no_message nd = no_message nd0
             \<and> no_children nd = map msg_id (filter (\<lambda>m. message_parent messages m = Some k) xs)))
     \<and> snd st = map msg_id (filter (\<lambda>m. message_parent messages m = None) xs)"

lemma node_map_no_children: "map_of (node_map messages) k = Some nd \<Longrightarrow> no_children nd = []"
  by (induction messages arbitrary: nd rule: rev_induct)
     (auto simp: node_map_def create_node_def update_conv' split: if_splits)

lemma linked_init: "linked messages [] (node_map messages, [])"
  by (auto simp: linked_def dest: node_map_no_children)

lemma push_child_lookup:
  "map_of (push_child p k nm) j =
     (if j = p then map_option (\<lambda>nd. nd\<lparr>no_children := no_children nd @ [k]\<rparr>) (map_of nm p) else map_of nm j)"
  by (auto simp: push_child_def update_conv' split: option.splits)

lemma set_depth_lookup:
  "map_of nm j = Some nd \<Longrightarrow>
   \<exists>d. map_of (set_depth p k nm) j = Some (nd\<lparr>no_depth := d\<rparr>)"
  by (auto simp: set_depth_def update_conv' split: option.splits intro: exI [of _ "no_depth nd"])

lemma linked_step:
  assumes inv: "linked messages xs st"
  shows "linked messages (xs @ [m]) (link_message (message_map messages) st m)"
proof -
  obtain nm roots where st: "st = (nm, roots)" by fastforce
  have keys: "map fst nm = thread_keys messages" using inv by (simp add: linked_def st)
  have par: "find_parent (message_map messages) nm m = message_parent messages m"
    by (simp add: message_parent_def find_parent_keys [OF keys])
  show ?thesis
  proof (cases "message_parent messages m")
    case None
    with inv par show ?thesis by (simp add: linked_def st link_message_def)
  next
    case (Some p)
    let ?nm = "set_depth p (msg_id m) (push_child p (msg_id m) nm)"
    have "\<exists>nd. map_of ?nm k = Some nd \<and> no_message nd = no_message nd0
        \<and> no_children nd = map msg_id (filter (\<lambda>m. message_parent messages m = Some k) (xs @ [m]))"
      if "map_of (node_map messages) k = Some nd0" for k nd0
    proof -
      from that inv obtain nd where nd: "map_of nm k = Some nd" "no_message nd = no_message nd0"
        "no_children nd = map msg_id (filter (\<lambda>m. message_parent messages m = Some k) xs)"
        by (auto simp: linked_def st)
      let ?nd = "if k = p then nd\<lparr>no_children := no_children nd @ [msg_id m]\<rparr> else nd"
      have "map_of (push_child p (msg_id m) nm) k = Some ?nd" using nd(1) by (auto simp: push_child_lookup)
      from set_depth_lookup [OF this] obtain d where "map_of ?nm k = Some (?nd\<lparr>no_depth := d\<rparr>)" by blast
      with nd Some show ?thesis by (cases "k = p") simp_all
    qed
    with inv par Some show ?thesis
      by (simp add: linked_def st link_message_def fst_set_depth fst_push_child)
  qed
qed

lemma linked_all: "linked messages messages (link_all messages)"
proof -
  have "linked messages xs (foldl (link_message (message_map messages)) (node_map messages, []) xs)" for xs
    by (induction xs rule: rev_induct) (auto intro: linked_init linked_step)
  then show ?thesis by (simp add: link_all_def)
qed

subsection \<open>Lemmas: the tree read off the store\<close>

lemma thread_keys_distinct: "distinct (map msg_id messages) \<Longrightarrow> thread_keys messages = map msg_id messages"
  by (simp add: node_map_distinct)

lemma node_map_lookup:
  "distinct (map msg_id messages) \<Longrightarrow> m \<in> set messages \<Longrightarrow>
   map_of (node_map messages) (msg_id m) = Some \<lparr>no_message = m, no_children = [], no_depth = 0\<rparr>"
  by (simp add: node_map_distinct) (induction messages, auto simp: image_iff)

lemma node_parent_message:
  "distinct (map msg_id messages) \<Longrightarrow> m \<in> set messages \<Longrightarrow>
   node_parent messages (msg_id m) = message_parent messages m"
  by (simp add: node_parent_def node_map_lookup)

lemma children_as_keys:
  "distinct (map msg_id messages) \<Longrightarrow>
   map msg_id (filter (\<lambda>m. message_parent messages m = q) messages)
     = filter (\<lambda>k. node_parent messages k = q) (thread_keys messages)"
  by (simp add: thread_keys_distinct filter_map node_parent_message o_def cong: filter_cong)

lemma link_all_store:
  assumes d: "distinct (map msg_id messages)" and link: "link_all messages = (nm, roots)"
  shows "length nm = length messages"
    and "roots = forest_level (thread_keys messages) (node_parent messages) 0"
    and "m \<in> set messages \<Longrightarrow> \<exists>nd. map_of nm (msg_id m) = Some nd \<and> no_message nd = m
       \<and> no_children nd = forest_children (thread_keys messages) (node_parent messages) (msg_id m)"
proof -
  have inv: "linked messages messages (nm, roots)" using linked_all [of messages] by (simp add: link)
  then have "map fst nm = map msg_id messages" by (simp add: linked_def thread_keys_distinct [OF d])
  then show "length nm = length messages" by (metis length_map)
  show "roots = forest_level (thread_keys messages) (node_parent messages) 0"
    using inv children_as_keys [OF d] by (simp add: linked_def)
  assume "m \<in> set messages"
  then have "map_of (node_map messages) (msg_id m) = Some \<lparr>no_message = m, no_children = [], no_depth = 0\<rparr>"
    by (rule node_map_lookup [OF d])
  then show "\<exists>nd. map_of nm (msg_id m) = Some nd \<and> no_message nd = m
       \<and> no_children nd = forest_children (thread_keys messages) (node_parent messages) (msg_id m)"
    using inv children_as_keys [OF d] by (force simp: linked_def forest_children_def)
qed

lemma those_map_Some:
  "(\<And>x. x \<in> set xs \<Longrightarrow> \<exists>y. f x = Some y) \<Longrightarrow> those (map f xs) = Some (map (\<lambda>x. the (f x)) xs)"
  by (induction xs) force+

lemma child_next_level:
  "k \<in> set (forest_level keys par d) \<Longrightarrow> c \<in> set (forest_children keys par k) \<Longrightarrow>
   c \<in> set (forest_level keys par (Suc d))"
  by (auto simp: forest_children_def)

lemma sort_children_walk:
  assumes d: "distinct (map msg_id messages)" and link: "link_all messages = (nm, roots)"
    and "k \<in> set (forest_level (thread_keys messages) (node_parent messages) e)"
    and "forest_level (thread_keys messages) (node_parent messages) (e + n) = []"
  shows "\<exists>t. sort_children n nm k = Some t
     \<and> mset (map msg_id (flatten_node t)) = mset (forest_walk (thread_keys messages) (node_parent messages) n k)
     \<and> set (flatten_node t) \<subseteq> set messages"
  using assms(3-)
proof (induction n arbitrary: k e)
  case (Suc n)
  let ?ks = "thread_keys messages" and ?par = "node_parent messages"
  from Suc.prems(1) thread_forest.level_subset obtain m where m: "m \<in> set messages" "k = msg_id m"
    by (fastforce simp: thread_keys_distinct [OF d])
  with link_all_store(3) [OF d link] obtain nd where nd: "map_of nm k = Some nd" "no_message nd = m"
    "no_children nd = forest_children ?ks ?par k" by blast
  let ?cs = "js_sort (node_cmp nm) (no_children nd)"
  let ?t = "\<lambda>c. the (sort_children n nm c)"
  have IH: "\<exists>t. sort_children n nm c = Some t
     \<and> mset (map msg_id (flatten_node t)) = mset (forest_walk ?ks ?par n c)
     \<and> set (flatten_node t) \<subseteq> set messages" if "c \<in> set ?cs" for c
  proof (rule Suc.IH)
    show "c \<in> set (forest_level ?ks ?par (Suc e))"
      using that by (intro child_next_level [OF Suc.prems(1)]) (simp add: set_js_sort nd)
    show "forest_level ?ks ?par (Suc e + n) = []" using Suc.prems(2) by (metis add_Suc_shift)
  qed
  then have those: "those (map (sort_children n nm) ?cs) = Some (map ?t ?cs)"
    by (intro those_map_Some) blast
  have "mset (map msg_id (concat (map flatten_node (map ?t ?cs))))
      = mset (concat (map (\<lambda>c. map msg_id (flatten_node (?t c))) ?cs))"
    by (simp add: map_concat o_def)
  also have "\<dots> = mset (concat (map (forest_walk ?ks ?par n) ?cs))"
    by (rule mset_concat_map_mset_cong) (use IH in fastforce)
  also have "\<dots> = mset (concat (map (forest_walk ?ks ?par n) (forest_children ?ks ?par k)))"
    by (rule mset_concat_map_cong) (simp add: mset_js_sort nd)
  finally have "mset (map msg_id (concat (map flatten_node (map ?t ?cs))))
      = mset (concat (map (forest_walk ?ks ?par n) (forest_children ?ks ?par k)))" .
  moreover have "set (concat (map flatten_node (map ?t ?cs))) \<subseteq> set messages" using IH by fastforce
  ultimately show ?case using m nd those by auto
qed simp

text \<open>Every branch of the walk ends, for lack of a level with as many steps as there are keys.\<close>

lemma buildThreadTree_walk:
  assumes d: "distinct (map msg_id messages)"
  shows "\<exists>ts. buildThreadTree messages = Inr ts
     \<and> mset (map msg_id (flattenThreadTree ts))
        = mset (concat (map (forest_walk (thread_keys messages) (node_parent messages) (Suc (length messages)))
            (forest_level (thread_keys messages) (node_parent messages) 0)))
     \<and> set (flattenThreadTree ts) \<subseteq> set messages"
proof -
  let ?ks = "thread_keys messages" and ?par = "node_parent messages"
  obtain nm roots where link: "link_all messages = (nm, roots)" by fastforce
  note st = link_all_store(1,2) [OF d link]
  let ?n = "Suc (length nm)" and ?rs = "js_sort (node_cmp nm) roots"
  let ?t = "\<lambda>c. the (sort_children ?n nm c)"
  have "forest_level ?ks ?par (0 + ?n) = []"
    using thread_forest.level_bound [of messages "0 + ?n"] st(1) thread_keys_distinct [OF d] by fastforce
  then have W: "\<exists>t. sort_children ?n nm k = Some t
     \<and> mset (map msg_id (flatten_node t)) = mset (forest_walk ?ks ?par ?n k)
     \<and> set (flatten_node t) \<subseteq> set messages" if "k \<in> set ?rs" for k
    using that st(2) by (intro sort_children_walk [OF d link, where e = 0]) simp_all
  then have those: "those (map (sort_children ?n nm) ?rs) = Some (map ?t ?rs)"
    by (intro those_map_Some) blast
  have "mset (map msg_id (flattenThreadTree (map ?t ?rs)))
      = mset (concat (map (\<lambda>c. map msg_id (flatten_node (?t c))) ?rs))"
    by (simp add: flattenThreadTree_def map_concat o_def)
  also have "\<dots> = mset (concat (map (forest_walk ?ks ?par ?n) ?rs))"
    by (rule mset_concat_map_mset_cong) (use W in fastforce)
  also have "\<dots> = mset (concat (map (forest_walk ?ks ?par ?n) roots))"
    by (rule mset_concat_map_cong) (simp add: mset_js_sort)
  finally have "mset (map msg_id (flattenThreadTree (map ?t ?rs)))
      = mset (concat (map (forest_walk ?ks ?par ?n) roots))" .
  moreover have "set (flattenThreadTree (map ?t ?rs)) \<subseteq> set messages"
    using W by (fastforce simp: flattenThreadTree_def)
  moreover have "buildThreadTree messages = Inr (map ?t ?rs)"
    using those by (simp only: buildThreadTree_def link case_prod_conv option.case)
  ultimately show ?thesis unfolding st by blast
qed

definition sample_message :: "string \<Rightarrow> string option \<Rightarrow> string option \<Rightarrow> string list \<Rightarrow> date \<Rightarrow> message" where
  "sample_message i mid irt refs d =
     \<lparr>msg_id = i, msg_threadId = ''t'', msg_mailboxId = ''m'', msg_ownerId = ''o'',
      msg_messageId = mid, msg_inReplyTo = irt, msg_references = refs, msg_subject = ''s'',
      msg_from = \<lparr>ad_email = ''a@b.c'', ad_name = None\<rparr>, msg_to = [], msg_cc = None, msg_bcc = None,
      msg_replyTo = None, msg_date = d, msg_text = None, msg_html = None, msg_snippet = [],
      msg_seen = False, msg_flagged = False, msg_answered = False, msg_draft = False,
      msg_hasAttachments = False, msg_sizeBytes = 0, msg_createdAt = d, msg_updatedAt = d\<rparr>"

subsection \<open>Lemmas: summaries\<close>

interpretation latest_order: key_comparator "\<lambda>m. - msg_date m" latest_first
  by unfold_locales (simp add: latest_first_def)

definition keyed_by_email :: "(string, address) js_map \<Rightarrow> bool" where
  "keyed_by_email pm \<longleftrightarrow> distinct (map fst pm) \<and> (\<forall>(k, a) \<in> set pm. ad_email a = k)"

definition message_emails :: "message \<Rightarrow> string set" where
  "message_emails m = ad_email ` insert (msg_from m) (set (msg_to m))"

lemma put_absent_participant:
  "keyed_by_email pm \<Longrightarrow> keyed_by_email (put_absent (ad_email a) a pm)
     \<and> fst ` set (put_absent (ad_email a) a pm) = insert (ad_email a) (fst ` set pm)"
  by (cases "ad_email a \<in> fst ` set pm")
     (auto simp: keyed_by_email_def put_absent_new put_absent_old)

lemma put_all_participants:
  "keyed_by_email pm \<Longrightarrow> keyed_by_email (foldl (\<lambda>pm a. put_absent (ad_email a) a pm) pm as)
     \<and> fst ` set (foldl (\<lambda>pm a. put_absent (ad_email a) a pm) pm as) = fst ` set pm \<union> ad_email ` set as"
proof (induction "as" arbitrary: pm)
  case (Cons a "as")
  with put_absent_participant [OF Cons.prems, of a] show ?case by simp
qed simp

lemma add_participants_step:
  "keyed_by_email pm \<Longrightarrow> keyed_by_email (add_participants pm m)
     \<and> fst ` set (add_participants pm m) = fst ` set pm \<union> message_emails m"
  using put_absent_participant [of pm "msg_from m"]
    put_all_participants [of "put_absent (ad_email (msg_from m)) (msg_from m) pm" "msg_to m"]
  by (simp add: add_participants_def message_emails_def)

lemma participants_all:
  "keyed_by_email (foldl add_participants [] ms)
     \<and> fst ` set (foldl add_participants [] ms) = \<Union> (message_emails ` set ms)"
proof (induction ms rule: rev_induct)
  case (snoc m ms)
  with add_participants_step [of "foldl add_participants [] ms" m] show ?case by auto
qed (simp add: keyed_by_email_def)

lemma keyed_by_email_values:
  "keyed_by_email pm \<Longrightarrow> map ad_email (map snd pm) = map fst pm"
  by (auto simp: keyed_by_email_def)

lemma truthy_iff: "truthy v \<longleftrightarrow> (\<exists>s. v = Some s \<and> s \<noteq> [])"
  by (cases v) auto

lemma thread_ids:
  "r \<in> set (map (\<lambda>m. nullish (msg_messageId m) []) (filter (\<lambda>m. truthy (msg_messageId m)) ts))
     \<longleftrightarrow> r \<noteq> [] \<and> (\<exists>m \<in> set ts. msg_messageId m = Some r)"
  by (force simp: truthy_iff image_iff)

subsection \<open>Properties\<close>

text \<open>
  The summary of a thread exists exactly for a non-empty message list; its counters and flags
  are those of \<open>calculateThreadAggregates\<close>; its date is the greatest date of a message; and its
  participants are the senders and recipients of the messages, each address once.
\<close>

theorem groupMessagesIntoThread_summary:
  "case groupMessagesIntoThread messages of
     None \<Rightarrow> messages = []
   | Some t \<Rightarrow> messages \<noteq> []
      \<and> calculateThreadAggregates messages = \<lparr>ta_unreadCount = th_unreadCount t, ta_starred = th_starred t,
          ta_hasAttachments = th_hasAttachments t, ta_messageCount = th_messageCount t\<rparr>
      \<and> th_latestMessageAt t = Max (msg_date ` set messages)
      \<and> distinct (map ad_email (th_participants t))
      \<and> ad_email ` set (th_participants t) = \<Union> (message_emails ` set messages)"
proof (cases "messages = []")
  case False
  let ?l = "hd (js_sort latest_first messages)" and ?pm = "foldl add_participants [] messages"
  have mem: "?l \<in> set messages" using False by (metis hd_in_set js_sort_eq_Nil set_js_sort)
  have "msg_date ?l = Max (msg_date ` set messages)"
    using mem latest_order.hd_least_key [of _ messages] by (intro Max_eqI [symmetric]) auto
  moreover have "map ad_email (map snd ?pm) = map fst ?pm"
    using participants_all [of messages] by (intro keyed_by_email_values) simp
  then have "distinct (map ad_email (map snd ?pm))" "ad_email ` set (map snd ?pm) = \<Union> (message_emails ` set messages)"
    using participants_all [of messages] by (simp_all only: keyed_by_email_def) (metis list.set_map)
  ultimately show ?thesis using False
    by (simp add: groupMessagesIntoThread_def calculateThreadAggregates_def Let_def)
qed (simp add: groupMessagesIntoThread_def)

text \<open>
  A message with a Message-ID belongs to a thread exactly when some identified message of the
  thread replies to it or lists it in its references, or it replies to or references an identified
  message of the thread.
\<close>

theorem isMessageInThread_iff:
  "msg_messageId message = Some mid \<Longrightarrow> mid \<noteq> [] \<Longrightarrow>
   isMessageInThread message ts \<longleftrightarrow>
     (\<exists>tm \<in> set ts. truthy (msg_messageId tm)
        \<and> (msg_inReplyTo tm = Some mid \<or> mid \<in> set (msg_references tm)
           \<or> msg_inReplyTo message = msg_messageId tm
           \<or> the (msg_messageId tm) \<in> set (msg_references message)))"
  unfolding isMessageInThread_def Let_def thread_ids
  by (auto simp: list_ex_iff truthy_iff)

theorem isMessageInThread_iff_witness:
  "isMessageInThread (sample_message ''2'' (Some ''b'') (Some ''a'') [] 1) [sample_message ''1'' (Some ''a'') None [] 0]"
proof -
  have "msg_messageId (sample_message ''2'' (Some ''b'') (Some ''a'') [] 1) = Some ''b''"
    by (simp add: sample_message_def)
  from isMessageInThread_iff [OF this, of "[sample_message ''1'' (Some ''a'') None [] 0]"]
  show ?thesis by (simp add: sample_message_def)
qed

text \<open>
  Without a Message-ID the first test compares two missing values: a message that has no
  Message-ID, replies to nothing and references nothing is in every thread whose first message is
  the start of a conversation.
\<close>

theorem isMessageInThread_missing_id:
  "isMessageInThread (sample_message ''9'' None None [] 5) [sample_message ''1'' (Some ''a'') None [] 0]"
  by code_simp


text \<open>
  C21. \<open>buildThreadTree\<close> always returns when the message ids are distinct: the recursion of
  \<open>sortChildren\<close> ends whatever the replies refer to, cycles included. The tree holds messages
  of the input only, and none of them twice.
\<close>

theorem buildThreadTree_total:
  "distinct (map msg_id messages) \<Longrightarrow>
   \<exists>ts. buildThreadTree messages = Inr ts \<and> set (flattenThreadTree ts) \<subseteq> set messages
     \<and> distinct (map msg_id (flattenThreadTree ts))"
proof -
  assume d: "distinct (map msg_id messages)"
  from buildThreadTree_walk [OF d] obtain ts where ts: "buildThreadTree messages = Inr ts"
    "mset (map msg_id (flattenThreadTree ts))
        = mset (concat (map (forest_walk (thread_keys messages) (node_parent messages) (Suc (length messages)))
            (forest_level (thread_keys messages) (node_parent messages) 0)))"
    "set (flattenThreadTree ts) \<subseteq> set messages" by blast
  have "mset (map msg_id (flattenThreadTree ts))
      = mset (filter (\<lambda>k. \<exists>e. k \<in> set (forest_level (thread_keys messages) (node_parent messages) e))
          (thread_keys messages))"
    unfolding ts(2) by (rule thread_forest.walk_all) (simp add: thread_keys_distinct [OF d])
  moreover have "distinct (filter (\<lambda>k. \<exists>e. k \<in> set (forest_level (thread_keys messages) (node_parent messages) e))
          (thread_keys messages))" by (simp add: distinct_node_map)
  ultimately have "distinct (map msg_id (flattenThreadTree ts))" by (metis mset_eq_imp_distinct_iff)
  with ts show ?thesis by blast
qed

text \<open>Two messages that reply to each other.\<close>

theorem buildThreadTree_total_witness:
  "distinct (map msg_id [sample_message ''1'' (Some ''a'') (Some ''b'') [] 0,
      sample_message ''2'' (Some ''b'') (Some ''a'') [] 1])
   \<and> (\<exists>ts. buildThreadTree [sample_message ''1'' (Some ''a'') (Some ''b'') [] 0,
          sample_message ''2'' (Some ''b'') (Some ''a'') [] 1] = Inr ts)"
  using buildThreadTree_total [of "[sample_message ''1'' (Some ''a'') (Some ''b'') [] 0,
      sample_message ''2'' (Some ''b'') (Some ''a'') [] 1]"]
  by (auto simp: sample_message_def)

text \<open>
  C22. No message is lost from a conversation whose replies are well founded (a rank that
  decreases from a message to its parent, such as the order of sending): flattening the tree
  gives back exactly the messages, each once.
\<close>

theorem buildThreadTree_complete:
  "distinct (map msg_id messages) \<Longrightarrow>
   (\<forall>m \<in> set messages. case message_parent messages m of None \<Rightarrow> True
      | Some p \<Rightarrow> (rank p :: nat) < rank (msg_id m)) \<Longrightarrow>
   \<exists>ts. buildThreadTree messages = Inr ts \<and> mset (flattenThreadTree ts) = mset messages"
proof -
  assume d: "distinct (map msg_id messages)"
    and rank: "\<forall>m \<in> set messages. case message_parent messages m of None \<Rightarrow> True
      | Some p \<Rightarrow> rank p < rank (msg_id m)"
  from buildThreadTree_walk [OF d] obtain ts where ts: "buildThreadTree messages = Inr ts"
    "mset (map msg_id (flattenThreadTree ts))
        = mset (concat (map (forest_walk (thread_keys messages) (node_parent messages) (Suc (length messages)))
            (forest_level (thread_keys messages) (node_parent messages) 0)))"
    "set (flattenThreadTree ts) \<subseteq> set messages" by blast
  have "mset (map msg_id (flattenThreadTree ts)) = mset (thread_keys messages)"
    unfolding ts(2) by (rule thread_forest.walk_all_ranked [where rank = rank])
      (use rank in \<open>auto simp: thread_keys_distinct [OF d] node_parent_message [OF d] split: option.splits\<close>)
  then have ids: "mset (map msg_id (flattenThreadTree ts)) = mset (map msg_id messages)"
    by (simp add: thread_keys_distinct [OF d])
  then have df: "distinct (map msg_id (flattenThreadTree ts))" using d by (metis mset_eq_imp_distinct_iff)
  have "msg_id ` set (flattenThreadTree ts) = msg_id ` set messages"
    using ids by (metis list.set_map mset_eq_setD)
  moreover have "inj_on msg_id (set messages)" using d by (simp add: distinct_map)
  ultimately have "set (flattenThreadTree ts) = set messages" using ts(3) by (metis inj_on_image_eq_iff order_refl)
  then have "mset (flattenThreadTree ts) = mset messages"
    using d df by (simp add: distinct_map set_eq_iff_mset_eq_distinct [symmetric])
  with ts show ?thesis by blast
qed

theorem buildThreadTree_complete_witness:
  "\<exists>ts. buildThreadTree [sample_message ''1'' (Some ''a'') None [] 0,
        sample_message ''2'' (Some ''b'') (Some ''a'') [] 1,
        sample_message ''3'' None (Some ''zz'') [''a'', ''b''] 2] = Inr ts
     \<and> mset (flattenThreadTree ts) = mset [sample_message ''1'' (Some ''a'') None [] 0,
        sample_message ''2'' (Some ''b'') (Some ''a'') [] 1,
        sample_message ''3'' None (Some ''zz'') [''a'', ''b''] 2]"
proof (rule buildThreadTree_complete [where rank = "\<lambda>k. if k = ''1'' then 0 else if k = ''2'' then 1 else 2"])
qed code_simp+

text \<open>
  Messages that reply to each other are in nobody's subtree but their own: neither of them is a
  root, and both are missing from the conversation that is displayed.
\<close>

theorem buildThreadTree_cycle_loss:
  "buildThreadTree [sample_message ''1'' (Some ''a'') (Some ''b'') [] 0,
      sample_message ''2'' (Some ''b'') (Some ''a'') [] 1] = Inr []"
  by code_simp

text \<open>
  The depth of a node is the depth its parent had at the moment of linking, so it depends on the
  order of the input: a reply to a reply has depth 2 when the messages come oldest first and
  depth 1 when they come newest first.
\<close>

theorem buildThreadTree_depth_order:
  "(case buildThreadTree [sample_message ''1'' (Some ''a'') None [] 0,
        sample_message ''2'' (Some ''b'') (Some ''a'') [] 1, sample_message ''3'' None (Some ''b'') [] 2] of
      Inr [TNode _ [TNode _ [TNode m3 [] d] _] _] \<Rightarrow> msg_id m3 = ''3'' \<and> d = 2 | _ \<Rightarrow> False)
   \<and> (case buildThreadTree [sample_message ''3'' None (Some ''b'') [] 2,
        sample_message ''2'' (Some ''b'') (Some ''a'') [] 1, sample_message ''1'' (Some ''a'') None [] 0] of
      Inr [TNode _ [TNode _ [TNode m3 [] d] _] _] \<Rightarrow> msg_id m3 = ''3'' \<and> d = 1 | _ \<Rightarrow> False)"
  by code_simp

end
