(* ===== verification/Contacts.thy ===== *)
theory Contacts
  imports JsValue Comparators JsDate "HOL-Library.Char_ord" "HOL-Library.List_Lexorder"
begin

text \<open>
  \<open>packages/core/src/contacts/types.ts\<close> and \<open>contact.ts\<close>: contacts and contact requests, the
  display name, validation, search, sorting, grouping, and the search for duplicates. The clock and
  the random generator of \<open>generateContactUid\<close>, the \<open>URL\<close> constructor (its success, as a predicate)
  and \<open>localeCompare\<close> are arguments of the operations that use them.
\<close>

record entry =
  en_type :: string
  en_value :: string
  en_isPrimary :: bool

record postal_address =
  pa_type :: string
  pa_street :: "string option"
  pa_city :: "string option"
  pa_state :: "string option"
  pa_postalCode :: "string option"
  pa_country :: "string option"

record contact_request =
  cr_prefix :: "string option"
  cr_firstName :: "string option"
  cr_middleName :: "string option"
  cr_lastName :: "string option"
  cr_suffix :: "string option"
  cr_nickname :: "string option"
  cr_company :: "string option"
  cr_jobTitle :: "string option"
  cr_department :: "string option"
  cr_emails :: "entry list option"
  cr_phones :: "entry list option"
  cr_addresses :: "postal_address list option"
  cr_birthday :: "js_date option"
  cr_anniversary :: "js_date option"
  cr_website :: "string option"
  cr_notes :: "string option"
  cr_labels :: "string list option"

record contact =
  ct_id :: string
  ct_ownerId :: string
  ct_uid :: string
  ct_prefix :: "string option"
  ct_firstName :: "string option"
  ct_middleName :: "string option"
  ct_lastName :: "string option"
  ct_suffix :: "string option"
  ct_nickname :: "string option"
  ct_displayName :: string
  ct_company :: "string option"
  ct_jobTitle :: "string option"
  ct_department :: "string option"
  ct_emails :: "entry list"
  ct_phones :: "entry list"
  ct_addresses :: "postal_address list"
  ct_birthday :: "date option"
  ct_anniversary :: "date option"
  ct_website :: "string option"
  ct_notes :: "string option"
  ct_photoUrl :: "string option"
  ct_labels :: "string list"
  ct_isFavorite :: bool
  ct_createdAt :: date
  ct_updatedAt :: date

subsection \<open>Names\<close>

definition generateContactUid :: "nat \<Rightarrow> string \<Rightarrow> string \<Rightarrow> string" where
  "generateContactUid timestamp random domain = show_nat timestamp @ ''-'' @ random @ ''@'' @ domain"

definition truthy_strings :: "string option list \<Rightarrow> string list" where
  "truthy_strings vs = map (\<lambda>v. nullish v []) (filter truthy vs)"

text \<open>\<open>xs.find(isPrimary) || xs[0]\<close>.\<close>

definition primary_entry :: "entry list \<Rightarrow> entry option" where
  "primary_entry es =
     (case find en_isPrimary es of Some e \<Rightarrow> Some e
      | None \<Rightarrow> (case es of [] \<Rightarrow> None | e # _ \<Rightarrow> Some e))"

definition generateDisplayName :: "contact_request \<Rightarrow> string" where
  "generateDisplayName contact =
     (let parts = truthy_strings [cr_prefix contact, cr_firstName contact, cr_middleName contact,
                    cr_lastName contact, cr_suffix contact]
      in if length parts > 0 then join '' '' parts
         else if truthy (cr_nickname contact) then nullish (cr_nickname contact) []
         else if truthy (cr_company contact) then nullish (cr_company contact) []
         else case primary_entry (nullish (cr_emails contact) []) of
                Some e \<Rightarrow> en_value e
              | None \<Rightarrow> ''Unknown Contact'')"

definition getPrimaryEmail :: "contact \<Rightarrow> entry option" where
  "getPrimaryEmail contact = primary_entry (ct_emails contact)"

definition getPrimaryPhone :: "contact \<Rightarrow> entry option" where
  "getPrimaryPhone contact = primary_entry (ct_phones contact)"

text \<open>\<open>s.split(/\s+/)\<close>: the separators are the maximal runs of white space.\<close>

function split_ws :: "string \<Rightarrow> string list" where
  "split_ws [] = [[]]"
| "split_ws (c # cs) =
     (if is_ws c then [] # split_ws (dropWhile is_ws cs)
      else case split_ws cs of [] \<Rightarrow> [[c]] | w # ws \<Rightarrow> (c # w) # ws)"
  by pat_completeness auto
termination
  by (relation "measure length") (auto simp: le_imp_less_Suc length_dropWhile_le)

definition getContactInitials :: "contact \<Rightarrow> string" where
  "getContactInitials contact =
     (let name = ct_displayName contact; words = split_ws (trim name)
      in if length words \<ge> 2 then toUpperCase (take 1 (hd words) @ take 1 (last words))
         else toUpperCase (take 2 name))"

subsection \<open>Validation\<close>

definition phone_separator :: "char \<Rightarrow> bool" where
  "phone_separator c = (is_ws c \<or> c \<in> {CHR ''-'', CHR ''('', CHR '')'', CHR ''.''})"

definition validateContactRequest :: "(string \<Rightarrow> bool) \<Rightarrow> contact_request \<Rightarrow> validation" where
  "validateContactRequest url_ok request =
     (let hasName = truthy (cr_firstName request) \<or> truthy (cr_lastName request)
            \<or> truthy (cr_nickname request) \<or> truthy (cr_company request);
          hasEmail = (case cr_emails request of None \<Rightarrow> False | Some es \<Rightarrow> length es > 0);
          nameErrors = (if \<not> hasName \<and> \<not> hasEmail then [''Contact must have a name or email address''] else []);
          emailErrors = concat (map (\<lambda>email.
              if \<not> valid_address (en_value email) then [''Invalid email address: '' @ en_value email] else [])
            (nullish (cr_emails request) []));
          phoneErrors = concat (map (\<lambda>phone.
              if en_value phone \<noteq> [] \<and> length (filter (\<lambda>c. \<not> phone_separator c) (en_value phone)) < 7
              then [''Invalid phone number: '' @ en_value phone] else [])
            (nullish (cr_phones request) []));
          urlErrors = (if truthy (cr_website request) \<and> \<not> url_ok (nullish (cr_website request) [])
            then [''Invalid website URL''] else [])
      in validation_of (nameErrors @ emailErrors @ phoneErrors @ urlErrors))"

subsection \<open>Search, order and groups\<close>

definition digits_only :: "string \<Rightarrow> string" where
  "digits_only s = filter is_digit s"

definition contact_matches :: "string \<Rightarrow> contact \<Rightarrow> bool" where
  "contact_matches q contact =
     (if str_includes (toLowerCase (ct_displayName contact)) q then True
      else if list_ex (\<lambda>e. str_includes (toLowerCase (en_value e)) q) (ct_emails contact) then True
      else if list_ex (\<lambda>p. str_includes (digits_only (en_value p)) (digits_only q)) (ct_phones contact) then True
      else if (case ct_company contact of None \<Rightarrow> False | Some s \<Rightarrow> str_includes (toLowerCase s) q) then True
      else (case ct_notes contact of None \<Rightarrow> False | Some s \<Rightarrow> str_includes (toLowerCase s) q))"

definition searchContacts :: "contact list \<Rightarrow> string \<Rightarrow> contact list" where
  "searchContacts contacts query =
     (let q = trim (toLowerCase query) in if q = [] then contacts else filter (contact_matches q) contacts)"

datatype contact_sort_field = SortDisplayName | SortLastName | SortCompany

fun sort_field_value :: "contact_sort_field \<Rightarrow> contact \<Rightarrow> string" where
  "sort_field_value SortDisplayName c = ct_displayName c"
| "sort_field_value SortLastName c = or_default (ct_lastName c) (ct_displayName c)"
| "sort_field_value SortCompany c = or_default (ct_company c) (ct_displayName c)"

definition contact_cmp :: "(string \<Rightarrow> string \<Rightarrow> int) \<Rightarrow> contact_sort_field \<Rightarrow> contact \<Rightarrow> contact \<Rightarrow> int" where
  "contact_cmp localeCompare field a b =
     localeCompare (toLowerCase (sort_field_value field a)) (toLowerCase (sort_field_value field b))"

definition sortContacts :: "(string \<Rightarrow> string \<Rightarrow> int) \<Rightarrow> contact list \<Rightarrow> contact_sort_field \<Rightarrow> contact list" where
  "sortContacts localeCompare contacts field = js_sort (contact_cmp localeCompare field) contacts"

definition letter_key :: "contact \<Rightarrow> string" where
  "letter_key contact =
     (let firstChar = toUpperCase (take 1 (ct_displayName contact))
      in if list_ex is_upper_ascii firstChar then firstChar else ''#'')"

definition groupContactsByLetter :: "contact list \<Rightarrow> (string, contact list) js_map" where
  "groupContactsByLetter contacts = group_into letter_key contacts"

subsection \<open>Duplicates\<close>

definition areContactsSimilar :: "contact \<Rightarrow> contact \<Rightarrow> bool" where
  "areContactsSimilar a b =
     (if list_ex (\<lambda>email. toLowerCase (en_value email) \<in> set (map (\<lambda>e. toLowerCase (en_value e)) (ct_emails a)))
           (ct_emails b) then True
      else if list_ex (\<lambda>phone. digits_only (en_value phone) \<in> set (map (\<lambda>p. digits_only (en_value p)) (ct_phones a)))
           (ct_phones b) then True
      else toLowerCase (ct_displayName a) = toLowerCase (ct_displayName b))"

text \<open>The inner loop, from \<open>j = i + 1\<close>, and the outer loop, with the set of processed ids.\<close>

fun collect_similar :: "contact \<Rightarrow> string list \<Rightarrow> contact list \<Rightarrow> contact list \<times> string list" where
  "collect_similar a processed [] = ([], processed)"
| "collect_similar a processed (b # bs) =
     (if ct_id b \<in> set processed then collect_similar a processed bs
      else if areContactsSimilar a b
           then (case collect_similar a (ct_id b # processed) bs of (ms, pr) \<Rightarrow> (b # ms, pr))
      else collect_similar a processed bs)"

fun duplicate_loop :: "string list \<Rightarrow> contact list \<Rightarrow> contact list list" where
  "duplicate_loop processed [] = []"
| "duplicate_loop processed (a # rest) =
     (if ct_id a \<in> set processed then duplicate_loop processed rest
      else case collect_similar a processed rest of (ms, pr) \<Rightarrow>
        let matches = a # ms
        in if length matches > 1 then matches # duplicate_loop (ct_id a # pr) rest
           else duplicate_loop pr rest)"

definition findPotentialDuplicates :: "contact list \<Rightarrow> contact list list" where
  "findPotentialDuplicates contacts = duplicate_loop [] contacts"

subsection \<open>Lemmas\<close>

lemma primary_entry_iff:
  "primary_entry es = Some e \<Longrightarrow> e \<in> set es"
  by (auto simp: primary_entry_def find_Some_iff split: option.splits list.splits)

lemma areContactsSimilar_iff:
  "areContactsSimilar a b \<longleftrightarrow>
     (\<lambda>e. toLowerCase (en_value e)) ` set (ct_emails a) \<inter> (\<lambda>e. toLowerCase (en_value e)) ` set (ct_emails b) \<noteq> {}
     \<or> (\<lambda>p. digits_only (en_value p)) ` set (ct_phones a) \<inter> (\<lambda>p. digits_only (en_value p)) ` set (ct_phones b) \<noteq> {}
     \<or> toLowerCase (ct_displayName a) = toLowerCase (ct_displayName b)"
proof -
  have "list_ex (\<lambda>y. f y \<in> A) ys \<longleftrightarrow> A \<inter> f ` set ys \<noteq> {}" for f :: "entry \<Rightarrow> string" and A ys
    by (auto simp: list_ex_iff)
  then show ?thesis by (simp add: areContactsSimilar_def)
qed

lemma areContactsSimilar_sym: "areContactsSimilar a b \<Longrightarrow> areContactsSimilar b a"
  unfolding areContactsSimilar_iff Int_commute [of _ "(\<lambda>e. _ e) ` set (_ b)"] by argo

abbreviation fresh_similar :: "contact \<Rightarrow> string list \<Rightarrow> contact \<Rightarrow> bool" where
  "fresh_similar a pr b \<equiv> ct_id b \<notin> set pr \<and> areContactsSimilar a b"

lemma collect_similar_filter:
  "distinct (map ct_id bs) \<Longrightarrow>
   fst (collect_similar a pr bs) = filter (fresh_similar a pr) bs
   \<and> set (snd (collect_similar a pr bs)) = set pr \<union> ct_id ` set (filter (fresh_similar a pr) bs)"
proof (induction bs arbitrary: pr)
  case (Cons b bs)
  have "filter (fresh_similar a (ct_id b # pr)) bs = filter (fresh_similar a pr) bs"
    using Cons.prems by (intro filter_cong) (auto simp: image_iff)
  with Cons show ?case by (auto simp: split_beta)
qed simp

text \<open>One round of the outer loop: \<open>a\<close> was grouped before, or matches nothing, or opens a group.\<close>

lemma duplicate_loop_cases:
  assumes "distinct (map ct_id (a # rest))"
  obtains (skip) "ct_id a \<in> set pr" "duplicate_loop pr (a # rest) = duplicate_loop pr rest"
  | (single) pr' where "ct_id a \<notin> set pr" "filter (fresh_similar a pr) rest = []" "set pr' = set pr"
      "duplicate_loop pr (a # rest) = duplicate_loop pr' rest"
  | (group) ms pr' where "ct_id a \<notin> set pr" "ms = filter (fresh_similar a pr) rest" "ms \<noteq> []"
      "set pr' = insert (ct_id a) (set pr \<union> ct_id ` set ms)"
      "duplicate_loop pr (a # rest) = (a # ms) # duplicate_loop pr' rest"
proof -
  let ?ms = "fst (collect_similar a pr rest)" and ?pr = "snd (collect_similar a pr rest)"
  have "distinct (map ct_id rest)" using assms by simp
  note c = collect_similar_filter [OF this, of a pr]
  consider "ct_id a \<in> set pr" | "ct_id a \<notin> set pr" "?ms = []" | "ct_id a \<notin> set pr" "?ms \<noteq> []" by blast
  then show thesis
  proof cases
    case 1
    then show thesis by (intro skip) simp_all
  next
    case 2
    then show thesis using c by (intro single [of ?pr]) (simp_all add: split_beta)
  next
    case 3
    then show thesis using c by (intro group [of ?ms "ct_id a # ?pr"]) (simp_all add: split_beta)
  qed
qed

lemma duplicate_loop_sound:
  "distinct (map ct_id xs) \<Longrightarrow> g \<in> set (duplicate_loop pr xs) \<Longrightarrow>
   length g \<ge> 2 \<and> set g \<subseteq> set xs \<and> (\<forall>b \<in> set (tl g). areContactsSimilar (hd g) b)"
proof (induction xs arbitrary: pr)
  case (Cons a xs)
  from Cons.prems(1) have d: "distinct (map ct_id xs)" by simp
  have IH: "length g \<ge> 2 \<and> set g \<subseteq> set (a # xs) \<and> (\<forall>b \<in> set (tl g). areContactsSimilar (hd g) b)"
    if "g \<in> set (duplicate_loop q xs)" for q using Cons.IH [OF d that] by auto
  from Cons.prems(1) show ?case
  proof (cases rule: duplicate_loop_cases [where pr = pr])
    case (group ms pr')
    with Cons.prems(2) consider "g \<in> set (duplicate_loop pr' xs)" | "g = a # ms" by (auto simp del: duplicate_loop.simps)
    then show ?thesis
    proof cases
      case 2
      moreover have "length ms \<ge> 1" using group(3) by (cases ms) auto
      ultimately show ?thesis using group(2) by auto
    qed (rule IH)
  qed (use Cons.prems(2) IH in \<open>simp_all del: duplicate_loop.simps\<close>)
qed simp

lemma distinct_block:
  "distinct ms \<Longrightarrow> set ms \<subseteq> X - P \<Longrightarrow> distinct D \<Longrightarrow> set D \<inter> insert a (P \<union> set ms) = {} \<Longrightarrow>
   set D \<subseteq> X \<Longrightarrow> a \<notin> set ms \<Longrightarrow> a \<notin> P \<Longrightarrow> distinct ((a # ms) @ D) \<and> set ((a # ms) @ D) \<subseteq> insert a X - P"
  by auto

lemma duplicate_loop_disjoint:
  "distinct (map ct_id xs) \<Longrightarrow>
   distinct (map ct_id (concat (duplicate_loop pr xs)))
   \<and> set (map ct_id (concat (duplicate_loop pr xs))) \<subseteq> ct_id ` set xs - set pr"
proof (induction xs arbitrary: pr)
  case (Cons a xs)
  from Cons.prems have d: "distinct (map ct_id xs)" and new: "ct_id a \<notin> ct_id ` set xs" by auto
  from Cons.prems show ?case
  proof (cases rule: duplicate_loop_cases [where pr = pr])
    case skip
    then show ?thesis using Cons.IH [OF d, of pr] by auto
  next
    case (single pr')
    then show ?thesis using Cons.IH [OF d, of pr'] by auto
  next
    case (group ms pr')
    have "distinct (map ct_id ms)" using d group(2) by (simp add: distinct_map inj_on_def)
    moreover have "ct_id ` set ms \<subseteq> ct_id ` set xs - set pr" using group(2) by auto
    moreover from Cons.IH [OF d, of pr'] have
      "distinct (map ct_id (concat (duplicate_loop pr' xs)))"
      "ct_id ` set (concat (duplicate_loop pr' xs)) \<inter> insert (ct_id a) (set pr \<union> ct_id ` set ms) = {}"
      "ct_id ` set (concat (duplicate_loop pr' xs)) \<subseteq> ct_id ` set xs"
      unfolding group(4) [symmetric] set_map by blast+
    moreover have "ct_id a \<notin> ct_id ` set ms" using new group(2) by (auto simp: image_iff)
    ultimately show ?thesis
      using distinct_block [of "map ct_id ms" "ct_id ` set xs" "set pr"
          "map ct_id (concat (duplicate_loop pr' xs))" "ct_id a"] group(1)
      unfolding group(5) by (simp del: duplicate_loop.simps)
  qed
qed simp

lemma duplicate_loop_complete:
  "distinct (map ct_id xs) \<Longrightarrow> a \<in> set xs \<Longrightarrow> b \<in> set xs \<Longrightarrow> a \<noteq> b \<Longrightarrow> areContactsSimilar a b \<Longrightarrow>
   ct_id a \<in> set pr \<or> ct_id b \<in> set pr \<or> a \<in> set (concat (duplicate_loop pr xs))
     \<or> b \<in> set (concat (duplicate_loop pr xs))"
proof (induction xs arbitrary: pr a b)
  case (Cons c xs)
  from Cons.prems(1) have d: "distinct (map ct_id xs)" by simp
  have other: "ct_id c \<in> set pr \<or> ct_id y \<in> set pr \<or> c \<in> set (concat (duplicate_loop pr (c # xs)))"
    if "y \<in> set xs" "areContactsSimilar c y" for y
    using Cons.prems(1)
  proof (cases rule: duplicate_loop_cases [where pr = pr])
    case (single pr')
    with that show ?thesis by (auto simp: filter_empty_conv simp del: duplicate_loop.simps)
  qed (simp_all del: duplicate_loop.simps)
  consider "c = a" "b \<in> set xs" | "c = b" "a \<in> set xs" | "a \<in> set xs" "b \<in> set xs" "c \<noteq> a" "c \<noteq> b"
    using Cons.prems by auto
  then show ?case
  proof cases
    case 1
    with other [of b] Cons.prems show ?thesis by blast
  next
    case 2
    with other [of a] areContactsSimilar_sym [OF Cons.prems(5)] show ?thesis by blast
  next
    case 3
    note IH = Cons.IH [OF d 3(1,2) Cons.prems(4,5)]
    from Cons.prems(1) show ?thesis
    proof (cases rule: duplicate_loop_cases [where pr = pr])
      case (group ms pr')
      have "x \<in> set ms" if "x \<in> set xs" "ct_id x \<in> ct_id ` set ms" for x
        using that d group(2) by (auto simp: distinct_map inj_on_def)
      moreover have "ct_id a \<noteq> ct_id c" "ct_id b \<noteq> ct_id c" using 3 Cons.prems(1) by (auto simp: image_iff)
      ultimately show ?thesis using IH [of pr'] 3 unfolding group(4,5) by auto
    next
      case (single pr')
      then show ?thesis using IH [of pr'] by metis
    qed (use IH in \<open>simp_all del: duplicate_loop.simps\<close>)
  qed
qed simp

lemma contact_cmp_comparator: "js_comparator lc \<Longrightarrow> js_comparator (contact_cmp lc field)"
  unfolding js_comparator_def contact_cmp_def by blast

text \<open>The comparison of code units, one possible \<open>localeCompare\<close>.\<close>

definition code_unit_cmp :: "string \<Rightarrow> string \<Rightarrow> int" where
  "code_unit_cmp a b = (if a = b then 0 else if a < b then -1 else 1)"

interpretation code_unit_order: js_comparator code_unit_cmp
  by unfold_locales (auto simp: code_unit_cmp_def split: if_splits)

lemma toUpperCase_letter:
  "set (toUpperCase (take 1 s)) \<subseteq> Collect is_upper_ascii \<or> \<not> list_ex is_upper_ascii (toUpperCase (take 1 s))"
proof (cases s)
  case (Cons c cs)
  then show ?thesis
    by (auto simp: toUpperCase_def upper_char_def Let_def is_upper_ascii_def code_unit_def)
qed (simp add: toUpperCase_def)

definition sample_contact :: "string \<Rightarrow> string \<Rightarrow> entry list \<Rightarrow> entry list \<Rightarrow> contact" where
  "sample_contact i name es ps =
     \<lparr>ct_id = i, ct_ownerId = ''o'', ct_uid = ''u'', ct_prefix = None, ct_firstName = None, ct_middleName = None,
      ct_lastName = None, ct_suffix = None, ct_nickname = None, ct_displayName = name, ct_company = None,
      ct_jobTitle = None, ct_department = None, ct_emails = es, ct_phones = ps, ct_addresses = [],
      ct_birthday = None, ct_anniversary = None, ct_website = None, ct_notes = None, ct_photoUrl = None,
      ct_labels = [], ct_isFavorite = False, ct_createdAt = 0, ct_updatedAt = 0\<rparr>"

definition sample_entry :: "string \<Rightarrow> entry" where
  "sample_entry v = \<lparr>en_type = ''home'', en_value = v, en_isPrimary = False\<rparr>"

subsection \<open>Properties\<close>

text \<open>
  For contacts with distinct ids, \<open>findPotentialDuplicates\<close> returns groups of at least two
  contacts of the input, each group consisting of contacts similar to its first, and no contact
  appears twice, in one group or in two; and of any two similar contacts at least one is reported.
\<close>

theorem findPotentialDuplicates_correct:
  "distinct (map ct_id contacts) \<Longrightarrow>
   (\<forall>g \<in> set (findPotentialDuplicates contacts). length g \<ge> 2 \<and> set g \<subseteq> set contacts
      \<and> (\<forall>b \<in> set (tl g). areContactsSimilar (hd g) b))
   \<and> distinct (map ct_id (concat (findPotentialDuplicates contacts)))
   \<and> (\<forall>a \<in> set contacts. \<forall>b \<in> set contacts. a \<noteq> b \<and> areContactsSimilar a b \<longrightarrow>
        a \<in> set (concat (findPotentialDuplicates contacts)) \<or> b \<in> set (concat (findPotentialDuplicates contacts)))"
  using duplicate_loop_sound [of contacts _ "[]"] duplicate_loop_disjoint [of contacts "[]"]
    duplicate_loop_complete [of contacts _ _ "[]"]
  unfolding findPotentialDuplicates_def by auto

theorem findPotentialDuplicates_correct_witness:
  "findPotentialDuplicates [sample_contact ''1'' ''Ann'' [] [], sample_contact ''2'' ''Bob'' [] [],
       sample_contact ''3'' ''ANN'' [] []]
     = [[sample_contact ''1'' ''Ann'' [] [], sample_contact ''3'' ''ANN'' [] []]]
   \<and> distinct (map ct_id (concat (findPotentialDuplicates [sample_contact ''1'' ''Ann'' [] [],
       sample_contact ''2'' ''Bob'' [] [], sample_contact ''3'' ''ANN'' [] []])))"
proof (rule conjI)
  have "distinct (map ct_id [sample_contact ''1'' ''Ann'' [] [],
       sample_contact ''2'' ''Bob'' [] [], sample_contact ''3'' ''ANN'' [] []])" by code_simp
  from findPotentialDuplicates_correct [OF this]
  show "distinct (map ct_id (concat (findPotentialDuplicates [sample_contact ''1'' ''Ann'' [] [],
       sample_contact ''2'' ''Bob'' [] [], sample_contact ''3'' ''ANN'' [] []])))" by blast
qed code_simp

text \<open>
  Similarity is not transitive and only the first contact of a group is compared: a contact that
  shares its phone with the second member of a group, and nothing with the first, is not reported.
\<close>

theorem findPotentialDuplicates_misses_chain:
  "areContactsSimilar (sample_contact ''2'' ''Bob'' [sample_entry ''a@b.c''] [sample_entry ''5551234'']) (sample_contact ''3'' ''Cy'' [] [sample_entry ''555-1234''])
   \<and> sample_contact ''3'' ''Cy'' [] [sample_entry ''555-1234''] \<notin> set (concat (findPotentialDuplicates
        [sample_contact ''1'' ''Ann'' [sample_entry ''A@b.c''] [],
         sample_contact ''2'' ''Bob'' [sample_entry ''a@b.c''] [sample_entry ''5551234''],
         sample_contact ''3'' ''Cy'' [] [sample_entry ''555-1234'']]))"
  by code_simp

text \<open>
  Two contacts whose phone numbers hold no digit at all are taken to share a phone number.
\<close>

theorem areContactsSimilar_digitless_phones:
  "p \<in> set (ct_phones a) \<Longrightarrow> r \<in> set (ct_phones b) \<Longrightarrow> digits_only (en_value p) = [] \<Longrightarrow>
   digits_only (en_value r) = [] \<Longrightarrow> areContactsSimilar a b"
  unfolding areContactsSimilar_iff disjoint_iff image_iff by metis

theorem areContactsSimilar_digitless_phones_witness:
  "areContactsSimilar (sample_contact ''1'' ''Ann'' [] [sample_entry ''unlisted''])
     (sample_contact ''2'' ''Bob'' [] [sample_entry ''n/a''])"
  by (rule areContactsSimilar_digitless_phones [of "sample_entry ''unlisted''" _ "sample_entry ''n/a''"]; code_simp)

text \<open>
  A search whose query has no digit returns every contact that has a phone number, since every
  string includes the empty string that is left of the query.
\<close>

theorem searchContacts_digitless_query:
  "digits_only query = [] \<Longrightarrow> ct_phones c \<noteq> [] \<Longrightarrow> c \<in> set contacts \<Longrightarrow> c \<in> set (searchContacts contacts query)"
proof -
  assume q: "digits_only query = []" and c: "ct_phones c \<noteq> []" "c \<in> set contacts"
  have "is_digit (lower_char x) = is_digit x" for x
    by (simp add: lower_char_def is_digit_def Let_def)
  then have "\<forall>x \<in> set (toLowerCase query). \<not> is_digit x"
    using q by (simp add: digits_only_def filter_empty_conv toLowerCase_def)
  then have "digits_only (trim (toLowerCase query)) = []"
    using set_trim [of "toLowerCase query"] unfolding digits_only_def filter_empty_conv by blast
  then have "contact_matches (trim (toLowerCase query)) c"
    using c by (cases "ct_phones c") (auto simp: contact_matches_def str_includes_def)
  with c show ?thesis by (simp add: searchContacts_def Let_def)
qed

theorem searchContacts_digitless_query_witness:
  "sample_contact ''1'' ''Ann'' [] [sample_entry ''555'']
     \<in> set (searchContacts [sample_contact ''1'' ''Ann'' [] [sample_entry ''555'']] ''zzz'')"
  by (rule searchContacts_digitless_query; code_simp)

text \<open>
  Sorting contacts by any field, with any consistent \<open>localeCompare\<close>, gives a permutation that
  is ordered by the lower-cased field and keeps the order of contacts that compare equal.
\<close>

theorem sortContacts_correct:
  "js_comparator lc \<Longrightarrow>
   mset (sortContacts lc contacts field) = mset contacts
   \<and> sorted_wrt (\<lambda>a b. contact_cmp lc field a b \<le> 0) (sortContacts lc contacts field)
   \<and> filter (\<lambda>b. contact_cmp lc field a b = 0) (sortContacts lc contacts field)
      = filter (\<lambda>b. contact_cmp lc field a b = 0) contacts"
  using js_comparator.sorted_js_sort [OF contact_cmp_comparator]
    js_comparator.stable_js_sort [OF contact_cmp_comparator]
  by (simp add: sortContacts_def mset_js_sort)

theorem sortContacts_correct_witness:
  "js_comparator code_unit_cmp
   \<and> sorted_wrt (\<lambda>a b. contact_cmp code_unit_cmp SortLastName a b \<le> 0)
        (sortContacts code_unit_cmp [sample_contact ''1'' ''b'' [] [], sample_contact ''2'' ''A'' [] []] SortLastName)"
  using sortContacts_correct [OF code_unit_order.js_comparator_axioms] code_unit_order.js_comparator_axioms by blast

text \<open>
  \<open>groupContactsByLetter\<close> partitions the contacts: the group of a key is the list of the
  contacts with that first letter, in their order, and the keys are ASCII capitals or \<open>#\<close>.
\<close>

theorem groupContactsByLetter_partition:
  "distinct (map fst (groupContactsByLetter contacts))
   \<and> fst ` set (groupContactsByLetter contacts) = letter_key ` set contacts
   \<and> (\<forall>c \<in> set contacts. map_of (groupContactsByLetter contacts) (letter_key c)
        = Some (filter (\<lambda>x. letter_key x = letter_key c) contacts))
   \<and> (\<forall>k \<in> fst ` set (groupContactsByLetter contacts). k = ''#'' \<or> k \<noteq> [] \<and> set k \<subseteq> Collect is_upper_ascii)"
proof (intro conjI)
  show keys: "fst ` set (groupContactsByLetter contacts) = letter_key ` set contacts"
    using map_of_group_into [of letter_key contacts] unfolding groupContactsByLetter_def
    by (metis (no_types, lifting) dom_map_of_conv_image_fst domIff option.distinct(1) set_eqI)
  have "letter_key c = ''#'' \<or> letter_key c \<noteq> [] \<and> set (letter_key c) \<subseteq> Collect is_upper_ascii" for c
    using toUpperCase_letter [of "ct_displayName c"] by (auto simp: letter_key_def Let_def)
  then show "\<forall>k \<in> fst ` set (groupContactsByLetter contacts). k = ''#'' \<or> k \<noteq> [] \<and> set k \<subseteq> Collect is_upper_ascii"
    unfolding keys by - (rule ballI, elim imageE, metis)
qed (simp_all add: groupContactsByLetter_def distinct_fst_group_into map_of_group_into)

theorem groupContactsByLetter_partition_witness:
  "map_of (groupContactsByLetter [sample_contact ''1'' ''ann'' [] [], sample_contact ''2'' ''Al'' [] [],
       sample_contact ''3'' ''7up'' [] []]) (letter_key (sample_contact ''2'' ''Al'' [] []))
     = Some [sample_contact ''1'' ''ann'' [] [], sample_contact ''2'' ''Al'' [] []]"
proof -
  have "map_of (groupContactsByLetter [sample_contact ''1'' ''ann'' [] [], sample_contact ''2'' ''Al'' [] [],
       sample_contact ''3'' ''7up'' [] []]) (letter_key (sample_contact ''2'' ''Al'' [] []))
     = Some (filter (\<lambda>x. letter_key x = letter_key (sample_contact ''2'' ''Al'' [] []))
         [sample_contact ''1'' ''ann'' [] [], sample_contact ''2'' ''Al'' [] [], sample_contact ''3'' ''7up'' [] []])"
    using groupContactsByLetter_partition [of "[sample_contact ''1'' ''ann'' [] [], sample_contact ''2'' ''Al'' [] [],
       sample_contact ''3'' ''7up'' [] []]"] by (meson list.set_intros)
  moreover have "filter (\<lambda>x. letter_key x = letter_key (sample_contact ''2'' ''Al'' [] []))
         [sample_contact ''1'' ''ann'' [] [], sample_contact ''2'' ''Al'' [] [], sample_contact ''3'' ''7up'' [] []]
      = [sample_contact ''1'' ''ann'' [] [], sample_contact ''2'' ''Al'' [] []]" by code_simp
  ultimately show ?thesis by simp
qed

text \<open>
  A contact request is valid exactly when it has a name or an e-mail, every e-mail value has the
  form of an address, every non-empty phone value has at least seven characters besides
  separators, and the website, if there is one, is a URL.
\<close>

theorem validateContactRequest_valid_iff:
  "fst (validateContactRequest url_ok r) \<longleftrightarrow>
     (truthy (cr_firstName r) \<or> truthy (cr_lastName r) \<or> truthy (cr_nickname r) \<or> truthy (cr_company r)
        \<or> nullish (cr_emails r) [] \<noteq> [])
     \<and> list_all (\<lambda>e. valid_address (en_value e)) (nullish (cr_emails r) [])
     \<and> list_all (\<lambda>p. en_value p = [] \<or> length (filter (\<lambda>c. \<not> phone_separator c) (en_value p)) \<ge> 7)
          (nullish (cr_phones r) [])
     \<and> (truthy (cr_website r) = (truthy (cr_website r) \<and> url_ok (the (cr_website r))))"
proof -
  have c: "concat (map (\<lambda>x. if P x then [g x] else []) xs) = [] \<longleftrightarrow> list_all (\<lambda>x. \<not> P x) xs"
    for P :: "entry \<Rightarrow> bool" and g :: "entry \<Rightarrow> string" and xs by (induction xs) auto
  have e: "(case cr_emails r of None \<Rightarrow> False | Some es \<Rightarrow> length es > 0) \<longleftrightarrow> nullish (cr_emails r) [] \<noteq> []"
    by (cases "cr_emails r") auto
  have w: "truthy (cr_website r) \<and> \<not> url_ok (nullish (cr_website r) [])
      \<longleftrightarrow> \<not> (truthy (cr_website r) = (truthy (cr_website r) \<and> url_ok (the (cr_website r))))"
    by (cases "cr_website r") auto
  have p: "(\<not> (v \<noteq> [] \<and> n < 7)) \<longleftrightarrow> v = [] \<or> n \<ge> 7" for v :: string and n :: nat by auto
  show ?thesis
    unfolding validateContactRequest_def Let_def validation_of_iff append_is_Nil_conv c e w p not_not
    by (simp split: if_split)
qed

end
