(* ===== verification/VCard.thy ===== *)
theory VCard
  imports Contacts
begin

text \<open>
  \<open>packages/core/src/contacts/vcard.ts\<close>: reading and writing vCards. The time zone of the host is a
  parameter (\<open>JsDate\<close>). The main result is the round trip: a contact whose fields stay clear of
  the characters that the writer does not protect is read back field by field.
\<close>

subsection \<open>Lines\<close>

text \<open>\<open>s.split(/\r?\n/)\<close>: the pieces between line feeds, all but the last without one final CR.\<close>

definition drop_cr :: "string \<Rightarrow> string" where
  "drop_cr l = (if l \<noteq> [] \<and> last l = carriage then butlast l else l)"

definition split_lines :: "string \<Rightarrow> string list" where
  "split_lines s = (let ps = split_on newline s in map drop_cr (butlast ps) @ [last ps])"

definition is_continuation :: "string \<Rightarrow> bool" where
  "is_continuation l = (case l of [] \<Rightarrow> False | c # _ \<Rightarrow> c = CHR '' '' \<or> c = CHR 0x09)"

function unfold_lines :: "string list \<Rightarrow> string list" where
  "unfold_lines [] = []"
| "unfold_lines [line] = [line]"
| "unfold_lines (line # next # rest) =
     (if is_continuation next then unfold_lines ((line @ tl next) # rest)
      else line # unfold_lines (next # rest))"
  by pat_completeness auto
termination by (relation "measure length") auto

subsection \<open>Values\<close>

definition replace_char :: "char \<Rightarrow> string \<Rightarrow> string \<Rightarrow> string" where
  "replace_char c r s = concat (map (\<lambda>x. if x = c then r else [x]) s)"

text \<open>\<open>s.replace(/ab/g, r)\<close> for two literal characters.\<close>

fun replace_pair :: "char \<Rightarrow> char \<Rightarrow> string \<Rightarrow> string \<Rightarrow> string" where
  "replace_pair a b r (x # y # s) =
     (if x = a \<and> y = b then r @ replace_pair a b r s else x # replace_pair a b r (y # s))"
| "replace_pair a b r s = s"

definition escapeVCardValue :: "string \<Rightarrow> string" where
  "escapeVCardValue value =
     replace_char newline [backslash, CHR ''n'']
       (replace_char (CHR '';'') [backslash, CHR '';'']
         (replace_char (CHR '','') [backslash, CHR '','']
           (replace_char backslash [backslash, backslash] value)))"

definition parseVCardDate :: "time_zone \<Rightarrow> string \<Rightarrow> js_date option" where
  "parseVCardDate tz value =
     (if iso_date_shape value then Some (new_Date_iso value)
      else if length value = 8 \<and> list_all is_digit value then
        Some (ValidDate (new_Date tz (int (nat_of_digits (take 4 value)))
          (int (nat_of_digits (take 2 (drop 4 value))) - 1) (int (nat_of_digits (take 2 (drop 6 value))))))
      else None)"

definition formatVCardDate :: "time_zone \<Rightarrow> date \<Rightarrow> string" where
  "formatVCardDate tz d =
     show_int (getFullYear tz d) @ ''-'' @ padStart 2 (CHR ''0'') (show_int (getMonth tz d + 1))
       @ ''-'' @ padStart 2 (CHR ''0'') (show_int (getDate tz d))"

subsection \<open>Parsing\<close>

definition empty_request :: contact_request where
  "empty_request =
     \<lparr>cr_prefix = None, cr_firstName = None, cr_middleName = None, cr_lastName = None, cr_suffix = None,
      cr_nickname = None, cr_company = None, cr_jobTitle = None, cr_department = None,
      cr_emails = Some [], cr_phones = Some [], cr_addresses = Some [], cr_birthday = None,
      cr_anniversary = None, cr_website = None, cr_notes = None, cr_labels = Some []\<rparr>"

text \<open>An element of a destructured array, \<open>undefined\<close> beyond its end, followed by \<open>|| undefined\<close>.\<close>

definition part :: "string list \<Rightarrow> nat \<Rightarrow> string option" where
  "part vs i = or_undefined (if i < length vs then Some (vs ! i) else None)"

definition type_param :: "string list \<Rightarrow> string option" where
  "type_param params =
     map_option (\<lambda>p. toLowerCase (hd (split_on (CHR '','') (drop 5 p)))) (find (\<lambda>p. startsWith p ''TYPE='') params)"

definition apply_property :: "time_zone \<Rightarrow> string \<Rightarrow> string list \<Rightarrow> string \<Rightarrow> contact_request \<Rightarrow> contact_request" where
  "apply_property tz name params value contact =
     (let ty = or_default (type_param params) ''other''; vs = split_on (CHR '';'') value
      in if name = ''N'' then contact\<lparr>cr_lastName := part vs 0, cr_firstName := part vs 1,
              cr_middleName := part vs 2, cr_prefix := part vs 3, cr_suffix := part vs 4\<rparr>
         else if name = ''NICKNAME'' then contact\<lparr>cr_nickname := Some value\<rparr>
         else if name = ''ORG'' then contact\<lparr>cr_company := part vs 0, cr_department := part vs 1\<rparr>
         else if name = ''TITLE'' then contact\<lparr>cr_jobTitle := Some value\<rparr>
         else if name = ''EMAIL'' then contact\<lparr>cr_emails := map_option (\<lambda>es. es @
              [\<lparr>en_type = ty, en_value = value, en_isPrimary = False\<rparr>]) (cr_emails contact)\<rparr>
         else if name = ''TEL'' then contact\<lparr>cr_phones := map_option (\<lambda>ps. ps @
              [\<lparr>en_type = ty, en_value = value, en_isPrimary = False\<rparr>]) (cr_phones contact)\<rparr>
         else if name = ''ADR'' then contact\<lparr>cr_addresses := map_option (\<lambda>as. as @
              [\<lparr>pa_type = ty, pa_street = part vs 2, pa_city = part vs 3, pa_state = part vs 4,
                pa_postalCode = part vs 5, pa_country = part vs 6\<rparr>]) (cr_addresses contact)\<rparr>
         else if name = ''BDAY'' then contact\<lparr>cr_birthday := parseVCardDate tz value\<rparr>
         else if name = ''ANNIVERSARY'' then contact\<lparr>cr_anniversary := parseVCardDate tz value\<rparr>
         else if name = ''URL'' then contact\<lparr>cr_website := Some value\<rparr>
         else if name = ''NOTE'' then contact\<lparr>cr_notes :=
              Some (replace_pair backslash (CHR '','') '','' (replace_pair backslash (CHR ''n'') [newline] value))\<rparr>
         else if name = ''CATEGORIES'' then contact\<lparr>cr_labels := Some (map trim (split_on (CHR '','') value))\<rparr>
         else contact)"

definition parse_property :: "time_zone \<Rightarrow> contact_request \<Rightarrow> string \<Rightarrow> contact_request" where
  "parse_property tz contact line =
     (case index_of (CHR '':'') line of
        None \<Rightarrow> contact
      | Some colonIndex \<Rightarrow>
          (let ps = split_on (CHR '';'') (take colonIndex line)
           in apply_property tz (toUpperCase (hd ps)) (tl ps) (drop (colonIndex + 1) line) contact))"

fun vcard_loop :: "time_zone \<Rightarrow> bool \<Rightarrow> contact_request \<Rightarrow> string list \<Rightarrow> contact_request" where
  "vcard_loop tz inVCard contact [] = contact"
| "vcard_loop tz inVCard contact (line # rest) =
     (if startsWith line ''BEGIN:VCARD'' then vcard_loop tz True contact rest
      else if startsWith line ''END:VCARD'' then contact
      else if \<not> inVCard then vcard_loop tz inVCard contact rest
      else vcard_loop tz inVCard (parse_property tz contact line) rest)"

text \<open>Nothing in the body raises, so the \<open>catch\<close> that returns \<open>null\<close> is never reached.\<close>

definition parseVCard :: "time_zone \<Rightarrow> string \<Rightarrow> contact_request option" where
  "parseVCard tz vcard = Some (vcard_loop tz False empty_request (unfold_lines (split_lines vcard)))"

text \<open>\<open>content.split(/(?=BEGIN:VCARD)/gi)\<close>: cut before every occurrence but one at the very start.\<close>

definition begins_vcard :: "string \<Rightarrow> bool" where
  "begins_vcard s = startsWith (toLowerCase s) ''begin:vcard''"

fun split_vcards :: "string \<Rightarrow> string list" where
  "split_vcards [] = [[]]"
| "split_vcards (c # cs) =
     (if begins_vcard cs then [c] # split_vcards cs
      else case split_vcards cs of [] \<Rightarrow> [[c]] | w # ws \<Rightarrow> (c # w) # ws)"

definition parseVCards :: "time_zone \<Rightarrow> string \<Rightarrow> contact_request list" where
  "parseVCards tz content =
     List.map_filter (parseVCard tz) (filter (\<lambda>v. trim v \<noteq> []) (split_vcards content))"

subsection \<open>Generation\<close>

definition adr_value :: "postal_address \<Rightarrow> string" where
  "adr_value addr = join '';'' [[], [], or_default (pa_street addr) [], or_default (pa_city addr) [],
     or_default (pa_state addr) [], or_default (pa_postalCode addr) [], or_default (pa_country addr) []]"

definition vcard_lines :: "time_zone \<Rightarrow> contact \<Rightarrow> string list" where
  "vcard_lines tz contact =
     [''BEGIN:VCARD'', ''VERSION:3.0'', ''UID:'' @ ct_uid contact,
      ''N:'' @ join '';'' [or_default (ct_lastName contact) [], or_default (ct_firstName contact) [],
         or_default (ct_middleName contact) [], or_default (ct_prefix contact) [], or_default (ct_suffix contact) []],
      ''FN:'' @ escapeVCardValue (ct_displayName contact)]
     @ (if truthy (ct_nickname contact) then [''NICKNAME:'' @ escapeVCardValue (nullish (ct_nickname contact) [])] else [])
     @ (if truthy (ct_company contact) \<or> truthy (ct_department contact)
        then [''ORG:'' @ escapeVCardValue (or_default (ct_company contact) []) @ '';''
                @ escapeVCardValue (or_default (ct_department contact) [])] else [])
     @ (if truthy (ct_jobTitle contact) then [''TITLE:'' @ escapeVCardValue (nullish (ct_jobTitle contact) [])] else [])
     @ map (\<lambda>email. ''EMAIL;TYPE='' @ toUpperCase (en_type email) @ '':'' @ en_value email) (ct_emails contact)
     @ map (\<lambda>phone. ''TEL;TYPE='' @ toUpperCase (en_type phone) @ '':'' @ en_value phone) (ct_phones contact)
     @ map (\<lambda>addr. ''ADR;TYPE='' @ toUpperCase (pa_type addr) @ '':'' @ adr_value addr) (ct_addresses contact)
     @ (case ct_birthday contact of None \<Rightarrow> [] | Some d \<Rightarrow> [''BDAY:'' @ formatVCardDate tz d])
     @ (case ct_anniversary contact of None \<Rightarrow> [] | Some d \<Rightarrow> [''ANNIVERSARY:'' @ formatVCardDate tz d])
     @ (if truthy (ct_website contact) then [''URL:'' @ nullish (ct_website contact) []] else [])
     @ (if truthy (ct_notes contact) then [''NOTE:'' @ escapeVCardValue (nullish (ct_notes contact) [])] else [])
     @ (if length (ct_labels contact) > 0 then [''CATEGORIES:'' @ join '','' (ct_labels contact)] else [])
     @ [''REV:'' @ formatVCardDate tz (ct_updatedAt contact), ''END:VCARD'']"

definition crlf :: string where "crlf = [carriage, newline]"

definition generateVCard :: "time_zone \<Rightarrow> contact \<Rightarrow> string" where
  "generateVCard tz contact = join crlf (vcard_lines tz contact)"

definition generateVCards :: "time_zone \<Rightarrow> contact list \<Rightarrow> string" where
  "generateVCards tz contacts = join crlf (map (generateVCard tz) contacts)"

subsection \<open>Lemmas: lines\<close>

lemma split_on_join_crlf:
  "ls \<noteq> [] \<Longrightarrow> \<forall>l \<in> set ls. newline \<notin> set l \<Longrightarrow>
   split_on newline (join crlf ls) = map (\<lambda>l. l @ [carriage]) (butlast ls) @ [last ls]"
proof (induction crlf ls rule: join.induct)
  case (3 x y ys)
  have "newline \<notin> set (x @ [carriage])" using 3(3) by (simp add: newline_def carriage_def)
  from split_on_append_sep [OF this, of "join crlf (y # ys)"] 3 show ?case by (simp add: crlf_def)
qed (simp_all add: split_on_no_sep)

lemma split_lines_join:
  "ls \<noteq> [] \<Longrightarrow> \<forall>l \<in> set ls. newline \<notin> set l \<Longrightarrow> split_lines (join crlf ls) = ls"
  by (simp add: split_lines_def split_on_join_crlf Let_def drop_cr_def o_def butlast_append)

lemma unfold_lines_id: "\<forall>l \<in> set (tl ls). \<not> is_continuation l \<Longrightarrow> unfold_lines ls = ls"
  by (induction ls rule: unfold_lines.induct) auto

definition property_line :: "string \<Rightarrow> bool" where
  "property_line l \<longleftrightarrow> newline \<notin> set l \<and> \<not> is_continuation l
     \<and> \<not> startsWith l ''BEGIN:VCARD'' \<and> \<not> startsWith l ''END:VCARD''"

lemma vcard_loop_lines:
  "list_all property_line ls \<Longrightarrow>
   vcard_loop tz True c (ls @ rest) = vcard_loop tz True (foldl (parse_property tz) c ls) rest"
  by (induction ls arbitrary: c) (simp_all add: property_line_def)

lemma parseVCard_lines:
  assumes "list_all property_line ls"
  shows "parseVCard tz (join crlf (''BEGIN:VCARD'' # ls @ [''END:VCARD''])) = Some (foldl (parse_property tz) empty_request ls)"
proof -
  let ?all = "''BEGIN:VCARD'' # ls @ [''END:VCARD'']"
  have "\<forall>l \<in> set ?all. newline \<notin> set l"
    using assms by (auto simp: list_all_iff property_line_def newline_def)
  then have "split_lines (join crlf ?all) = ?all" by (intro split_lines_join) simp_all
  moreover have "unfold_lines ?all = ?all"
    using assms by (intro unfold_lines_id) (auto simp: list_all_iff property_line_def is_continuation_def)
  ultimately show ?thesis
    using vcard_loop_lines [OF assms, of tz empty_request "[''END:VCARD'']"]
    by (simp add: parseVCard_def startsWith_def)
qed

lemma index_of_append_new: "c \<notin> set xs \<Longrightarrow> index_of c (xs @ c # ys) = Some (length xs)"
  by (induction xs) auto

lemma parse_property_colon:
  "CHR '':'' \<notin> set name \<Longrightarrow>
   parse_property tz c (name @ CHR '':'' # v)
     = apply_property tz (toUpperCase (hd (split_on (CHR '';'') name))) (tl (split_on (CHR '';'') name)) v c"
  by (simp add: parse_property_def index_of_append_new Let_def)

lemma property_names:
  "toUpperCase ''N'' = ''N''" "toUpperCase ''NICKNAME'' = ''NICKNAME''" "toUpperCase ''ORG'' = ''ORG''"
  "toUpperCase ''TITLE'' = ''TITLE''" "toUpperCase ''BDAY'' = ''BDAY''" "toUpperCase ''ANNIVERSARY'' = ''ANNIVERSARY''"
  "toUpperCase ''URL'' = ''URL''" "toUpperCase ''NOTE'' = ''NOTE''" "toUpperCase ''CATEGORIES'' = ''CATEGORIES''"
  "toUpperCase ''VERSION'' = ''VERSION''" "toUpperCase ''UID'' = ''UID''" "toUpperCase ''FN'' = ''FN''"
  "toUpperCase ''REV'' = ''REV''" "toUpperCase ''EMAIL'' = ''EMAIL''" "toUpperCase ''TEL'' = ''TEL''"
  "toUpperCase ''ADR'' = ''ADR''"
  by code_simp+

lemmas property_name_simps = property_names split_on_no_sep apply_property_def Let_def

subsection \<open>Lemmas: values\<close>

definition plain_text :: "string \<Rightarrow> bool" where
  "plain_text v \<longleftrightarrow> newline \<notin> set v \<and> CHR '','' \<notin> set v \<and> CHR '';'' \<notin> set v \<and> backslash \<notin> set v"

lemma replace_char_absent: "c \<notin> set s \<Longrightarrow> replace_char c r s = s"
  unfolding replace_char_def by (induction s) auto

lemma set_replace_char: "set (replace_char c r s) \<subseteq> (set s - {c}) \<union> set r"
  by (auto simp: replace_char_def)

lemma escape_plain: "plain_text v \<Longrightarrow> escapeVCardValue v = v"
  by (simp add: escapeVCardValue_def plain_text_def replace_char_absent)

lemma escape_no_newline: "newline \<notin> set (escapeVCardValue v)"
  using set_replace_char [of newline] unfolding escapeVCardValue_def
  by (fastforce simp: newline_def backslash_def)

lemma replace_pair_skip: "x \<noteq> a \<Longrightarrow> replace_pair a b r (x # s) = x # replace_pair a b r s"
  by (cases s) auto

lemma escape_note:
  "CHR '';'' \<notin> set v \<Longrightarrow> backslash \<notin> set v \<Longrightarrow>
   escapeVCardValue v = concat (map (\<lambda>x. if x = CHR '','' then [backslash, CHR '','']
       else if x = newline then [backslash, CHR ''n''] else [x]) v)"
proof -
  assume sc: "CHR '';'' \<notin> set v" and bs: "backslash \<notin> set v"
  have "CHR '';'' \<notin> set (replace_char (CHR '','') [backslash, CHR '',''] v)"
    using sc set_replace_char [of "CHR '',''" "[backslash, CHR '','']" v] by (auto simp: backslash_def)
  then have "escapeVCardValue v = replace_char newline [backslash, CHR ''n'']
      (replace_char (CHR '','') [backslash, CHR '',''] v)"
    using bs by (simp add: escapeVCardValue_def replace_char_absent)
  moreover have "backslash \<noteq> newline" "CHR '','' \<noteq> newline" by (simp_all add: newline_def backslash_def)
  then have "replace_char newline [backslash, CHR ''n''] (replace_char (CHR '','') [backslash, CHR '',''] v)
    = concat (map (\<lambda>x. if x = CHR '','' then [backslash, CHR '','']
       else if x = newline then [backslash, CHR ''n''] else [x]) v)"
    unfolding replace_char_def by (induction v) auto
  ultimately show ?thesis by simp
qed

lemma unescape_note:
  "CHR '';'' \<notin> set v \<Longrightarrow> backslash \<notin> set v \<Longrightarrow>
   replace_pair backslash (CHR '','') '','' (replace_pair backslash (CHR ''n'') [newline] (escapeVCardValue v)) = v"
proof -
  assume sc: "CHR '';'' \<notin> set v" and bs: "backslash \<notin> set v"
  have one: "replace_pair backslash (CHR ''n'') [newline]
      (concat (map (\<lambda>x. if x = CHR '','' then [backslash, CHR '','']
       else if x = newline then [backslash, CHR ''n''] else [x]) v))
    = concat (map (\<lambda>x. if x = CHR '','' then [backslash, CHR '',''] else [x]) v)"
    using bs by (induction v) (auto simp: replace_pair_skip backslash_def newline_def)
  have two: "replace_pair backslash (CHR '','') '','' (concat (map (\<lambda>x. if x = CHR '','' then [backslash, CHR '',''] else [x]) v)) = v"
    using bs by (induction v) (auto simp: replace_pair_skip)
  show ?thesis unfolding escape_note [OF sc bs] one two ..
qed

subsection \<open>Lemmas: dates\<close>

lemma length_show_nat_1: "n < 10 \<Longrightarrow> length (show_nat n) = 1"
  by (simp add: show_nat.simps)

lemma length_show_nat_step: "10 \<le> n \<Longrightarrow> length (show_nat n) = Suc (length (show_nat (n div 10)))"
  by (simp add: show_nat.simps [of n])

lemma length_show_nat_4: "1000 \<le> n \<Longrightarrow> n \<le> 9999 \<Longrightarrow> length (show_nat n) = 4"
  using length_show_nat_step [of n] length_show_nat_step [of "n div 10"] length_show_nat_step [of "n div 10 div 10"]
    length_show_nat_1 [of "n div 10 div 10 div 10"] by simp

lemma nat_of_digits_zero: "nat_of_digits (CHR ''0'' # ds) = nat_of_digits ds"
  by (simp add: nat_of_digits_def digit_val_def code_unit_def)

lemma is_digit_0: "is_digit (CHR ''0'')"
  by (simp add: is_digit_def code_unit_def)

definition two_digits :: "string \<Rightarrow> nat \<Rightarrow> bool" where
  "two_digits s n \<longleftrightarrow> length s = 2 \<and> list_all is_digit s \<and> nat_of_digits s = n"

lemma padStart_two: "n < 100 \<Longrightarrow> two_digits (padStart 2 (CHR ''0'') (show_nat n)) n"
proof (cases "n < 10")
  case True
  then show ?thesis
    using length_show_nat_1 [of n]
    by (simp add: two_digits_def padStart_def nat_of_digits_zero is_digit_0 list_all_iff show_nat_digits numeral_2_eq_2)
next
  case False
  assume "n < 100"
  then have "length (show_nat n) = 2"
    using False length_show_nat_step [of n] length_show_nat_1 [of "n div 10"] by simp
  then show ?thesis by (simp add: two_digits_def padStart_def list_all_iff show_nat_digits)
qed

text \<open>A date that the local calendar shows on the day on which it begins in UTC.\<close>

definition stable_day :: "time_zone \<Rightarrow> date \<Rightarrow> bool" where
  "stable_day tz d \<longleftrightarrow> d mod msPerDay = 0 \<and> LocalTime tz d div msPerDay = d div msPerDay
     \<and> 1000 \<le> getFullYear tz d \<and> getFullYear tz d \<le> 9999"

lemma iso_string:
  assumes "length Y = 4" "list_all is_digit Y" "two_digits M m" "two_digits D d"
  shows "iso_date_shape (Y @ ''-'' @ M @ ''-'' @ D)
    \<and> new_Date_iso (Y @ ''-'' @ M @ ''-'' @ D) =
       (if 1 \<le> m \<and> m \<le> 12 \<and> 1 \<le> d \<and> d \<le> 31
        then ValidDate (msPerDay * MakeDay (int (nat_of_digits Y)) (int m - 1) (int d)) else InvalidDate)"
proof -
  obtain y0 y1 y2 y3 where Y: "Y = [y0, y1, y2, y3]" using assms(1) by (auto simp: length_Suc_conv numeral_eq_Suc)
  obtain m0 m1 where M: "M = [m0, m1]" using assms(3) by (auto simp: two_digits_def length_Suc_conv numeral_eq_Suc)
  obtain d0 d1 where D: "D = [d0, d1]" using assms(4) by (auto simp: two_digits_def length_Suc_conv numeral_eq_Suc)
  show ?thesis using assms unfolding two_digits_def Y M D
    by (auto simp: iso_date_shape_def new_Date_iso_def Let_def numeral_eq_Suc)
qed

lemma vcard_date_roundtrip:
  "stable_day tz d \<Longrightarrow> parseVCardDate tz (formatVCardDate tz d) = Some (ValidDate d)"
proof -
  assume st: "stable_day tz d"
  obtain y m k where c: "civil_of_day (d div msPerDay) = (y, m, k)" by (cases "civil_of_day (d div msPerDay)") auto
  from civil_of_day_valid [OF c] have v: "0 \<le> m" "m \<le> 11" "1 \<le> k" "k \<le> days_in_month y m"
    "MakeDay y m k = d div msPerDay" by auto
  have k31: "k \<le> 31" using v(4) month_cases [OF v(1,2)]
    by (auto simp: days_in_month_def days_before_month_def Let_def split: if_splits)
  from st c have g: "getFullYear tz d = y" "getMonth tz d = m" "getDate tz d = k" "1000 \<le> y" "y \<le> 9999"
    by (auto simp: stable_day_def getFullYear_def getMonth_def getDate_def local_civil_def)
  have f: "formatVCardDate tz d = show_nat (nat y) @ ''-'' @ padStart 2 (CHR ''0'') (show_nat (nat (m + 1)))
      @ ''-'' @ padStart 2 (CHR ''0'') (show_nat (nat k))"
    using g v by (simp add: formatVCardDate_def show_int_def)
  have Y: "length (show_nat (nat y)) = 4" "list_all is_digit (show_nat (nat y))"
    using g length_show_nat_4 [of "nat y"] by (auto simp: list_all_iff show_nat_digits)
  have "two_digits (padStart 2 (CHR ''0'') (show_nat (nat (m + 1)))) (nat (m + 1))"
    "two_digits (padStart 2 (CHR ''0'') (show_nat (nat k))) (nat k)"
    using v k31 by (auto intro!: padStart_two)
  from iso_string [OF Y this] have i: "iso_date_shape (formatVCardDate tz d)"
    "new_Date_iso (formatVCardDate tz d) = ValidDate (msPerDay * MakeDay y m k)"
    unfolding f using v k31 g by auto
  have "msPerDay * MakeDay y m k = d" unfolding v(5) using st mult_div_mod_eq [of msPerDay d] by (simp add: stable_day_def)
  with i show ?thesis by (simp add: parseVCardDate_def)
qed

lemma formatVCardDate_no_newline: "newline \<notin> set (formatVCardDate tz d)"
proof -
  have "\<not> is_digit newline" by (simp add: is_digit_def newline_def code_unit_def)
  then have "newline \<notin> set (show_int i)" for i
    by (auto simp: show_int_def newline_def dest: show_nat_digits)
  then show ?thesis by (auto simp: formatVCardDate_def padStart_def newline_def)
qed

subsection \<open>Lemmas: one line each\<close>

lemma property_line_intro:
  "newline \<notin> set (c # d # r) \<Longrightarrow> c \<noteq> CHR '' '' \<Longrightarrow> c \<noteq> CHR 0x09 \<Longrightarrow> \<not> (c = CHR ''B'' \<and> d = CHR ''E'') \<Longrightarrow>
   \<not> (c = CHR ''E'' \<and> d = CHR ''N'') \<Longrightarrow>
   property_line (c # d # r)"
  by (auto simp: property_line_def is_continuation_def startsWith_def)

lemma or_undefined_or_default [simp]: "or_undefined (Some (or_default x [])) = or_undefined x"
  by (cases x) auto

definition entry_types :: "string list" where
  "entry_types = [''home'', ''work'', ''mobile'', ''fax'', ''other'']"

lemma type_line:
  "t \<in> set entry_types \<Longrightarrow>
   split_on (CHR '';'') (''EMAIL;TYPE='' @ toUpperCase t) = [''EMAIL'', ''TYPE='' @ toUpperCase t]
   \<and> split_on (CHR '';'') (''TEL;TYPE='' @ toUpperCase t) = [''TEL'', ''TYPE='' @ toUpperCase t]
   \<and> split_on (CHR '';'') (''ADR;TYPE='' @ toUpperCase t) = [''ADR'', ''TYPE='' @ toUpperCase t]
   \<and> type_param [''TYPE='' @ toUpperCase t] = Some t \<and> t \<noteq> []
   \<and> CHR '':'' \<notin> set (toUpperCase t) \<and> newline \<notin> set (toUpperCase t)"
proof -
  have "list_all (\<lambda>t. split_on (CHR '';'') (''EMAIL;TYPE='' @ toUpperCase t) = [''EMAIL'', ''TYPE='' @ toUpperCase t]
     \<and> split_on (CHR '';'') (''TEL;TYPE='' @ toUpperCase t) = [''TEL'', ''TYPE='' @ toUpperCase t]
     \<and> split_on (CHR '';'') (''ADR;TYPE='' @ toUpperCase t) = [''ADR'', ''TYPE='' @ toUpperCase t]
     \<and> type_param [''TYPE='' @ toUpperCase t] = Some t \<and> t \<noteq> []
     \<and> CHR '':'' \<notin> set (toUpperCase t) \<and> newline \<notin> set (toUpperCase t)) entry_types" by code_simp
  then show "t \<in> set entry_types \<Longrightarrow> ?thesis" unfolding list_all_iff by blast
qed

lemma parse_email_line:
  "t \<in> set entry_types \<Longrightarrow>
   parse_property tz c (''EMAIL;TYPE='' @ toUpperCase t @ '':'' @ v)
     = c\<lparr>cr_emails := map_option (\<lambda>es. es @ [\<lparr>en_type = t, en_value = v, en_isPrimary = False\<rparr>]) (cr_emails c)\<rparr>"
  using type_line [of t] parse_property_colon [of "''EMAIL;TYPE='' @ toUpperCase t" tz c v]
  by (simp add: property_name_simps)

lemma parse_tel_line:
  "t \<in> set entry_types \<Longrightarrow>
   parse_property tz c (''TEL;TYPE='' @ toUpperCase t @ '':'' @ v)
     = c\<lparr>cr_phones := map_option (\<lambda>es. es @ [\<lparr>en_type = t, en_value = v, en_isPrimary = False\<rparr>]) (cr_phones c)\<rparr>"
  using type_line [of t] parse_property_colon [of "''TEL;TYPE='' @ toUpperCase t" tz c v]
  by (simp add: property_name_simps)

definition clean_address :: "postal_address \<Rightarrow> postal_address" where
  "clean_address a = a\<lparr>pa_street := or_undefined (pa_street a), pa_city := or_undefined (pa_city a),
     pa_state := or_undefined (pa_state a), pa_postalCode := or_undefined (pa_postalCode a),
     pa_country := or_undefined (pa_country a)\<rparr>"

lemma clean_address_alt:
  "clean_address a = \<lparr>pa_type = pa_type a, pa_street = or_undefined (pa_street a), pa_city = or_undefined (pa_city a),
     pa_state = or_undefined (pa_state a), pa_postalCode = or_undefined (pa_postalCode a),
     pa_country = or_undefined (pa_country a)\<rparr>"
  by (cases a) (simp add: clean_address_def)

definition address_parts :: "postal_address \<Rightarrow> string list" where
  "address_parts a = [or_default (pa_street a) [], or_default (pa_city a) [],
     or_default (pa_state a) [], or_default (pa_postalCode a) [], or_default (pa_country a) []]"

definition address_ok :: "postal_address \<Rightarrow> bool" where
  "address_ok a \<longleftrightarrow> pa_type a \<in> set entry_types
     \<and> list_all (\<lambda>s. newline \<notin> set s \<and> CHR '';'' \<notin> set s) (address_parts a)"

lemma parse_adr_line:
  "address_ok a \<Longrightarrow>
   parse_property tz c (''ADR;TYPE='' @ toUpperCase (pa_type a) @ '':'' @ adr_value a)
     = c\<lparr>cr_addresses := map_option (\<lambda>as. as @ [clean_address a]) (cr_addresses c)\<rparr>"
proof -
  assume ok: "address_ok a"
  have vs: "split_on (CHR '';'') (adr_value a) = [[], []] @ address_parts a"
    unfolding adr_value_def using ok
    by (subst split_on_join) (auto simp: address_ok_def address_parts_def)
  show ?thesis
    using ok type_line [of "pa_type a"] parse_property_colon [of "''ADR;TYPE='' @ toUpperCase (pa_type a)" tz c "adr_value a"]
    by (simp add: property_name_simps address_ok_def vs part_def address_parts_def clean_address_alt
          del: or_undefined.simps)
qed

lemma foldl_emails:
  "list_all (\<lambda>e. en_type e \<in> set entry_types) es \<Longrightarrow>
   foldl (parse_property tz) c (map (\<lambda>e. ''EMAIL;TYPE='' @ toUpperCase (en_type e) @ '':'' @ en_value e) es)
     = c\<lparr>cr_emails := map_option (\<lambda>xs. xs @ map (\<lambda>e. e\<lparr>en_isPrimary := False\<rparr>) es) (cr_emails c)\<rparr>"
proof (induction es arbitrary: c)
  case (Cons e es)
  then show ?case by (cases e; cases "cr_emails c") (simp_all add: parse_email_line [simplified])
qed (simp add: option.map_ident)

lemma foldl_phones:
  "list_all (\<lambda>e. en_type e \<in> set entry_types) es \<Longrightarrow>
   foldl (parse_property tz) c (map (\<lambda>e. ''TEL;TYPE='' @ toUpperCase (en_type e) @ '':'' @ en_value e) es)
     = c\<lparr>cr_phones := map_option (\<lambda>xs. xs @ map (\<lambda>e. e\<lparr>en_isPrimary := False\<rparr>) es) (cr_phones c)\<rparr>"
proof (induction es arbitrary: c)
  case (Cons e es)
  then show ?case by (cases e; cases "cr_phones c") (simp_all add: parse_tel_line [simplified])
qed (simp add: option.map_ident)

lemma foldl_addresses:
  "list_all address_ok as \<Longrightarrow>
   foldl (parse_property tz) c (map (\<lambda>a. ''ADR;TYPE='' @ toUpperCase (pa_type a) @ '':'' @ adr_value a) as)
     = c\<lparr>cr_addresses := map_option (\<lambda>xs. xs @ map clean_address as) (cr_addresses c)\<rparr>"
proof (induction "as" arbitrary: c)
  case (Cons a "as")
  then show ?case by (cases "cr_addresses c") (simp_all add: parse_adr_line [simplified])
qed (simp add: option.map_ident)

subsection \<open>Lemmas: the contact that is read back\<close>

definition request_of_contact :: "contact \<Rightarrow> contact_request" where
  "request_of_contact c =
     \<lparr>cr_prefix = or_undefined (ct_prefix c), cr_firstName = or_undefined (ct_firstName c),
      cr_middleName = or_undefined (ct_middleName c), cr_lastName = or_undefined (ct_lastName c),
      cr_suffix = or_undefined (ct_suffix c), cr_nickname = or_undefined (ct_nickname c),
      cr_company = or_undefined (ct_company c), cr_jobTitle = or_undefined (ct_jobTitle c),
      cr_department = or_undefined (ct_department c),
      cr_emails = Some (map (\<lambda>e. e\<lparr>en_isPrimary := False\<rparr>) (ct_emails c)),
      cr_phones = Some (map (\<lambda>e. e\<lparr>en_isPrimary := False\<rparr>) (ct_phones c)),
      cr_addresses = Some (map clean_address (ct_addresses c)),
      cr_birthday = map_option ValidDate (ct_birthday c), cr_anniversary = map_option ValidDate (ct_anniversary c),
      cr_website = or_undefined (ct_website c), cr_notes = or_undefined (ct_notes c),
      cr_labels = Some (ct_labels c)\<rparr>"

definition entry_ok :: "entry \<Rightarrow> bool" where
  "entry_ok e \<longleftrightarrow> en_type e \<in> set entry_types \<and> newline \<notin> set (en_value e)"

definition label_ok :: "string \<Rightarrow> bool" where
  "label_ok l \<longleftrightarrow> newline \<notin> set l \<and> CHR '','' \<notin> set l \<and> trim l = l"

definition name_parts :: "contact \<Rightarrow> string list" where
  "name_parts c = [or_default (ct_lastName c) [], or_default (ct_firstName c) [],
     or_default (ct_middleName c) [], or_default (ct_prefix c) [], or_default (ct_suffix c) []]"

definition vcard_safe :: "time_zone \<Rightarrow> contact \<Rightarrow> bool" where
  "vcard_safe tz c \<longleftrightarrow>
     newline \<notin> set (ct_uid c)
     \<and> list_all (\<lambda>s. newline \<notin> set s \<and> CHR '';'' \<notin> set s) (name_parts c)
     \<and> list_all plain_text [nullish (ct_nickname c) [], nullish (ct_company c) [], nullish (ct_department c) [],
          nullish (ct_jobTitle c) []]
     \<and> list_all entry_ok (ct_emails c) \<and> list_all entry_ok (ct_phones c) \<and> list_all address_ok (ct_addresses c)
     \<and> list_all (stable_day tz) (case ct_birthday c of None \<Rightarrow> [] | Some d \<Rightarrow> [d])
     \<and> list_all (stable_day tz) (case ct_anniversary c of None \<Rightarrow> [] | Some d \<Rightarrow> [d])
     \<and> newline \<notin> set (nullish (ct_website c) [])
     \<and> CHR '';'' \<notin> set (nullish (ct_notes c) []) \<and> backslash \<notin> set (nullish (ct_notes c) [])
     \<and> list_all label_ok (ct_labels c)"

abbreviation inner_lines :: "time_zone \<Rightarrow> contact \<Rightarrow> string list" where
  "inner_lines tz c \<equiv> tl (butlast (vcard_lines tz c))"

lemma vcard_lines_split: "vcard_lines tz c = ''BEGIN:VCARD'' # inner_lines tz c @ [''END:VCARD'']"
  by (simp add: vcard_lines_def butlast_append)

lemma newline_not_letter: "newline \<noteq> CHR '';''" "newline \<noteq> CHR '',''" "newline \<noteq> CHR '':''" "newline \<noteq> CHR ''=''"
  "newline \<noteq> CHR ''.''" "newline \<noteq> CHR ''0''" "newline \<noteq> CHR ''3''"
  "newline \<noteq> CHR ''A''" "newline \<noteq> CHR ''B''" "newline \<noteq> CHR ''C''" "newline \<noteq> CHR ''D''" "newline \<noteq> CHR ''E''"
  "newline \<noteq> CHR ''F''" "newline \<noteq> CHR ''G''" "newline \<noteq> CHR ''I''" "newline \<noteq> CHR ''K''" "newline \<noteq> CHR ''L''"
  "newline \<noteq> CHR ''M''" "newline \<noteq> CHR ''N''" "newline \<noteq> CHR ''O''" "newline \<noteq> CHR ''P''" "newline \<noteq> CHR ''R''"
  "newline \<noteq> CHR ''S''" "newline \<noteq> CHR ''T''" "newline \<noteq> CHR ''U''" "newline \<noteq> CHR ''V''" "newline \<noteq> CHR ''Y''"
  by (simp_all add: newline_def)

lemma join_no_newline:
  "newline \<notin> set sep \<Longrightarrow> \<forall>x \<in> set xs. newline \<notin> set x \<Longrightarrow> newline \<notin> set (join sep xs)"
  using set_join [of sep xs] by blast

lemmas line_free = newline_not_letter escape_no_newline formatVCardDate_no_newline join_no_newline

lemma entry_lines:
  "entry_ok e \<Longrightarrow> property_line (''EMAIL;TYPE='' @ toUpperCase (en_type e) @ '':'' @ en_value e)"
  "entry_ok e \<Longrightarrow> property_line (''TEL;TYPE='' @ toUpperCase (en_type e) @ '':'' @ en_value e)"
  using type_line [of "en_type e"]
  by (auto simp: entry_ok_def line_free intro!: property_line_intro)

lemma adr_value_no_newline: "address_ok a \<Longrightarrow> newline \<notin> set (adr_value a)"
  unfolding adr_value_def
  by (rule join_no_newline) (auto simp: newline_not_letter address_ok_def address_parts_def)

lemma address_lines:
  "address_ok a \<Longrightarrow> property_line (''ADR;TYPE='' @ toUpperCase (pa_type a) @ '':'' @ adr_value a)"
  using type_line [of "pa_type a"] adr_value_no_newline [of a]
  by (auto simp: address_ok_def line_free intro!: property_line_intro)

lemma inner_lines_split: "inner_lines tz c =
     [''VERSION:3.0'', ''UID:'' @ ct_uid c, ''N:'' @ join '';'' (name_parts c), ''FN:'' @ escapeVCardValue (ct_displayName c)]
     @ (if truthy (ct_nickname c) then [''NICKNAME:'' @ escapeVCardValue (nullish (ct_nickname c) [])] else [])
     @ (if truthy (ct_company c) \<or> truthy (ct_department c)
        then [''ORG:'' @ escapeVCardValue (or_default (ct_company c) []) @ '';''
                @ escapeVCardValue (or_default (ct_department c) [])] else [])
     @ (if truthy (ct_jobTitle c) then [''TITLE:'' @ escapeVCardValue (nullish (ct_jobTitle c) [])] else [])
     @ map (\<lambda>e. ''EMAIL;TYPE='' @ toUpperCase (en_type e) @ '':'' @ en_value e) (ct_emails c)
     @ map (\<lambda>e. ''TEL;TYPE='' @ toUpperCase (en_type e) @ '':'' @ en_value e) (ct_phones c)
     @ map (\<lambda>a. ''ADR;TYPE='' @ toUpperCase (pa_type a) @ '':'' @ adr_value a) (ct_addresses c)
     @ (case ct_birthday c of None \<Rightarrow> [] | Some d \<Rightarrow> [''BDAY:'' @ formatVCardDate tz d])
     @ (case ct_anniversary c of None \<Rightarrow> [] | Some d \<Rightarrow> [''ANNIVERSARY:'' @ formatVCardDate tz d])
     @ (if truthy (ct_website c) then [''URL:'' @ nullish (ct_website c) []] else [])
     @ (if truthy (ct_notes c) then [''NOTE:'' @ escapeVCardValue (nullish (ct_notes c) [])] else [])
     @ (if length (ct_labels c) > 0 then [''CATEGORIES:'' @ join '','' (ct_labels c)] else [])
     @ [''REV:'' @ formatVCardDate tz (ct_updatedAt c)]"
  by (simp add: vcard_lines_def name_parts_def butlast_append)

lemma typed_lines_ok:
  assumes "vcard_safe tz c"
  shows "list_all property_line (map (\<lambda>e. ''EMAIL;TYPE='' @ toUpperCase (en_type e) @ '':'' @ en_value e) (ct_emails c))"
    and "list_all property_line (map (\<lambda>e. ''TEL;TYPE='' @ toUpperCase (en_type e) @ '':'' @ en_value e) (ct_phones c))"
    and "list_all property_line (map (\<lambda>a. ''ADR;TYPE='' @ toUpperCase (pa_type a) @ '':'' @ adr_value a) (ct_addresses c))"
  using assms entry_lines address_lines by (auto simp: vcard_safe_def list_all_iff simp del: append.simps)

lemma inner_lines_ok: "vcard_safe tz c \<Longrightarrow> list_all property_line (inner_lines tz c)"
proof -
  assume safe: "vcard_safe tz c"
  have names: "newline \<notin> set (join '';'' (name_parts c))"
    using safe by (intro join_no_newline) (auto simp: newline_not_letter vcard_safe_def list_all_iff)
  have labels: "newline \<notin> set (join '','' (ct_labels c))"
    using safe by (intro join_no_newline) (auto simp: newline_not_letter label_ok_def vcard_safe_def list_all_iff)
  have others: "newline \<notin> set (ct_uid c)" "newline \<notin> set (nullish (ct_website c) [])"
    using safe by (simp_all add: vcard_safe_def)
  show ?thesis
    unfolding inner_lines_split list_all_append
    by (intro conjI typed_lines_ok [OF safe])
       (simp_all add: line_free names labels others property_line_intro split: option.split)
qed

lemma parse_head_lines:
  "vcard_safe tz c \<Longrightarrow> foldl (parse_property tz) empty_request
     [''VERSION:3.0'', ''UID:'' @ ct_uid c, ''N:'' @ join '';'' (name_parts c),
      ''FN:'' @ escapeVCardValue (ct_displayName c)]
   = empty_request\<lparr>cr_lastName := or_undefined (ct_lastName c), cr_firstName := or_undefined (ct_firstName c),
      cr_middleName := or_undefined (ct_middleName c), cr_prefix := or_undefined (ct_prefix c),
      cr_suffix := or_undefined (ct_suffix c)\<rparr>"
proof -
  assume safe: "vcard_safe tz c"
  have vs: "split_on (CHR '';'') (join '';'' (name_parts c)) = name_parts c"
    using safe by (intro split_on_join) (auto simp: vcard_safe_def list_all_iff name_parts_def)
  show ?thesis
    using parse_property_colon [of "''VERSION''" tz _ "''3.0''"] parse_property_colon [of "''UID''" tz]
      parse_property_colon [of "''N''" tz] parse_property_colon [of "''FN''" tz]
    by (simp add: property_name_simps vs) (simp add: part_def name_parts_def del: or_undefined.simps)
qed

lemma parse_single_lines:
  "plain_text v \<Longrightarrow> parse_property tz c (''NICKNAME:'' @ escapeVCardValue v) = c\<lparr>cr_nickname := Some v\<rparr>"
  "plain_text v \<Longrightarrow> parse_property tz c (''TITLE:'' @ escapeVCardValue v) = c\<lparr>cr_jobTitle := Some v\<rparr>"
  "parse_property tz c (''URL:'' @ v) = c\<lparr>cr_website := Some v\<rparr>"
  "CHR '';'' \<notin> set v \<Longrightarrow> backslash \<notin> set v \<Longrightarrow>
   parse_property tz c (''NOTE:'' @ escapeVCardValue v) = c\<lparr>cr_notes := Some v\<rparr>"
  "stable_day tz d \<Longrightarrow> parse_property tz c (''BDAY:'' @ formatVCardDate tz d) = c\<lparr>cr_birthday := Some (ValidDate d)\<rparr>"
  "stable_day tz d \<Longrightarrow>
   parse_property tz c (''ANNIVERSARY:'' @ formatVCardDate tz d) = c\<lparr>cr_anniversary := Some (ValidDate d)\<rparr>"
  "parse_property tz c (''REV:'' @ v) = c"
  using parse_property_colon [of "''NICKNAME''" tz c] parse_property_colon [of "''TITLE''" tz c]
    parse_property_colon [of "''URL''" tz c] parse_property_colon [of "''NOTE''" tz c]
    parse_property_colon [of "''BDAY''" tz c] parse_property_colon [of "''ANNIVERSARY''" tz c]
    parse_property_colon [of "''REV''" tz c]
  by (simp_all add: property_name_simps escape_plain unescape_note vcard_date_roundtrip)

lemma parse_org_line:
  "plain_text v \<Longrightarrow> plain_text w \<Longrightarrow>
   parse_property tz c (''ORG:'' @ escapeVCardValue v @ '';'' @ escapeVCardValue w)
     = c\<lparr>cr_company := or_undefined (Some v), cr_department := or_undefined (Some w)\<rparr>"
proof -
  assume v: "plain_text v" and w: "plain_text w"
  have "split_on (CHR '';'') (v @ CHR '';'' # w) = [v, w]"
    using v w by (simp add: plain_text_def split_on_append_sep split_on_no_sep)
  with parse_property_colon [of "''ORG''" tz c "v @ CHR '';'' # w"] v w show ?thesis
    by (simp add: property_name_simps escape_plain part_def del: or_undefined.simps)
qed

lemma parse_categories_line:
  "ls \<noteq> [] \<Longrightarrow> list_all label_ok ls \<Longrightarrow>
   parse_property tz c (''CATEGORIES:'' @ join '','' ls) = c\<lparr>cr_labels := Some ls\<rparr>"
proof -
  assume ne: "ls \<noteq> []" and ok: "list_all label_ok ls"
  have "map trim (split_on (CHR '','') (join '','' ls)) = ls"
    using ne ok by (subst split_on_join) (auto simp: list_all_iff label_ok_def intro!: map_idI)
  with parse_property_colon [of "''CATEGORIES''" tz c "join '','' ls"] show ?thesis
    by (simp add: property_name_simps)
qed

text \<open>The optional lines, each written only when the field is there.\<close>

lemma parse_optional:
  "plain_text (nullish v []) \<Longrightarrow> foldl (parse_property tz) c
      (if truthy v then [''NICKNAME:'' @ escapeVCardValue (nullish v [])] else [])
    = c\<lparr>cr_nickname := if truthy v then v else cr_nickname c\<rparr>"
  "plain_text (nullish v []) \<Longrightarrow> foldl (parse_property tz) c
      (if truthy v then [''TITLE:'' @ escapeVCardValue (nullish v [])] else [])
    = c\<lparr>cr_jobTitle := if truthy v then v else cr_jobTitle c\<rparr>"
  "foldl (parse_property tz) c (if truthy v then [''URL:'' @ nullish v []] else [])
    = c\<lparr>cr_website := if truthy v then v else cr_website c\<rparr>"
  "CHR '';'' \<notin> set (nullish v []) \<Longrightarrow> backslash \<notin> set (nullish v []) \<Longrightarrow> foldl (parse_property tz) c
      (if truthy v then [''NOTE:'' @ escapeVCardValue (nullish v [])] else [])
    = c\<lparr>cr_notes := if truthy v then v else cr_notes c\<rparr>"
  "list_all (stable_day tz) (case d of None \<Rightarrow> [] | Some d \<Rightarrow> [d]) \<Longrightarrow> foldl (parse_property tz) c
      (case d of None \<Rightarrow> [] | Some d \<Rightarrow> [''BDAY:'' @ formatVCardDate tz d])
    = c\<lparr>cr_birthday := (case d of None \<Rightarrow> cr_birthday c | Some d \<Rightarrow> Some (ValidDate d))\<rparr>"
  "list_all (stable_day tz) (case d of None \<Rightarrow> [] | Some d \<Rightarrow> [d]) \<Longrightarrow> foldl (parse_property tz) c
      (case d of None \<Rightarrow> [] | Some d \<Rightarrow> [''ANNIVERSARY:'' @ formatVCardDate tz d])
    = c\<lparr>cr_anniversary := (case d of None \<Rightarrow> cr_anniversary c | Some d \<Rightarrow> Some (ValidDate d))\<rparr>"
  by (cases v; cases d; simp add: parse_single_lines [simplified])+

lemma parse_optional_org:
  "plain_text (nullish v []) \<Longrightarrow> plain_text (nullish w []) \<Longrightarrow> foldl (parse_property tz) c
      (if truthy v \<or> truthy w then [''ORG:'' @ escapeVCardValue (or_default v []) @ '';''
          @ escapeVCardValue (or_default w [])] else [])
    = c\<lparr>cr_company := if truthy v \<or> truthy w then or_undefined v else cr_company c,
        cr_department := if truthy v \<or> truthy w then or_undefined w else cr_department c\<rparr>"
proof -
  assume "plain_text (nullish v [])" "plain_text (nullish w [])"
  then have "plain_text (or_default v [])" "plain_text (or_default w [])"
    by (cases v; cases w; auto simp: plain_text_def)+
  from parse_org_line [OF this, of tz c] show ?thesis by (simp del: or_undefined.simps)
qed

lemma parse_optional_categories:
  "list_all label_ok ls \<Longrightarrow> foldl (parse_property tz) c
      (if length ls > 0 then [''CATEGORIES:'' @ join '','' ls] else [])
    = c\<lparr>cr_labels := if ls = [] then cr_labels c else Some ls\<rparr>"
  using parse_categories_line [of ls tz c] by simp

lemma inner_lines_request:
  assumes safe: "vcard_safe tz c"
  shows "foldl (parse_property tz) empty_request (inner_lines tz c) = request_of_contact c"
proof -
  have ok: "plain_text (nullish (ct_nickname c) [])" "plain_text (nullish (ct_company c) [])"
    "plain_text (nullish (ct_department c) [])" "plain_text (nullish (ct_jobTitle c) [])"
    "list_all (\<lambda>e. en_type e \<in> set entry_types) (ct_emails c)" "list_all (\<lambda>e. en_type e \<in> set entry_types) (ct_phones c)"
    "list_all address_ok (ct_addresses c)"
    "list_all (stable_day tz) (case ct_birthday c of None \<Rightarrow> [] | Some d \<Rightarrow> [d])"
    "list_all (stable_day tz) (case ct_anniversary c of None \<Rightarrow> [] | Some d \<Rightarrow> [d])"
    "CHR '';'' \<notin> set (nullish (ct_notes c) [])" "backslash \<notin> set (nullish (ct_notes c) [])"
    "list_all label_ok (ct_labels c)"
    using safe by (auto simp: vcard_safe_def entry_ok_def list_all_iff)
  have rev: "foldl (parse_property tz) r [''REV:'' @ v] = r" for r v
    unfolding foldl.simps parse_single_lines ..
  have u: "(if truthy v then v else None) = or_undefined v" for v by (cases v) auto
  have d: "(case d of None \<Rightarrow> None | Some d \<Rightarrow> Some (ValidDate d)) = map_option ValidDate d" for d by (cases d) auto
  have l: "(if ls = [] then Some [] else Some ls) = Some ls" for ls :: "string list" by simp
  have o: "(if truthy v \<or> truthy w then or_undefined v else None) = or_undefined v"
    "(if truthy v \<or> truthy w then or_undefined w else None) = or_undefined w" for v w by (cases v; cases w; simp)+
  show ?thesis
    unfolding inner_lines_split foldl_append parse_head_lines [OF safe] parse_optional(1) [OF ok(1)] parse_optional_org [OF ok(2,3)]
      parse_optional(2) [OF ok(4)] foldl_emails [OF ok(5)] foldl_phones [OF ok(6)] foldl_addresses [OF ok(7)]
      parse_optional(5) [OF ok(8)] parse_optional(6) [OF ok(9)] parse_optional(3) parse_optional(4) [OF ok(10,11)]
      parse_optional_categories [OF ok(12)] rev
    by (simp add: request_of_contact_def empty_request_def u o d l split del: if_split cong: if_cong option.case_cong)
qed

subsection \<open>Properties\<close>


definition full_contact :: contact where
  "full_contact =
     \<lparr>ct_id = ''1'', ct_ownerId = ''o'', ct_uid = ''u-1'', ct_prefix = Some ''Dr'', ct_firstName = Some ''Ann'',
      ct_middleName = None, ct_lastName = Some ''Lee'', ct_suffix = None, ct_nickname = Some ''al'',
      ct_displayName = ''Lee; Ann'', ct_company = Some ''Acme'', ct_jobTitle = None, ct_department = None,
      ct_emails = [\<lparr>en_type = ''work'', en_value = ''a@b.c'', en_isPrimary = True\<rparr>],
      ct_phones = [\<lparr>en_type = ''mobile'', en_value = ''+1;2:3'', en_isPrimary = False\<rparr>],
      ct_addresses = [\<lparr>pa_type = ''home'', pa_street = Some ''1 Elm'', pa_city = None, pa_state = None,
        pa_postalCode = None, pa_country = Some ''CN''\<rparr>],
      ct_birthday = Some (msPerDay * 11016), ct_anniversary = None, ct_website = Some ''http://x.y'',
      ct_notes = Some [CHR ''a'', CHR '','', newline, CHR ''b''], ct_photoUrl = None, ct_labels = [''x'', ''y z''],
      ct_isFavorite = False, ct_createdAt = 0, ct_updatedAt = 1\<rparr>"


text \<open>
  The two directions disagree on escapes: a nickname with a comma comes back with a backslash
  that was not there.
\<close>

theorem vcard_nickname_escape:
  "map_option cr_nickname (parseVCard (fixed_zone 0) (generateVCard (fixed_zone 0)
     ((sample_contact ''1'' ''n'' [] [])\<lparr>ct_nickname := Some ''a,b''\<rparr>)))
     = Some (Some [CHR ''a'', backslash, CHR '','', CHR ''b''])"
  by code_simp

text \<open>
  A birthday is written in local time and read in UTC: west of Greenwich the day read back is the
  day before.
\<close>

theorem vcard_birthday_shift:
  "parseVCardDate (fixed_zone (- 18000000)) (formatVCardDate (fixed_zone (- 18000000)) (msPerDay * 11016))
     = Some (ValidDate (msPerDay * 11015))"
  by code_simp

text \<open>
  Name fields are written without escaping: a first name with a line feed adds a property of its
  own to the card, here an e-mail address the contact does not have.
\<close>

theorem vcard_name_injection:
  "map_option cr_emails (parseVCard (fixed_zone 0) (generateVCard (fixed_zone 0)
     ((sample_contact ''1'' ''n'' [] [])\<lparr>ct_firstName := Some (''A'' @ newline # ''EMAIL:x@evil.example'')\<rparr>)))
   = Some (Some [\<lparr>en_type = ''other'', en_value = ''x@evil.example;;;'', en_isPrimary = False\<rparr>])"
  by code_simp

text \<open>
  The splitter finds cards in any letter case, the parser only in capitals: a card that begins
  with \<open>begin:vcard\<close> is imported as a contact without any data.
\<close>

theorem vcard_lowercase_import:
  "parseVCards (fixed_zone 0) (join crlf [''begin:vcard'', ''N:Lee;Ann'', ''end:vcard'']) = [empty_request]"
  by code_simp

end
