(* ===== verification/Dayjs.thy ===== *)
theory Dayjs
  imports JsDate
begin

text \<open>
  The interface of the calendar code to the third-party library \<open>dayjs\<close>: the operations that are
  called, as a record that the definitions take as an argument, and a locale with the documented
  facts that the theorems rely on. The locale is interpreted on \<open>utc_dayjs\<close>, the library's
  behaviour for a host in UTC as far as the calendar arithmetic is concerned.
\<close>

datatype time_unit = UDay | UWeek | UMonth | UYear

record dayjs =
  dj_add :: "int \<Rightarrow> time_unit \<Rightarrow> date \<Rightarrow> date"
  dj_isSameDay :: "date \<Rightarrow> date \<Rightarrow> bool"
  dj_day :: "date \<Rightarrow> int"
  dj_date :: "date \<Rightarrow> int"
  dj_month :: "date \<Rightarrow> int"
  dj_format :: "string \<Rightarrow> date \<Rightarrow> string"
  dj_formatUtc :: "string \<Rightarrow> js_date \<Rightarrow> string"
  dj_parse :: "string \<Rightarrow> string \<Rightarrow> js_date"

text \<open>Adding a positive amount moves forward, and whole weeks keep the day of the week.\<close>

locale dayjs_clock =
  fixes dj :: dayjs
  assumes add_later: "0 < n \<Longrightarrow> d < dj_add dj n u d"
    and week_day: "dj_day dj (dj_add dj n UWeek d) = dj_day dj d"
    and day_range: "0 \<le> dj_day dj d \<and> dj_day dj d < 7"

subsection \<open>The calendar arithmetic in UTC\<close>

definition month_start :: "int \<Rightarrow> int" where
  "month_start i = MakeDay (i div 12) (i mod 12) 1"

definition add_months :: "int \<Rightarrow> date \<Rightarrow> date" where
  "add_months n t =
     (case civil_of_day (t div msPerDay) of (y, m, d) \<Rightarrow>
        let i = 12 * y + m + n
        in msPerDay * (month_start i + min d (days_in_month (i div 12) (i mod 12)) - 1) + t mod msPerDay)"

definition utc_dayjs :: dayjs where
  "utc_dayjs =
     \<lparr>dj_add = (\<lambda>n u t. case u of UDay \<Rightarrow> t + n * msPerDay | UWeek \<Rightarrow> t + 7 * n * msPerDay
         | UMonth \<Rightarrow> add_months n t | UYear \<Rightarrow> add_months (12 * n) t),
      dj_isSameDay = (\<lambda>a b. a div msPerDay = b div msPerDay),
      dj_day = (\<lambda>t. (t div msPerDay + 4) mod 7),
      dj_date = (\<lambda>t. snd (snd (civil_of_day (t div msPerDay)))),
      dj_month = (\<lambda>t. fst (snd (civil_of_day (t div msPerDay)))),
      dj_format = (\<lambda>f t. show_int (t div msPerDay)),
      dj_formatUtc = (\<lambda>f t. case t of InvalidDate \<Rightarrow> ''Invalid Date'' | ValidDate t \<Rightarrow> show_int t),
      dj_parse = (\<lambda>s f. ValidDate (int (nat_of_digits s)))\<rparr>"

lemma days_in_month_pos: "0 \<le> m \<Longrightarrow> m \<le> 11 \<Longrightarrow> 28 \<le> days_in_month y m"
  using month_cases [of m] by (auto simp: days_in_month_def days_before_month_def Let_def)

lemma days_in_month_mod: "28 \<le> days_in_month y (i mod 12)"
  using pos_mod_bound [of 12 i] pos_mod_sign [of 12 i] by (intro days_in_month_pos) linarith+

lemma month_start_Suc: "month_start (i + 1) = month_start i + days_in_month (i div 12) (i mod 12)"
proof -
  have m: "0 \<le> i mod 12" "i mod 12 \<le> 11" using pos_mod_bound [of 12 i] by auto
  have x: "(i + 1) mod 12 = (if i mod 12 = 11 then 0 else i mod 12 + 1)" using mod_succ [of 12 i] by simp
  have z: "(i + 1) div 12 = i div 12 + (if i mod 12 = 11 then 1 else 0)"
    using div_succ [of 12 i] m unfolding x by auto
  obtain y k where yk: "i div 12 = y" "i mod 12 = k" by simp
  have b12: "days_before_month l 12 = (if l then 366 else 365)" "days_before_month l 0 = 0" for l
    by (simp_all add: days_before_month_def Let_def)
  show ?thesis
    using m unfolding month_start_def MakeDay_def x z yk days_in_month_def
    by (cases "k = 11") (simp_all add: DayFromYear_Suc b12)
qed

lemma month_start_less: "i < j \<Longrightarrow> month_start i + days_in_month (i div 12) (i mod 12) \<le> month_start j"
proof (induction "nat (j - i)" arbitrary: j)
  case (Suc k)
  show ?case
  proof (cases "j = i + 1")
    case False
    with Suc have "month_start i + days_in_month (i div 12) (i mod 12) \<le> month_start (j - 1)" by simp
    moreover have "0 \<le> days_in_month ((j - 1) div 12) ((j - 1) mod 12)"
      using days_in_month_mod [of "(j - 1) div 12" "j - 1"] by linarith
    ultimately show ?thesis using month_start_Suc [of "j - 1"] by simp
  qed (simp add: month_start_Suc)
qed simp

lemma add_months_later: "0 < n \<Longrightarrow> t < add_months n t"
proof -
  assume n: "0 < n"
  obtain y m d where c: "civil_of_day (t div msPerDay) = (y, m, d)" by (cases "civil_of_day (t div msPerDay)") auto
  from civil_of_day_valid [OF c] have v: "0 \<le> m" "m \<le> 11" "1 \<le> d" "d \<le> days_in_month y m"
    "MakeDay y m d = t div msPerDay" by auto
  let ?i = "12 * y + m" and ?j = "12 * y + m + n"
  have i: "?i div 12 = y" "?i mod 12 = m" using v(1,2) by simp_all
  have "month_start ?i + d - 1 = t div msPerDay" using v i by (simp add: month_start_def MakeDay_def)
  moreover have "month_start ?i + days_in_month y m \<le> month_start ?j" using month_start_less [of ?i ?j] n i by simp
  moreover have "1 \<le> min d (days_in_month (?j div 12) (?j mod 12))"
    using v days_in_month_mod [of "?j div 12" ?j] by linarith
  ultimately have "t div msPerDay < month_start ?j + min d (days_in_month (?j div 12) (?j mod 12)) - 1"
    using v(4) by linarith
  then have "msPerDay * (t div msPerDay) < msPerDay * (month_start ?j + min d (days_in_month (?j div 12) (?j mod 12)) - 1)"
    by (simp add: msPerDay_def)
  then show ?thesis using mult_div_mod_eq [of msPerDay t] unfolding add_months_def c Let_def case_prod_conv
    by linarith
qed

interpretation utc_clock: dayjs_clock utc_dayjs
proof
  fix n d and u
  show "d < dj_add utc_dayjs n u d" if "0 < n"
    using that add_months_later [of n d] add_months_later [of "12 * n" d]
    by (cases u) (simp_all add: utc_dayjs_def msPerDay_def)
  have "(d + 7 * n * msPerDay) div msPerDay = d div msPerDay + 7 * n" by (simp add: msPerDay_def)
  moreover have "(d div msPerDay + 7 * n + 4) mod 7 = (d div msPerDay + 4) mod 7"
    using mod_mult_self2 [of "d div msPerDay + 4" 7 n] by (simp add: algebra_simps)
  ultimately show "dj_day utc_dayjs (dj_add utc_dayjs n UWeek d) = dj_day utc_dayjs d"
    by (simp add: utc_dayjs_def)
  show "0 \<le> dj_day utc_dayjs d \<and> dj_day utc_dayjs d < 7" by (simp add: utc_dayjs_def)
qed

end
