(* ===== verification/Event.thy ===== *)
theory Event
  imports JsValue Comparators Dayjs
begin

text \<open>
  \<open>packages/core/src/calendar/types.ts\<close> and \<open>event.ts\<close>: events, the checks on an event request, the
  selection of events by time, conflicts, and the summary of the attendees' answers. The clock
  (\<open>new Date()\<close>), the random generator and \<open>dayjs\<close> are arguments.
\<close>

datatype attendee_status = NeedsAction | Accepted | Declined | Tentative
datatype attendee_role = RoleRequired | RoleOptional | RoleChair
datatype event_status = EvConfirmed | EvTentative | EvCancelled
datatype visibility = VPublic | VPrivate | VConfidential
datatype reminder_method = RemEmail | RemPopup

record attendee =
  at_email :: string
  at_name :: "string option"
  at_status :: attendee_status
  at_role :: attendee_role
  at_isOrganizer :: bool

text \<open>A number that may be \<open>NaN\<close> is an \<open>int option\<close>, \<open>None\<close> standing for \<open>NaN\<close>.\<close>

record recurrence_rule =
  rr_freq :: string
  rr_interval :: "int option"
  rr_count :: "int option option"
  rr_until :: "js_date option"
  rr_byDay :: "string list option"
  rr_byMonthDay :: "int option list option"
  rr_byMonth :: "int option list option"
  rr_bySetPos :: "int option list option"
  rr_wkst :: "string option"

record event =
  ev_id :: string
  ev_calendarId :: string
  ev_ownerId :: string
  ev_uid :: string
  ev_summary :: string
  ev_description :: "string option"
  ev_location :: "string option"
  ev_start :: date
  ev_end :: date
  ev_allDay :: bool
  ev_timezone :: string
  ev_recurrenceRule :: "recurrence_rule option"
  ev_recurrenceId :: "date option"
  ev_attendees :: "attendee list"
  ev_organizer :: "attendee option"
  ev_status :: event_status
  ev_visibility :: visibility
  ev_busy :: bool
  ev_reminders :: "(reminder_method \<times> int) list"
  ev_color :: "string option"
  ev_createdAt :: date
  ev_updatedAt :: date

record event_request =
  er_calendarId :: string
  er_summary :: "string option"
  er_description :: "string option"
  er_location :: "string option"
  er_start :: "date option"
  er_end :: "date option"
  er_allDay :: "bool option"
  er_timezone :: "string option"
  er_recurrenceRule :: "recurrence_rule option"
  er_attendees :: "(string \<times> string option) list option"
  er_reminders :: "(reminder_method \<times> int) list option"
  er_visibility :: "visibility option"

record response_summary =
  rs_accepted :: nat
  rs_declined :: nat
  rs_tentative :: nat
  rs_pending :: nat
  rs_total :: nat

definition generateEventUid :: "nat \<Rightarrow> string \<Rightarrow> string \<Rightarrow> string" where
  "generateEventUid timestamp random domain = show_nat timestamp @ ''-'' @ random @ ''@'' @ domain"

text \<open>\<open>Math.round(x / 60000)\<close> rounds halves up.\<close>

definition getEventDuration :: "event \<Rightarrow> int" where
  "getEventDuration event = (ev_end event - ev_start event + 30000) div 60000"

definition isMultiDayEvent :: "dayjs \<Rightarrow> event \<Rightarrow> bool" where
  "isMultiDayEvent dj event = (\<not> dj_isSameDay dj (ev_start event) (ev_end event))"

definition isEventNow :: "date \<Rightarrow> event \<Rightarrow> bool" where
  "isEventNow now event = (ev_start event \<le> now \<and> ev_end event > now)"

definition isEventPast :: "date \<Rightarrow> event \<Rightarrow> bool" where
  "isEventPast now event = (ev_end event < now)"

definition isEventFuture :: "date \<Rightarrow> event \<Rightarrow> bool" where
  "isEventFuture now event = (ev_start event > now)"

definition formatEventTimeRange :: "dayjs \<Rightarrow> event \<Rightarrow> string" where
  "formatEventTimeRange dj event =
     (let start = ev_start event; end' = ev_end event; last_day = dj_add dj (-1) UDay end';
          fmt = (\<lambda>f d. dj_format dj f d)
      in if ev_allDay event then
           (if dj_isSameDay dj start last_day then fmt ''MMM D, YYYY'' start
            else fmt ''MMM D'' start @ '' - '' @ fmt ''MMM D, YYYY'' last_day)
         else if dj_isSameDay dj start end' then
           fmt ''MMM D, YYYY'' start @ '' '' @ fmt ''h:mm A'' start @ '' - '' @ fmt ''h:mm A'' end'
         else fmt ''MMM D, h:mm A'' start @ '' - '' @ fmt ''MMM D, h:mm A YYYY'' end')"

definition validateEventRequest :: "event_request \<Rightarrow> validation" where
  "validateEventRequest request =
     (let titleErrors = (case er_summary request of None \<Rightarrow> [''Event title is required'']
            | Some s \<Rightarrow> if trim s = [] then [''Event title is required''] else []);
          startErrors = (if er_start request = None then [''Start time is required''] else []);
          endErrors = (if er_end request = None then [''End time is required''] else []);
          orderErrors = (case (er_start request, er_end request) of
              (Some s, Some e) \<Rightarrow> if e \<le> s then [''End time must be after start time''] else [] | _ \<Rightarrow> []);
          attendeeErrors = concat (map (\<lambda>(email, _).
              if \<not> valid_address email then [''Invalid attendee email: '' @ email] else [])
            (nullish (er_attendees request) []))
      in validation_of (titleErrors @ startErrors @ endErrors @ orderErrors @ attendeeErrors))"

definition filterEventsByDateRange :: "event list \<Rightarrow> date \<Rightarrow> date \<Rightarrow> event list" where
  "filterEventsByDateRange events start end' =
     filter (\<lambda>event.
       if ev_start event \<ge> start \<and> ev_start event < end' then True
       else if ev_end event > start \<and> ev_end event \<le> end' then True
       else if ev_start event \<le> start \<and> ev_end event \<ge> end' then True
       else False) events"

definition event_cmp :: "bool \<Rightarrow> event \<Rightarrow> event \<Rightarrow> int" where
  "event_cmp ascending a b = (let diff = ev_start a - ev_start b in if ascending then diff else - diff)"

definition sortEventsByStartTime :: "event list \<Rightarrow> bool \<Rightarrow> event list" where
  "sortEventsByStartTime events ascending = js_sort (event_cmp ascending) events"

definition groupEventsByDate :: "dayjs \<Rightarrow> event list \<Rightarrow> (string, event list) js_map" where
  "groupEventsByDate dj events = group_into (\<lambda>e. dj_format dj ''YYYY-MM-DD'' (ev_start e)) events"

definition conflicts_with :: "event \<Rightarrow> event \<Rightarrow> bool" where
  "conflicts_with event existing =
     (if ev_id existing = ev_id event then False
      else if \<not> ev_busy event \<or> \<not> ev_busy existing then False
      else ev_start event < ev_end existing \<and> ev_end event > ev_start existing)"

definition findEventConflicts :: "event \<Rightarrow> event list \<Rightarrow> event list" where
  "findEventConflicts event existingEvents = filter (conflicts_with event) existingEvents"

definition count_response :: "response_summary \<Rightarrow> attendee \<Rightarrow> response_summary" where
  "count_response summary attendee =
     (if at_isOrganizer attendee then summary
      else case at_status attendee of
             Accepted \<Rightarrow> summary\<lparr>rs_accepted := rs_accepted summary + 1\<rparr>
           | Declined \<Rightarrow> summary\<lparr>rs_declined := rs_declined summary + 1\<rparr>
           | Tentative \<Rightarrow> summary\<lparr>rs_tentative := rs_tentative summary + 1\<rparr>
           | NeedsAction \<Rightarrow> summary\<lparr>rs_pending := rs_pending summary + 1\<rparr>)"

definition getAttendeeResponseSummary :: "attendee list \<Rightarrow> response_summary" where
  "getAttendeeResponseSummary attendees =
     foldl count_response
       \<lparr>rs_accepted = 0, rs_declined = 0, rs_tentative = 0, rs_pending = 0, rs_total = length attendees\<rparr> attendees"

subsection \<open>Lemmas\<close>

interpretation event_order: key_comparator "\<lambda>e. if ascending then ev_start e else - ev_start e" "event_cmp ascending"
  for ascending by unfold_locales (simp add: event_cmp_def Let_def)

lemma foldl_count_response:
  "rs_total (foldl count_response s as) = rs_total s
   \<and> rs_accepted (foldl count_response s as) = rs_accepted s + length (filter (\<lambda>a. \<not> at_isOrganizer a \<and> at_status a = Accepted) as)
   \<and> rs_declined (foldl count_response s as) = rs_declined s + length (filter (\<lambda>a. \<not> at_isOrganizer a \<and> at_status a = Declined) as)
   \<and> rs_tentative (foldl count_response s as) = rs_tentative s + length (filter (\<lambda>a. \<not> at_isOrganizer a \<and> at_status a = Tentative) as)
   \<and> rs_pending (foldl count_response s as) = rs_pending s + length (filter (\<lambda>a. \<not> at_isOrganizer a \<and> at_status a = NeedsAction) as)"
  by (induction "as" arbitrary: s) (auto simp: count_response_def split: attendee_status.splits)

lemma status_partition:
  "length (filter (\<lambda>a. \<not> at_isOrganizer a \<and> at_status a = Accepted) as)
   + length (filter (\<lambda>a. \<not> at_isOrganizer a \<and> at_status a = Declined) as)
   + length (filter (\<lambda>a. \<not> at_isOrganizer a \<and> at_status a = Tentative) as)
   + length (filter (\<lambda>a. \<not> at_isOrganizer a \<and> at_status a = NeedsAction) as)
   + length (filter at_isOrganizer as) = length as"
proof (induction "as")
  case (Cons a "as")
  then show ?case by (cases "at_status a") auto
qed simp

definition sample_event :: "string \<Rightarrow> date \<Rightarrow> date \<Rightarrow> recurrence_rule option \<Rightarrow> event" where
  "sample_event i s e r =
     \<lparr>ev_id = i, ev_calendarId = ''c'', ev_ownerId = ''o'', ev_uid = ''u'', ev_summary = ''s'', ev_description = None,
      ev_location = None, ev_start = s, ev_end = e, ev_allDay = False, ev_timezone = ''UTC'', ev_recurrenceRule = r,
      ev_recurrenceId = None, ev_attendees = [], ev_organizer = None, ev_status = EvConfirmed, ev_visibility = VPublic,
      ev_busy = True, ev_reminders = [], ev_color = None, ev_createdAt = 0, ev_updatedAt = 0\<rparr>"

subsection \<open>Properties\<close>

text \<open>
  The three cases of \<open>filterEventsByDateRange\<close> say exactly that the event and the range overlap:
  for events that end after they start and a non-empty range, an event is kept if and only if it
  starts before the range ends and ends after the range starts.
\<close>

theorem filterEventsByDateRange_overlap:
  "start < end' \<Longrightarrow> \<forall>e \<in> set events. ev_start e < ev_end e \<Longrightarrow>
   filterEventsByDateRange events start end' = filter (\<lambda>e. ev_start e < end' \<and> start < ev_end e) events"
  unfolding filterEventsByDateRange_def by (intro filter_cong refl) auto

theorem filterEventsByDateRange_overlap_witness:
  "filterEventsByDateRange [sample_event ''1'' 5 10 None, sample_event ''2'' 10 12 None] 6 10
     = [sample_event ''1'' 5 10 None]"
proof -
  have "\<forall>e \<in> set [sample_event ''1'' 5 10 None, sample_event ''2'' 10 12 None]. ev_start e < ev_end e" by code_simp
  from filterEventsByDateRange_overlap [OF _ this, of 6 10] show ?thesis by (simp add: sample_event_def)
qed

text \<open>
  Conflicts are symmetric: of two events in a calendar each is among the conflicts of the other
  or neither is, and no event conflicts with itself. For events that end after they start, a
  conflict means that both are busy and share an instant.
\<close>

theorem findEventConflicts_symmetric:
  "a \<in> set es \<Longrightarrow> b \<in> set es \<Longrightarrow> ev_start a < ev_end a \<Longrightarrow> ev_start b < ev_end b \<Longrightarrow>
   (b \<in> set (findEventConflicts a es) \<longleftrightarrow> a \<in> set (findEventConflicts b es))
   \<and> a \<notin> set (findEventConflicts a es)
   \<and> (b \<in> set (findEventConflicts a es) \<longleftrightarrow>
        ev_id a \<noteq> ev_id b \<and> ev_busy a \<and> ev_busy b
        \<and> (\<exists>t. ev_start a \<le> t \<and> t < ev_end a \<and> ev_start b \<le> t \<and> t < ev_end b))"
proof -
  assume in_es: "a \<in> set es" "b \<in> set es" and proper: "ev_start a < ev_end a" "ev_start b < ev_end b"
  have "(\<exists>t. ev_start a \<le> t \<and> t < ev_end a \<and> ev_start b \<le> t \<and> t < ev_end b)
      \<longleftrightarrow> ev_start a < ev_end b \<and> ev_start b < ev_end a" (is "?l \<longleftrightarrow> ?r")
  proof
    assume ?r
    with proper show ?l by (intro exI [of _ "max (ev_start a) (ev_start b)"]) auto
  qed linarith
  with in_es show ?thesis by (auto simp: findEventConflicts_def conflicts_with_def)
qed

theorem findEventConflicts_symmetric_witness:
  "sample_event ''2'' 4 7 None \<in> set (findEventConflicts (sample_event ''1'' 0 5 None) [sample_event ''1'' 0 5 None, sample_event ''2'' 4 7 None])
   \<and> sample_event ''1'' 0 5 None \<in> set (findEventConflicts (sample_event ''2'' 4 7 None) [sample_event ''1'' 0 5 None, sample_event ''2'' 4 7 None])"
proof -
  have "sample_event ''2'' 4 7 None \<in> set (findEventConflicts (sample_event ''1'' 0 5 None) [sample_event ''1'' 0 5 None, sample_event ''2'' 4 7 None])"
    by code_simp
  with findEventConflicts_symmetric [of "sample_event ''1'' 0 5 None"
      "[sample_event ''1'' 0 5 None, sample_event ''2'' 4 7 None]" "sample_event ''2'' 4 7 None"]
  show ?thesis by (simp add: sample_event_def)
qed

text \<open>
  Every attendee who is not an organiser is counted under exactly one answer, so the four counters
  and the organisers add up to the total, which is the length of the list. The total therefore
  counts the organisers, who are in none of the four.
\<close>

theorem getAttendeeResponseSummary_sums:
  "(let s = getAttendeeResponseSummary attendees
    in rs_accepted s + rs_declined s + rs_tentative s + rs_pending s + length (filter at_isOrganizer attendees) = rs_total s
       \<and> rs_total s = length attendees
       \<and> rs_accepted s = length (filter (\<lambda>a. \<not> at_isOrganizer a \<and> at_status a = Accepted) attendees)
       \<and> rs_pending s = length (filter (\<lambda>a. \<not> at_isOrganizer a \<and> at_status a = NeedsAction) attendees))"
  using status_partition [of attendees] foldl_count_response
  by (simp add: getAttendeeResponseSummary_def Let_def)

text \<open>
  An event request is valid exactly when its title is not blank, it has a start and a later end,
  and every attendee has an address of the required form.
\<close>

theorem validateEventRequest_valid_iff:
  "fst (validateEventRequest r) \<longleftrightarrow>
     (case er_summary r of None \<Rightarrow> False | Some s \<Rightarrow> trim s \<noteq> [])
     \<and> (case (er_start r, er_end r) of (Some s, Some e) \<Rightarrow> s < e | _ \<Rightarrow> False)
     \<and> list_all (\<lambda>(email, _). valid_address email) (nullish (er_attendees r) [])"
proof -
  have c: "concat (map (\<lambda>(email, n). if \<not> valid_address email then [''Invalid attendee email: '' @ email] else []) xs) = []
      \<longleftrightarrow> list_all (\<lambda>(email, n). valid_address email) xs" for xs :: "(string \<times> string option) list"
    by (induction xs) (auto split: if_splits)
  show ?thesis
    unfolding validateEventRequest_def Let_def validation_of_iff append_is_Nil_conv c
    by (cases "er_summary r"; cases "er_start r"; cases "er_end r") auto
qed

text \<open>
  Sorting by start time gives a permutation in ascending (or descending) order of start in
  which events with the same start keep their order.
\<close>

theorem sortEventsByStartTime_correct:
  "mset (sortEventsByStartTime events ascending) = mset events
   \<and> sorted (map (\<lambda>e. if ascending then ev_start e else - ev_start e) (sortEventsByStartTime events ascending))
   \<and> filter (\<lambda>e. ev_start e = t) (sortEventsByStartTime events ascending) = filter (\<lambda>e. ev_start e = t) events"
proof -
  have "filter (\<lambda>e. ev_start e = t) (js_sort (event_cmp ascending) events) = filter (\<lambda>e. ev_start e = t) events"
    using event_order.stable_keys [of ascending "if ascending then t else - t" events] by (cases ascending) auto
  then show ?thesis using event_order.sorted_keys [of ascending events]
    by (simp add: sortEventsByStartTime_def mset_js_sort)
qed

text \<open>
  At any moment a proper event is exactly one of past, running and future, except at the instant
  at which it ends, when it is none of the three.
\<close>

theorem event_phase:
  "ev_start e < ev_end e \<Longrightarrow>
   (isEventNow now e \<or> isEventPast now e \<or> isEventFuture now e) = (now \<noteq> ev_end e)
   \<and> \<not> (isEventNow now e \<and> isEventPast now e) \<and> \<not> (isEventNow now e \<and> isEventFuture now e)
   \<and> \<not> (isEventPast now e \<and> isEventFuture now e)"
  by (auto simp: isEventNow_def isEventPast_def isEventFuture_def)

theorem event_phase_witness: "\<not> isEventNow 5 (sample_event ''1'' 0 5 None) \<and> \<not> isEventPast 5 (sample_event ''1'' 0 5 None)"
  using event_phase [of "sample_event ''1'' 0 5 None" 5] by (simp add: sample_event_def)

end
