(* ===== verification/Recurrence.thy ===== *)
theory Recurrence
  imports Event
begin

text \<open>
  \<open>packages/core/src/calendar/recurrence.ts\<close>: reading and writing recurrence rules, the expansion of
  a recurring event into its occurrences, and the description of a rule. The loop of
  \<open>generateOccurrences\<close> need not end for every rule (a filtered date does not count, and a negative
  interval moves backwards), so it is a \<open>partial_function\<close> whose value \<open>None\<close> means that the
  code does not return; that it returns for the rules the schema admits is a theorem.
\<close>

definition REVERSE_DAY_MAP :: "string list" where
  "REVERSE_DAY_MAP = [''SU'', ''MO'', ''TU'', ''WE'', ''TH'', ''FR'', ''SA'']"

definition day_code :: "int \<Rightarrow> string" where
  "day_code d = (if 0 \<le> d \<and> nat d < length REVERSE_DAY_MAP then REVERSE_DAY_MAP ! nat d else ''undefined'')"

subsection \<open>Numbers and dates in text\<close>

text \<open>\<open>parseInt(s, 10)\<close>, \<open>None\<close> for \<open>NaN\<close>, and the text of a number.\<close>

definition parse_digits :: "string \<Rightarrow> int option" where
  "parse_digits s = (let ds = takeWhile is_digit s in if ds = [] then None else Some (int (nat_of_digits ds)))"

definition parseInt :: "string \<Rightarrow> int option" where
  "parseInt s =
     (let t = dropWhile is_ws s
      in case t of [] \<Rightarrow> None
         | c # cs \<Rightarrow> if c = CHR ''-'' then map_option uminus (parse_digits cs)
             else if c = CHR ''+'' then parse_digits cs else parse_digits t)"

fun show_num :: "int option \<Rightarrow> string" where
  "show_num None = ''NaN''"
| "show_num (Some n) = show_int n"

definition num_truthy :: "int option \<Rightarrow> bool" where
  "num_truthy n = (n \<noteq> None \<and> n \<noteq> Some 0)"

text \<open>\<open>s.replace('ab', '')\<close> with a string pattern removes the first occurrence.\<close>

fun remove_first :: "string \<Rightarrow> string \<Rightarrow> string" where
  "remove_first pat [] = []"
| "remove_first pat (c # cs) =
     (if startsWith (c # cs) pat then drop (length pat) (c # cs) else c # remove_first pat cs)"

definition parseICalDate :: "dayjs \<Rightarrow> string \<Rightarrow> js_date" where
  "parseICalDate dj value =
     (if length value = 8 then dj_parse dj value ''YYYYMMDD''
      else dj_parse dj (remove_first ''Z'' value) ''YYYYMMDDTHHmmss'')"

definition formatICalDate :: "dayjs \<Rightarrow> js_date \<Rightarrow> string" where
  "formatICalDate dj d = dj_formatUtc dj ''YYYYMMDDTHHmmss'' d @ ''Z''"

subsection \<open>Rules as text\<close>

text \<open>
  The frequency of the rule under construction is the empty string until it is set; the final test
  treats both alike. A part without \<open>=\<close> has no value, and a method call on it raises.
\<close>

definition empty_rule :: recurrence_rule where
  "empty_rule = \<lparr>rr_freq = [], rr_interval = Some 1, rr_count = None, rr_until = None, rr_byDay = None,
     rr_byMonthDay = None, rr_byMonth = None, rr_bySetPos = None, rr_wkst = Some ''MO''\<rparr>"

definition parse_number :: "string option \<Rightarrow> int option" where
  "parse_number v = (case v of None \<Rightarrow> None | Some s \<Rightarrow> parseInt s)"

definition number_list :: "string \<Rightarrow> int option list" where
  "number_list s = map parseInt (split_on (CHR '','') s)"

definition apply_part :: "dayjs \<Rightarrow> recurrence_rule \<Rightarrow> string \<Rightarrow> js_error + recurrence_rule" where
  "apply_part dj rule p =
     (let kv = split_on (CHR ''='') p; key = hd kv; v = (if length kv > 1 then Some (kv ! 1) else None);
          with_value = (\<lambda>f. case v of None \<Rightarrow> Inl TypeError | Some s \<Rightarrow> Inr (f s))
      in if key = ''FREQ'' then with_value (\<lambda>s. rule\<lparr>rr_freq := toLowerCase s\<rparr>)
         else if key = ''INTERVAL'' then Inr (rule\<lparr>rr_interval := parse_number v\<rparr>)
         else if key = ''COUNT'' then Inr (rule\<lparr>rr_count := Some (parse_number v)\<rparr>)
         else if key = ''UNTIL'' then with_value (\<lambda>s. rule\<lparr>rr_until := Some (parseICalDate dj s)\<rparr>)
         else if key = ''BYDAY'' then with_value (\<lambda>s. rule\<lparr>rr_byDay := Some (split_on (CHR '','') s)\<rparr>)
         else if key = ''BYMONTHDAY'' then with_value (\<lambda>s. rule\<lparr>rr_byMonthDay := Some (number_list s)\<rparr>)
         else if key = ''BYMONTH'' then with_value (\<lambda>s. rule\<lparr>rr_byMonth := Some (number_list s)\<rparr>)
         else if key = ''BYSETPOS'' then with_value (\<lambda>s. rule\<lparr>rr_bySetPos := Some (number_list s)\<rparr>)
         else if key = ''WKST'' then Inr (rule\<lparr>rr_wkst := v\<rparr>)
         else Inr rule)"

fun apply_parts :: "dayjs \<Rightarrow> recurrence_rule \<Rightarrow> string list \<Rightarrow> js_error + recurrence_rule" where
  "apply_parts dj rule [] = Inr rule"
| "apply_parts dj rule (p # ps) =
     (case apply_part dj rule p of Inl e \<Rightarrow> Inl e | Inr rule' \<Rightarrow> apply_parts dj rule' ps)"

definition parseRRule :: "dayjs \<Rightarrow> string \<Rightarrow> recurrence_rule option" where
  "parseRRule dj rrule =
     (case apply_parts dj empty_rule (split_on (CHR '';'') (remove_first ''RRULE:'' rrule)) of
        Inl e \<Rightarrow> None
      | Inr rule \<Rightarrow> if rr_freq rule = [] then None else Some rule)"

definition list_part :: "string \<Rightarrow> string list option \<Rightarrow> string list" where
  "list_part name l = (case l of None \<Rightarrow> [] | Some vs \<Rightarrow> if length vs > 0 then [name @ ''='' @ join '','' vs] else [])"

definition rule_parts :: "dayjs \<Rightarrow> recurrence_rule \<Rightarrow> string list" where
  "rule_parts dj rule =
     [''FREQ='' @ toUpperCase (rr_freq rule)]
     @ (if num_truthy (rr_interval rule) \<and> rr_interval rule \<noteq> Some 1
        then [''INTERVAL='' @ show_num (rr_interval rule)] else [])
     @ (case rr_count rule of None \<Rightarrow> []
        | Some c \<Rightarrow> if num_truthy c then [''COUNT='' @ show_num c] else [])
     @ (case rr_until rule of None \<Rightarrow> [] | Some d \<Rightarrow> [''UNTIL='' @ formatICalDate dj d])
     @ list_part ''BYDAY'' (rr_byDay rule)
     @ list_part ''BYMONTHDAY'' (map_option (map show_num) (rr_byMonthDay rule))
     @ list_part ''BYMONTH'' (map_option (map show_num) (rr_byMonth rule))
     @ list_part ''BYSETPOS'' (map_option (map show_num) (rr_bySetPos rule))
     @ (case rr_wkst rule of None \<Rightarrow> []
        | Some w \<Rightarrow> if w \<noteq> [] \<and> w \<noteq> ''MO'' then [''WKST='' @ w] else [])"

definition toRRuleString :: "dayjs \<Rightarrow> recurrence_rule \<Rightarrow> string" where
  "toRRuleString dj rule = join '';'' (rule_parts dj rule)"

subsection \<open>Occurrences\<close>

definition rule_interval :: "recurrence_rule \<Rightarrow> int" where
  "rule_interval rule = (if num_truthy (rr_interval rule) then the (rr_interval rule) else 1)"

definition advanceByFrequency :: "dayjs \<Rightarrow> date \<Rightarrow> recurrence_rule \<Rightarrow> date" where
  "advanceByFrequency dj d rule =
     (let interval = rule_interval rule
      in if rr_freq rule = ''daily'' then dj_add dj interval UDay d
         else if rr_freq rule = ''weekly'' then dj_add dj interval UWeek d
         else if rr_freq rule = ''monthly'' then dj_add dj interval UMonth d
         else if rr_freq rule = ''yearly'' then dj_add dj interval UYear d
         else dj_add dj 1 UDay d)"

text \<open>The three \<open>BY\<close> filters; an absent or empty list filters nothing.\<close>

definition by_ok :: "'a list option \<Rightarrow> ('a \<Rightarrow> bool) \<Rightarrow> bool" where
  "by_ok l P = (case l of None \<Rightarrow> True | Some vs \<Rightarrow> vs = [] \<or> list_ex P vs)"

definition passes_filters :: "dayjs \<Rightarrow> recurrence_rule \<Rightarrow> date \<Rightarrow> bool" where
  "passes_filters dj rule d =
     (by_ok (rr_byDay rule) (\<lambda>c. str_includes c (day_code (dj_day dj d)))
      \<and> by_ok (rr_byMonthDay rule) (\<lambda>n. n = Some (dj_date dj d))
      \<and> by_ok (rr_byMonth rule) (\<lambda>n. n = Some (dj_month dj d + 1)))"

definition count_reached :: "recurrence_rule \<Rightarrow> nat \<Rightarrow> bool" where
  "count_reached rule n = (case rr_count rule of None \<Rightarrow> False | Some c \<Rightarrow> num_truthy c \<and> int n \<ge> the c)"

definition after_until :: "recurrence_rule \<Rightarrow> date \<Rightarrow> bool" where
  "after_until rule d = (case rr_until rule of Some (ValidDate u) \<Rightarrow> d > u | _ \<Rightarrow> False)"

partial_function (option) occurrence_loop ::
  "dayjs \<Rightarrow> recurrence_rule \<Rightarrow> date \<Rightarrow> date \<Rightarrow> nat \<Rightarrow> date \<Rightarrow> nat \<Rightarrow> date list \<Rightarrow> date list option" where
  "occurrence_loop dj rule rangeStart rangeEnd maxOccurrences current n occurrences =
     (if n < maxOccurrences then
        (if current > rangeEnd then Some occurrences
         else if count_reached rule n then Some occurrences
         else if after_until rule current then Some occurrences
         else if current \<ge> rangeStart \<and> \<not> passes_filters dj rule current then
           occurrence_loop dj rule rangeStart rangeEnd maxOccurrences (advanceByFrequency dj current rule) n occurrences
         else
           occurrence_loop dj rule rangeStart rangeEnd maxOccurrences (advanceByFrequency dj current rule) (n + 1)
             (if current \<ge> rangeStart then occurrences @ [current] else occurrences))
      else Some occurrences)"

declare occurrence_loop.simps [code]

definition generateOccurrences :: "dayjs \<Rightarrow> event \<Rightarrow> date \<Rightarrow> date \<Rightarrow> nat \<Rightarrow> date list option" where
  "generateOccurrences dj event rangeStart rangeEnd maxOccurrences =
     (case ev_recurrenceRule event of
        None \<Rightarrow> Some [ev_start event]
      | Some rule \<Rightarrow> occurrence_loop dj rule rangeStart rangeEnd maxOccurrences (ev_start event) 0 [])"

subsection \<open>Description\<close>

definition day_names :: "(string \<times> string) list" where
  "day_names = [(''SU'', ''Sun''), (''MO'', ''Mon''), (''TU'', ''Tue''), (''WE'', ''Wed''), (''TH'', ''Thu''),
     (''FR'', ''Fri''), (''SA'', ''Sat'')]"

definition describeRecurrence :: "dayjs \<Rightarrow> recurrence_rule \<Rightarrow> string" where
  "describeRecurrence dj rule =
     (let interval = rule_interval rule; freq = rr_freq rule;
          base = (if interval = 1 then
              (if freq = ''daily'' then ''Daily'' else if freq = ''weekly'' then ''Weekly''
               else if freq = ''monthly'' then ''Monthly'' else ''Yearly'')
            else ''Every '' @ show_int interval @ '' '' @
              (if freq = ''daily'' then ''days'' else if freq = ''weekly'' then ''weeks''
               else if freq = ''monthly'' then ''months'' else ''years''));
          days = (case rr_byDay rule of None \<Rightarrow> [] | Some [] \<Rightarrow> []
            | Some ds \<Rightarrow> '' on '' @ join '', '' (map (\<lambda>d.
                nullish (map_of day_names (filter (\<lambda>c. \<not> (is_digit c \<or> c = CHR ''-'')) d)) d) ds));
          ending = (if (case rr_count rule of None \<Rightarrow> False | Some c \<Rightarrow> num_truthy c)
            then '', '' @ show_num (the (rr_count rule)) @ '' times''
            else case rr_until rule of None \<Rightarrow> []
              | Some (ValidDate u) \<Rightarrow> '', until '' @ dj_format dj ''MMM D, YYYY'' u
              | Some InvalidDate \<Rightarrow> '', until Invalid Date'')
      in base @ days @ ending)"

subsection \<open>Lemmas: the expansion loop\<close>

definition iterate_rule :: "dayjs \<Rightarrow> recurrence_rule \<Rightarrow> nat \<Rightarrow> date \<Rightarrow> date" where
  "iterate_rule dj rule k d = ((\<lambda>d. advanceByFrequency dj d rule) ^^ k) d"

lemma iterate_rule_0 [simp]: "iterate_rule dj rule 0 d = d"
  by (simp add: iterate_rule_def)

lemma iterate_rule_Suc: "iterate_rule dj rule (Suc k) d = iterate_rule dj rule k (advanceByFrequency dj d rule)"
  unfolding iterate_rule_def funpow_Suc_right by simp

text \<open>How many steps may be counted: the bound of the caller and the \<open>COUNT\<close> of the rule.\<close>

definition step_limit :: "recurrence_rule \<Rightarrow> nat \<Rightarrow> nat" where
  "step_limit rule mx =
     (case rr_count rule of None \<Rightarrow> mx | Some c \<Rightarrow> if num_truthy c then min mx (nat (the c)) else mx)"

lemma step_limit_iff: "n < step_limit rule mx \<longleftrightarrow> n < mx \<and> \<not> count_reached rule n"
  by (auto simp: step_limit_def count_reached_def split: option.splits)

text \<open>What a run of the loop adds to the list it was given.\<close>

definition loop_result :: "dayjs \<Rightarrow> recurrence_rule \<Rightarrow> date \<Rightarrow> date \<Rightarrow> nat \<Rightarrow> date \<Rightarrow> nat \<Rightarrow> date list \<Rightarrow> bool" where
  "loop_result dj rule rs re mx cur n ds \<longleftrightarrow>
     sorted_wrt (<) ds \<and> length ds \<le> step_limit rule mx - n
     \<and> (\<forall>d \<in> set ds. cur \<le> d \<and> rs \<le> d \<and> d \<le> re \<and> \<not> after_until rule d \<and> passes_filters dj rule d
          \<and> (\<exists>k. d = iterate_rule dj rule k cur))"

lemma loop_result_Nil: "loop_result dj rule rs re mx cur n []"
  by (simp add: loop_result_def)

lemma loop_result_skip:
  "loop_result dj rule rs re mx (advanceByFrequency dj cur rule) n ds \<Longrightarrow> cur \<le> advanceByFrequency dj cur rule \<Longrightarrow>
   loop_result dj rule rs re mx cur n ds"
  unfolding loop_result_def iterate_rule_Suc [symmetric] by (meson order_trans)

lemma loop_result_take:
  assumes r: "loop_result dj rule rs re mx (advanceByFrequency dj cur rule) (n + 1) ds"
    and later: "cur < advanceByFrequency dj cur rule" and n: "n < step_limit rule mx"
    and cur: "rs \<le> cur \<Longrightarrow> cur \<le> re \<and> \<not> after_until rule cur \<and> passes_filters dj rule cur"
  shows "loop_result dj rule rs re mx cur n (if rs \<le> cur then cur # ds else ds)"
proof -
  have len: "length ds \<le> step_limit rule mx - Suc n" using r by (simp add: loop_result_def)
  then have "length ds \<le> step_limit rule mx - n" by linarith
  then have "loop_result dj rule rs re mx (advanceByFrequency dj cur rule) n ds"
    using r by (simp add: loop_result_def)
  then have skip: "loop_result dj rule rs re mx cur n ds" by (rule loop_result_skip [OF _ less_imp_le [OF later]])
  moreover have "loop_result dj rule rs re mx cur n (cur # ds)" if "rs \<le> cur"
  proof -
    have "\<forall>d \<in> set ds. cur < d" using r later unfolding loop_result_def by (meson less_le_trans)
    moreover have "Suc (length ds) \<le> step_limit rule mx - n" using len n by linarith
    moreover have "\<exists>k. cur = iterate_rule dj rule k cur" using iterate_rule_0 by metis
    ultimately show ?thesis using skip cur [OF that] that unfolding loop_result_def by simp
  qed
  ultimately show ?thesis by simp
qed

context dayjs_clock
begin

lemma advance_later: "0 < rule_interval rule \<Longrightarrow> d < advanceByFrequency dj d rule"
  by (simp add: advanceByFrequency_def Let_def add_later)

text \<open>With a positive interval the loop returns: every step moves towards the end of the range.\<close>

lemma loop_returns:
  assumes pos: "0 < rule_interval rule"
  shows "\<exists>ds. occurrence_loop dj rule rs re mx cur n acc = Some (acc @ ds)
     \<and> loop_result dj rule rs re mx cur n ds"
proof (induction "nat (re + 1 - cur)" arbitrary: cur n acc rule: less_induct)
  case less
  let ?next = "advanceByFrequency dj cur rule"
  have later: "cur < ?next" by (rule advance_later [OF pos])
  show ?case
  proof (cases "n < step_limit rule mx \<and> cur \<le> re \<and> \<not> after_until rule cur")
    case False
    then have "occurrence_loop dj rule rs re mx cur n acc = Some acc"
      using step_limit_iff [of n rule mx] by (subst occurrence_loop.simps) auto
    then show ?thesis using loop_result_Nil by (intro exI [of _ "[]"]) simp
  next
    case True
    then have n: "n < mx" "\<not> count_reached rule n" using step_limit_iff by auto
    have dec: "nat (re + 1 - ?next) < nat (re + 1 - cur)" using later True by linarith
    show ?thesis
    proof (cases "rs \<le> cur \<and> \<not> passes_filters dj rule cur")
      case skip: True
      then have step: "occurrence_loop dj rule rs re mx cur n acc = occurrence_loop dj rule rs re mx ?next n acc"
        using True n by (subst occurrence_loop.simps) simp
      from less [OF dec, of n acc] loop_result_skip later show ?thesis
        unfolding step by (metis less_imp_le)
    next
      case False
      then have step: "occurrence_loop dj rule rs re mx cur n acc
          = occurrence_loop dj rule rs re mx ?next (n + 1) (if rs \<le> cur then acc @ [cur] else acc)"
        using True n False by (subst occurrence_loop.simps) auto
      from less [OF dec, of "n + 1"] obtain ds where ds:
        "occurrence_loop dj rule rs re mx ?next (n + 1) (if rs \<le> cur then acc @ [cur] else acc)
           = Some ((if rs \<le> cur then acc @ [cur] else acc) @ ds)"
        "loop_result dj rule rs re mx ?next (n + 1) ds" by blast
      have "loop_result dj rule rs re mx cur n (if rs \<le> cur then cur # ds else ds)"
        using loop_result_take [OF ds(2) later] True False by simp
      moreover have "(if rs \<le> cur then acc @ [cur] else acc) @ ds = acc @ (if rs \<le> cur then cur # ds else ds)" by simp
      ultimately show ?thesis unfolding step ds(1) by metis
    qed
  qed
qed

lemma weekly_iterate: "rr_freq rule = ''weekly'' \<Longrightarrow> dj_day dj (iterate_rule dj rule k d) = dj_day dj d"
  by (induction k arbitrary: d) (simp_all add: iterate_rule_Suc advanceByFrequency_def Let_def week_day)

end

lemma loop_unfiltered:
  assumes "\<And>d. passes_filters dj rule d"
  shows "occurrence_loop dj rule rs re mx cur n acc = Some (acc @ filter (\<lambda>d. rs \<le> d)
     (takeWhile (\<lambda>d. d \<le> re \<and> \<not> after_until rule d)
       (map (\<lambda>k. iterate_rule dj rule k cur) [0..<step_limit rule mx - n])))"
proof (induction "step_limit rule mx - n" arbitrary: cur n acc)
  case 0
  then have "\<not> (n < mx \<and> \<not> count_reached rule n)" using step_limit_iff [of n rule mx] by simp
  with 0 show ?case by (subst occurrence_loop.simps) auto
next
  case (Suc l)
  then have n: "n < mx" "\<not> count_reached rule n" "l = step_limit rule mx - (n + 1)"
    using step_limit_iff [of n rule mx] by auto
  have upt: "map (\<lambda>k. iterate_rule dj rule k cur) [0..<step_limit rule mx - n]
      = cur # map (\<lambda>k. iterate_rule dj rule k (advanceByFrequency dj cur rule)) [0..<l]"
    unfolding Suc(2) [symmetric] upt_conv_Cons [OF zero_less_Suc]
    by (simp add: iterate_rule_Suc map_Suc_upt [symmetric] o_def del: upt_Suc)
  show ?case unfolding upt using n Suc(1) [of "n + 1"] assms
    by (subst occurrence_loop.simps) (auto simp: n(3))
qed

subsection \<open>Lemmas: rules as text\<close>

lemma is_digit_not_ws: "is_digit c \<Longrightarrow> \<not> is_ws c"
  by (auto simp: is_digit_def is_ws_def Let_def)

lemma parse_digits_show: "parse_digits (show_nat n) = Some (int n)"
proof -
  have t: "takeWhile is_digit (show_nat n) = show_nat n" using show_nat_digits by (auto simp: takeWhile_eq_all_conv)
  show ?thesis unfolding parse_digits_def t Let_def by simp
qed

lemma parseInt_show_int: "parseInt (show_int n) = Some n"
proof (cases "n < 0")
  case True
  have "\<not> is_ws (CHR ''-'')" by (simp add: is_ws_def code_unit_def)
  with True show ?thesis by (simp add: parseInt_def show_int_def parse_digits_show Let_def)
next
  case False
  obtain c cs where s: "show_nat (nat n) = c # cs" by (cases "show_nat (nat n)") auto
  have d: "is_digit c" using show_nat_digits [of c "nat n"] s by simp
  then have "c \<noteq> CHR ''-''" "c \<noteq> CHR ''+''" by (auto simp: is_digit_def code_unit_def)
  with False d show ?thesis
    using parse_digits_show [of "nat n"] by (simp add: parseInt_def show_int_def s is_digit_not_ws Let_def)
qed

lemma show_int_chars: "c \<in> set (show_int n) \<Longrightarrow> is_digit c \<or> c = CHR ''-''"
  by (auto simp: show_int_def split: if_splits dest: show_nat_digits)

text \<open>The text of a value that a part can carry.\<close>

definition part_text :: "string \<Rightarrow> bool" where
  "part_text s \<longleftrightarrow> CHR '';'' \<notin> set s \<and> CHR ''='' \<notin> set s \<and> CHR '':'' \<notin> set s"

definition item_text :: "string \<Rightarrow> bool" where
  "item_text s \<longleftrightarrow> part_text s \<and> CHR '','' \<notin> set s"

lemma item_show_int: "item_text (show_int n)"
proof -
  have "\<not> is_digit (CHR '';'')" "\<not> is_digit (CHR ''='')" "\<not> is_digit (CHR '':'')" "\<not> is_digit (CHR '','')"
    by (simp_all add: is_digit_def code_unit_def)
  with show_int_chars [of _ n] show ?thesis unfolding item_text_def part_text_def by force
qed

lemma part_text_join: "list_all item_text vs \<Longrightarrow> part_text (join '','' vs)"
proof -
  assume ok: "list_all item_text vs"
  have "set (join sep xs) \<subseteq> set sep \<union> \<Union> (set ` set xs)" for sep xs
    by (induction sep xs rule: join.induct) auto
  from this [of "'',''" vs] ok show ?thesis by (fastforce simp: part_text_def item_text_def list_all_iff)
qed

lemma split_join_items: "vs \<noteq> [] \<Longrightarrow> list_all item_text vs \<Longrightarrow> split_on (CHR '','') (join '','' vs) = vs"
  by (rule split_on_join) (auto simp: item_text_def list_all_iff)

lemma number_list_show:
  "ns \<noteq> [] \<Longrightarrow> list_all (\<lambda>n. n \<noteq> None) ns \<Longrightarrow> number_list (join '','' (map show_num ns)) = ns"
proof -
  assume ne: "ns \<noteq> []" and ok: "list_all (\<lambda>n. n \<noteq> None) ns"
  have "list_all item_text (map show_num ns)" using ok by (auto simp: list_all_iff item_show_int)
  then have "number_list (join '','' (map show_num ns)) = map (\<lambda>n. parseInt (show_num n)) ns"
    using ne by (simp add: number_list_def split_join_items o_def)
  also have "\<dots> = ns" using ok by (intro map_idI) (auto simp: list_all_iff parseInt_show_int)
  finally show ?thesis .
qed

lemma remove_first_absent: "CHR '':'' \<notin> set s \<Longrightarrow> remove_first ''RRULE:'' s = s"
proof (induction s)
  case (Cons c cs)
  have "\<not> startsWith (c # cs) ''RRULE:''"
    using Cons.prems by (auto simp: startsWith_def prefix_def)
  with Cons show ?case by simp
qed simp

lemma split_key: "CHR ''='' \<notin> set k \<Longrightarrow> CHR ''='' \<notin> set v \<Longrightarrow> split_on (CHR ''='') (k @ CHR ''='' # v) = [k, v]"
  by (simp add: split_on_append_sep split_on_no_sep)

definition freqs :: "string list" where
  "freqs = [''daily'', ''weekly'', ''monthly'', ''yearly'']"

lemma freq_case: "f \<in> set freqs \<Longrightarrow> toLowerCase (toUpperCase f) = f \<and> part_text (toUpperCase f) \<and> f \<noteq> []"
proof -
  have "list_all (\<lambda>f. toLowerCase (toUpperCase f) = f \<and> part_text (toUpperCase f) \<and> f \<noteq> []) freqs"
    unfolding part_text_def by code_simp
  then show "f \<in> set freqs \<Longrightarrow> ?thesis" unfolding list_all_iff by blast
qed

lemma apply_part_simps:
  "CHR ''='' \<notin> set v \<Longrightarrow> apply_part dj r (''FREQ='' @ v) = Inr (r\<lparr>rr_freq := toLowerCase v\<rparr>)"
  "CHR ''='' \<notin> set v \<Longrightarrow> apply_part dj r (''INTERVAL='' @ v) = Inr (r\<lparr>rr_interval := parseInt v\<rparr>)"
  "CHR ''='' \<notin> set v \<Longrightarrow> apply_part dj r (''COUNT='' @ v) = Inr (r\<lparr>rr_count := Some (parseInt v)\<rparr>)"
  "CHR ''='' \<notin> set v \<Longrightarrow> apply_part dj r (''UNTIL='' @ v) = Inr (r\<lparr>rr_until := Some (parseICalDate dj v)\<rparr>)"
  "CHR ''='' \<notin> set v \<Longrightarrow> apply_part dj r (''BYDAY='' @ v) = Inr (r\<lparr>rr_byDay := Some (split_on (CHR '','') v)\<rparr>)"
  "CHR ''='' \<notin> set v \<Longrightarrow> apply_part dj r (''BYMONTHDAY='' @ v) = Inr (r\<lparr>rr_byMonthDay := Some (number_list v)\<rparr>)"
  "CHR ''='' \<notin> set v \<Longrightarrow> apply_part dj r (''BYMONTH='' @ v) = Inr (r\<lparr>rr_byMonth := Some (number_list v)\<rparr>)"
  "CHR ''='' \<notin> set v \<Longrightarrow> apply_part dj r (''BYSETPOS='' @ v) = Inr (r\<lparr>rr_bySetPos := Some (number_list v)\<rparr>)"
  "CHR ''='' \<notin> set v \<Longrightarrow> apply_part dj r (''WKST='' @ v) = Inr (r\<lparr>rr_wkst := Some v\<rparr>)"
  using split_key [of "''FREQ''" v] split_key [of "''INTERVAL''" v] split_key [of "''COUNT''" v]
    split_key [of "''UNTIL''" v] split_key [of "''BYDAY''" v] split_key [of "''BYMONTHDAY''" v]
    split_key [of "''BYMONTH''" v] split_key [of "''BYSETPOS''" v] split_key [of "''WKST''" v]
  by (simp_all add: apply_part_def Let_def parse_number_def)

lemma apply_parts_append:
  "apply_parts dj r (ps @ qs) = (case apply_parts dj r ps of Inl e \<Rightarrow> Inl e | Inr r' \<Rightarrow> apply_parts dj r' qs)"
  by (induction ps arbitrary: r) (auto split: sum.splits)

text \<open>A rule as the schema admits it, with values that the textual form can carry.\<close>

definition numbers_ok :: "int option list option \<Rightarrow> bool" where
  "numbers_ok l \<longleftrightarrow> (case l of None \<Rightarrow> True | Some ns \<Rightarrow> ns \<noteq> [] \<and> list_all (\<lambda>n. n \<noteq> None) ns)"

definition rule_ok :: "dayjs \<Rightarrow> recurrence_rule \<Rightarrow> bool" where
  "rule_ok dj r \<longleftrightarrow>
     rr_freq r \<in> set freqs \<and> (case rr_interval r of None \<Rightarrow> False | Some n \<Rightarrow> 1 \<le> n)
     \<and> (case rr_count r of None \<Rightarrow> True | Some c \<Rightarrow> (case c of None \<Rightarrow> False | Some n \<Rightarrow> 1 \<le> n))
     \<and> (case rr_until r of None \<Rightarrow> True
        | Some u \<Rightarrow> part_text (formatICalDate dj u) \<and> parseICalDate dj (formatICalDate dj u) = u)
     \<and> (case rr_byDay r of None \<Rightarrow> True | Some ds \<Rightarrow> ds \<noteq> [] \<and> list_all item_text ds)
     \<and> numbers_ok (rr_byMonthDay r) \<and> numbers_ok (rr_byMonth r) \<and> numbers_ok (rr_bySetPos r)
     \<and> (case rr_wkst r of None \<Rightarrow> False | Some w \<Rightarrow> w \<noteq> [] \<and> part_text w)"

lemma numbers_text: "numbers_ok l \<Longrightarrow> l = Some ns \<Longrightarrow> list_all item_text (map show_num ns)"
  by (auto simp: numbers_ok_def list_all_iff item_show_int)

lemma number_part:
  assumes "numbers_ok l" "\<And>v. CHR ''='' \<notin> set v \<Longrightarrow> apply_part dj r (name @ ''='' @ v) = Inr (f (number_list v))"
  shows "apply_parts dj r (list_part name (map_option (map show_num) l)) = Inr (case l of None \<Rightarrow> r | Some ns \<Rightarrow> f ns)"
proof (cases l)
  case (Some ns)
  then have ns: "ns \<noteq> []" "list_all (\<lambda>n. n \<noteq> None) ns" using assms(1) by (auto simp: numbers_ok_def)
  have "CHR ''='' \<notin> set (join '','' (map show_num ns))"
    using part_text_join [OF numbers_text [OF assms(1) Some]] by (simp add: part_text_def)
  from assms(2) [OF this] ns Some show ?thesis by (simp add: list_part_def number_list_show)
qed (simp add: list_part_def)

lemma part_text_parts:
  assumes ok: "rule_ok dj r"
  shows "list_all (\<lambda>p. CHR '';'' \<notin> set p \<and> CHR '':'' \<notin> set p) (rule_parts dj r)"
proof -
  have l: "list_all (\<lambda>p. CHR '';'' \<notin> set p \<and> CHR '':'' \<notin> set p) (list_part name (map_option (map show_num) l))"
    if "numbers_ok l" "CHR '';'' \<notin> set name \<and> CHR '':'' \<notin> set name" for name l
  proof (cases l)
    case (Some ns)
    then show ?thesis using part_text_join [OF numbers_text [OF that(1) Some]] that(2)
      by (simp add: list_part_def part_text_def)
  qed (simp add: list_part_def)
  have s: "CHR '';'' \<notin> set (show_num n)" "CHR '':'' \<notin> set (show_num n)" for n
    using item_show_int by (cases n; simp add: item_text_def part_text_def)+
  have d: "list_all (\<lambda>p. CHR '';'' \<notin> set p \<and> CHR '':'' \<notin> set p) (list_part ''BYDAY'' (rr_byDay r))"
    using ok part_text_join by (fastforce simp: rule_ok_def list_part_def part_text_def split: option.splits)
  have o: "numbers_ok (rr_byMonthDay r)" "numbers_ok (rr_byMonth r)" "numbers_ok (rr_bySetPos r)"
    using ok by (simp_all add: rule_ok_def)
  have f: "part_text (toUpperCase (rr_freq r))" using ok freq_case by (simp add: rule_ok_def)
  show ?thesis unfolding rule_parts_def list_all_append
    using ok f by (intro conjI l o d)
      (auto simp: s rule_ok_def part_text_def split: option.splits)
qed

lemma join_parts_no_colon:
  "list_all (\<lambda>p. CHR '';'' \<notin> set p \<and> CHR '':'' \<notin> set p) ps \<Longrightarrow> CHR '':'' \<notin> set (join '';'' ps)"
  by (induction "'';''" ps rule: join.induct) auto

lemma optional_parts:
  assumes ok: "rule_ok dj r"
  shows "apply_parts dj x [''FREQ='' @ toUpperCase (rr_freq r)] = Inr (x\<lparr>rr_freq := rr_freq r\<rparr>)"
    and "rr_interval x = Some 1 \<Longrightarrow> apply_parts dj x
      (if num_truthy (rr_interval r) \<and> rr_interval r \<noteq> Some 1 then [''INTERVAL='' @ show_num (rr_interval r)] else [])
        = Inr (x\<lparr>rr_interval := rr_interval r\<rparr>)"
    and "rr_count x = None \<Longrightarrow> apply_parts dj x (case rr_count r of None \<Rightarrow> []
        | Some c \<Rightarrow> if num_truthy c then [''COUNT='' @ show_num c] else []) = Inr (x\<lparr>rr_count := rr_count r\<rparr>)"
    and "rr_until x = None \<Longrightarrow> apply_parts dj x (case rr_until r of None \<Rightarrow> [] | Some d \<Rightarrow> [''UNTIL='' @ formatICalDate dj d])
        = Inr (x\<lparr>rr_until := rr_until r\<rparr>)"
    and "rr_byDay x = None \<Longrightarrow> apply_parts dj x (list_part ''BYDAY'' (rr_byDay r)) = Inr (x\<lparr>rr_byDay := rr_byDay r\<rparr>)"
    and "rr_wkst x = Some ''MO'' \<Longrightarrow> apply_parts dj x (case rr_wkst r of None \<Rightarrow> []
        | Some w \<Rightarrow> if w \<noteq> [] \<and> w \<noteq> ''MO'' then [''WKST='' @ w] else []) = Inr (x\<lparr>rr_wkst := rr_wkst r\<rparr>)"
proof -
  have n: "CHR ''='' \<notin> set (show_int k)" for k using item_show_int by (simp add: item_text_def part_text_def)
  show "apply_parts dj x [''FREQ='' @ toUpperCase (rr_freq r)] = Inr (x\<lparr>rr_freq := rr_freq r\<rparr>)"
    using ok freq_case [of "rr_freq r"]
    by (simp add: rule_ok_def part_text_def apply_part_simps [simplified])
  show "apply_parts dj x
      (if num_truthy (rr_interval r) \<and> rr_interval r \<noteq> Some 1 then [''INTERVAL='' @ show_num (rr_interval r)] else [])
        = Inr (x\<lparr>rr_interval := rr_interval r\<rparr>)" if "rr_interval x = Some 1"
    using ok that by (cases x; cases "rr_interval r")
      (auto simp: rule_ok_def num_truthy_def apply_part_simps [simplified] n parseInt_show_int)
  show "apply_parts dj x (case rr_count r of None \<Rightarrow> []
        | Some c \<Rightarrow> if num_truthy c then [''COUNT='' @ show_num c] else []) = Inr (x\<lparr>rr_count := rr_count r\<rparr>)"
    if "rr_count x = None"
    using ok that by (cases x)
      (auto simp: rule_ok_def num_truthy_def apply_part_simps [simplified] n parseInt_show_int split: option.splits)
  show "apply_parts dj x (case rr_until r of None \<Rightarrow> [] | Some d \<Rightarrow> [''UNTIL='' @ formatICalDate dj d])
        = Inr (x\<lparr>rr_until := rr_until r\<rparr>)" if "rr_until x = None"
    using ok that by (cases x) (auto simp: rule_ok_def apply_part_simps [simplified] part_text_def split: option.splits)
  show "apply_parts dj x (list_part ''BYDAY'' (rr_byDay r)) = Inr (x\<lparr>rr_byDay := rr_byDay r\<rparr>)" if "rr_byDay x = None"
    using ok that part_text_join by (cases x)
      (auto simp: rule_ok_def list_part_def apply_part_simps [simplified] part_text_def split_join_items split: option.splits)
  show "apply_parts dj x (case rr_wkst r of None \<Rightarrow> []
        | Some w \<Rightarrow> if w \<noteq> [] \<and> w \<noteq> ''MO'' then [''WKST='' @ w] else []) = Inr (x\<lparr>rr_wkst := rr_wkst r\<rparr>)"
    if "rr_wkst x = Some ''MO''"
    using ok that by (cases x) (auto simp: rule_ok_def apply_part_simps [simplified] part_text_def split: option.splits)
qed

lemma numeric_parts:
  assumes ok: "rule_ok dj r"
  shows "rr_byMonthDay x = None \<Longrightarrow> apply_parts dj x (list_part ''BYMONTHDAY'' (map_option (map show_num) (rr_byMonthDay r)))
        = Inr (x\<lparr>rr_byMonthDay := rr_byMonthDay r\<rparr>)"
    and "rr_byMonth x = None \<Longrightarrow> apply_parts dj x (list_part ''BYMONTH'' (map_option (map show_num) (rr_byMonth r)))
        = Inr (x\<lparr>rr_byMonth := rr_byMonth r\<rparr>)"
    and "rr_bySetPos x = None \<Longrightarrow> apply_parts dj x (list_part ''BYSETPOS'' (map_option (map show_num) (rr_bySetPos r)))
        = Inr (x\<lparr>rr_bySetPos := rr_bySetPos r\<rparr>)"
proof -
  have o: "numbers_ok (rr_byMonthDay r)" "numbers_ok (rr_byMonth r)" "numbers_ok (rr_bySetPos r)"
    using ok by (simp_all add: rule_ok_def)
  show "apply_parts dj x (list_part ''BYMONTHDAY'' (map_option (map show_num) (rr_byMonthDay r)))
        = Inr (x\<lparr>rr_byMonthDay := rr_byMonthDay r\<rparr>)" if "rr_byMonthDay x = None"
    using number_part [OF o(1), of dj x "''BYMONTHDAY''" "\<lambda>ns. x\<lparr>rr_byMonthDay := Some ns\<rparr>"] that
    by (cases x; cases "rr_byMonthDay r") (simp_all add: apply_part_simps [simplified])
  show "apply_parts dj x (list_part ''BYMONTH'' (map_option (map show_num) (rr_byMonth r)))
        = Inr (x\<lparr>rr_byMonth := rr_byMonth r\<rparr>)" if "rr_byMonth x = None"
    using number_part [OF o(2), of dj x "''BYMONTH''" "\<lambda>ns. x\<lparr>rr_byMonth := Some ns\<rparr>"] that
    by (cases x; cases "rr_byMonth r") (simp_all add: apply_part_simps [simplified])
  show "apply_parts dj x (list_part ''BYSETPOS'' (map_option (map show_num) (rr_bySetPos r)))
        = Inr (x\<lparr>rr_bySetPos := rr_bySetPos r\<rparr>)" if "rr_bySetPos x = None"
    using number_part [OF o(3), of dj x "''BYSETPOS''" "\<lambda>ns. x\<lparr>rr_bySetPos := Some ns\<rparr>"] that
    by (cases x; cases "rr_bySetPos r") (simp_all add: apply_part_simps [simplified])
qed

lemma apply_rule_parts: "rule_ok dj r \<Longrightarrow> apply_parts dj empty_rule (rule_parts dj r) = Inr r"
proof -
  assume ok: "rule_ok dj r"
  let ?r = "empty_rule\<lparr>rr_freq := rr_freq r, rr_interval := rr_interval r, rr_count := rr_count r, rr_until := rr_until r,
     rr_byDay := rr_byDay r, rr_byMonthDay := rr_byMonthDay r, rr_byMonth := rr_byMonth r,
     rr_bySetPos := rr_bySetPos r, rr_wkst := rr_wkst r\<rparr>"
  have "apply_parts dj empty_rule (rule_parts dj r) = Inr ?r"
    unfolding rule_parts_def apply_parts_append
    by (simp only: empty_rule_def recurrence_rule.simps sum.case optional_parts [OF ok] numeric_parts [OF ok])
  then show ?thesis by (cases r) (simp add: empty_rule_def)
qed

subsection \<open>Properties\<close>


definition weekly_rule :: recurrence_rule where
  "weekly_rule = \<lparr>rr_freq = ''weekly'', rr_interval = Some 2, rr_count = Some (Some 10), rr_until = None,
     rr_byDay = Some [''MO'', ''WE''], rr_byMonthDay = Some [Some (- 1), Some 15], rr_byMonth = None,
     rr_bySetPos = None, rr_wkst = Some ''SU''\<rparr>"


text \<open>
  C20. The expansion of a recurring event returns whenever the interval is positive, and what it
  returns is right: strictly increasing dates within the range and not after \<open>UNTIL\<close>, no more than
  the caller's bound and the rule's \<open>COUNT\<close> allow, each passing the \<open>BY\<close> filters, and each reached
  from the start of the event by repeated steps of the rule.
\<close>

theorem generateOccurrences_total:
  "dayjs_clock dj \<Longrightarrow> ev_recurrenceRule e = Some rule \<Longrightarrow> 0 < rule_interval rule \<Longrightarrow>
   \<exists>ds. generateOccurrences dj e rangeStart rangeEnd mx = Some ds
     \<and> sorted_wrt (<) ds \<and> length ds \<le> step_limit rule mx
     \<and> (\<forall>d \<in> set ds. ev_start e \<le> d \<and> rangeStart \<le> d \<and> d \<le> rangeEnd \<and> \<not> after_until rule d
          \<and> passes_filters dj rule d \<and> (\<exists>k. d = iterate_rule dj rule k (ev_start e)))"
  using dayjs_clock.loop_returns [of dj rule rangeStart rangeEnd mx "ev_start e" 0 "[]"]
  by (simp add: generateOccurrences_def loop_result_def)

definition plain_rule :: "string \<Rightarrow> recurrence_rule" where
  "plain_rule f = empty_rule\<lparr>rr_freq := f\<rparr>"

theorem generateOccurrences_total_witness:
  "\<exists>ds. generateOccurrences utc_dayjs (sample_event ''1'' 0 1 (Some (plain_rule ''monthly''))) msPerDay (70 * msPerDay) 100
     = Some ds \<and> sorted_wrt (<) ds \<and> length ds \<le> 100 \<and> (\<forall>d \<in> set ds. msPerDay \<le> d \<and> d \<le> 70 * msPerDay)"
  using generateOccurrences_total [OF utc_clock.dayjs_clock_axioms,
      of "sample_event ''1'' 0 1 (Some (plain_rule ''monthly''))" "plain_rule ''monthly''" msPerDay "70 * msPerDay" 100]
  by (auto simp: sample_event_def plain_rule_def empty_rule_def rule_interval_def num_truthy_def step_limit_def)

text \<open>
  Without \<open>BY\<close> filters the expansion is the reference list: take the first steps of the rule, as
  many as the caller's bound and \<open>COUNT\<close> allow, stop at the end of the range or after \<open>UNTIL\<close>, and
  keep those not before the range.
\<close>

theorem generateOccurrences_unfiltered:
  "ev_recurrenceRule e = Some rule \<Longrightarrow> (\<forall>d. passes_filters dj rule d) \<Longrightarrow>
   generateOccurrences dj e rangeStart rangeEnd mx = Some (filter (\<lambda>d. rangeStart \<le> d)
     (takeWhile (\<lambda>d. d \<le> rangeEnd \<and> \<not> after_until rule d)
       (map (\<lambda>k. iterate_rule dj rule k (ev_start e)) [0..<step_limit rule mx])))"
  by (simp add: generateOccurrences_def loop_unfiltered)

theorem generateOccurrences_unfiltered_witness:
  "generateOccurrences utc_dayjs (sample_event ''1'' 0 1 (Some (plain_rule ''daily''))) msPerDay (3 * msPerDay) 3
     = Some [msPerDay, 2 * msPerDay]"
proof -
  have "ev_recurrenceRule (sample_event ''1'' 0 1 (Some (plain_rule ''daily''))) = Some (plain_rule ''daily'')"
    "\<forall>d. passes_filters utc_dayjs (plain_rule ''daily'') d"
    by (simp_all add: sample_event_def passes_filters_def plain_rule_def empty_rule_def by_ok_def)
  from generateOccurrences_unfiltered [OF this, of msPerDay "3 * msPerDay" 3]
  have "generateOccurrences utc_dayjs (sample_event ''1'' 0 1 (Some (plain_rule ''daily''))) msPerDay (3 * msPerDay) 3
      = Some (filter (\<lambda>d. msPerDay \<le> d) (takeWhile (\<lambda>d. d \<le> 3 * msPerDay \<and> \<not> after_until (plain_rule ''daily'') d)
       (map (\<lambda>k. iterate_rule utc_dayjs (plain_rule ''daily'') k (ev_start (sample_event ''1'' 0 1 (Some (plain_rule ''daily'')))))
          [0..<step_limit (plain_rule ''daily'') 3])))" .
  also have "\<dots> = Some [msPerDay, 2 * msPerDay]" by code_simp
  finally show ?thesis .
qed

text \<open>
  Steps before the range count towards the bound: when the first \<open>mx\<close> steps (100 by default) all
  lie before the range, the expansion is empty although the rule has occurrences in it.
\<close>

theorem generateOccurrences_old_event:
  "ev_recurrenceRule e = Some rule \<Longrightarrow> (\<forall>d. passes_filters dj rule d) \<Longrightarrow>
   (\<forall>k < mx. iterate_rule dj rule k (ev_start e) < rangeStart) \<Longrightarrow>
   generateOccurrences dj e rangeStart rangeEnd mx = Some []"
proof -
  assume e: "ev_recurrenceRule e = Some rule" "\<forall>d. passes_filters dj rule d"
    and old: "\<forall>k < mx. iterate_rule dj rule k (ev_start e) < rangeStart"
  have "step_limit rule mx \<le> mx" by (auto simp: step_limit_def split: option.split)
  then have "\<forall>d \<in> set (takeWhile Q (map (\<lambda>k. iterate_rule dj rule k (ev_start e)) [0..<step_limit rule mx])).
      d < rangeStart" for Q
    using old by (fastforce dest!: set_takeWhileD)
  then have "filter (\<lambda>d. rangeStart \<le> d) (takeWhile Q (map (\<lambda>k. iterate_rule dj rule k (ev_start e))
      [0..<step_limit rule mx])) = []" for Q
    unfolding filter_empty_conv not_le by blast
  then show ?thesis using e by (simp add: generateOccurrences_def loop_unfiltered)
qed

theorem generateOccurrences_old_event_witness:
  "generateOccurrences utc_dayjs (sample_event ''1'' 0 1 (Some (plain_rule ''daily''))) (200 * msPerDay) (210 * msPerDay) 100
     = Some []
   \<and> iterate_rule utc_dayjs (plain_rule ''daily'') 205 0 = 205 * msPerDay"
proof -
  have it: "iterate_rule utc_dayjs (plain_rule ''daily'') k d = d + int k * msPerDay" for k d
    by (induction k arbitrary: d) (simp_all add: iterate_rule_Suc advanceByFrequency_def plain_rule_def empty_rule_def
        rule_interval_def num_truthy_def utc_dayjs_def algebra_simps)
  have "ev_recurrenceRule (sample_event ''1'' 0 1 (Some (plain_rule ''daily''))) = Some (plain_rule ''daily'')"
    "\<forall>d. passes_filters utc_dayjs (plain_rule ''daily'') d"
    by (simp_all add: sample_event_def passes_filters_def plain_rule_def empty_rule_def by_ok_def)
  from generateOccurrences_old_event [OF this, of 100 "200 * msPerDay" "210 * msPerDay"] show ?thesis
    by (simp add: it sample_event_def msPerDay_def)
qed

text \<open>
  A weekly rule only ever yields the weekday on which the event starts, whatever other days its
  \<open>BYDAY\<close> lists: the steps are whole weeks, and \<open>BYDAY\<close> only removes dates.
\<close>

theorem generateOccurrences_weekly_one_day:
  "dayjs_clock dj \<Longrightarrow> ev_recurrenceRule e = Some rule \<Longrightarrow> rr_freq rule = ''weekly'' \<Longrightarrow> 0 < rule_interval rule \<Longrightarrow>
   \<exists>ds. generateOccurrences dj e rangeStart rangeEnd mx = Some ds \<and> (\<forall>d \<in> set ds. dj_day dj d = dj_day dj (ev_start e))"
  using dayjs_clock.loop_returns [of dj rule rangeStart rangeEnd mx "ev_start e" 0 "[]"] dayjs_clock.weekly_iterate [of dj rule]
  by (fastforce simp: generateOccurrences_def loop_result_def)

theorem generateOccurrences_weekly_one_day_witness:
  "\<exists>ds. generateOccurrences utc_dayjs (sample_event ''1'' 0 1 (Some weekly_rule)) 0 (100 * msPerDay) 100 = Some ds
     \<and> (\<forall>d \<in> set ds. dj_day utc_dayjs d = dj_day utc_dayjs 0)"
  using generateOccurrences_weekly_one_day [OF utc_clock.dayjs_clock_axioms, of "sample_event ''1'' 0 1 (Some weekly_rule)" weekly_rule]
  by (simp add: sample_event_def weekly_rule_def rule_interval_def num_truthy_def)

end
