(* ===== verification/Spec2Isabelle.thy ===== *)
theory Spec2Isabelle
  imports MailSystem Backfill Subscriptions WebFolders SmtpRouter QueryParser Message Mailbox Thread Contacts VCard Event Recurrence RuleActions
begin

text \<open>
  \<^bold>\<open>The program.\<close> The repository is a platform whose TypeScript part is a webmail system under
  \<open>src/modules/mail/webmail\<close>: \<open>packages/core\<close> is the domain logic of mail, contacts, calendars and
  rules, free of I/O; \<open>packages/common\<close> holds what the applications share, \<open>packages/db\<close> the tables;
  \<open>apps/worker\<close> is the background worker that synchronises IMAP mailboxes, runs the mail rules and
  takes jobs from queues; \<open>apps/web\<close> is the web client with its search syntax. The development models
  the domain logic, the part of the worker that changes the mail tables, and the actions of the web client on mail.

  \<^bold>\<open>Foundations.\<close> \<open>Prelude\<close> is the part of the JavaScript runtime that the code uses: strings as
  lists of code units, case folding, trimming, splitting and joining, optional values, ordered maps,
  the stable sort. \<open>Comparators\<close> states the contract of a comparator as the locale \<open>js_comparator\<close> and
  proves once what the sort does with one; every comparator of the code is an interpretation.
  \<open>Regex\<close> is a matcher for the regular expressions written in the source, \<open>JsValue\<close> the dynamic values
  with their conversions, \<open>JsDate\<close> the calendar arithmetic of \<open>Date\<close>, and \<open>Dayjs\<close> the interface of the date
  library as the locale \<open>dayjs_clock\<close>, interpreted on calendar arithmetic in UTC. Time zones, the
  clock, \<open>RegExp\<close> for patterns that users write, \<open>localeCompare\<close> and the date library are arguments of
  the definitions that use them.

  \<^bold>\<open>Domain logic\<close> (\<open>packages/core/src\<close>). \<open>RuleMatcher\<close> and \<open>RuleActions\<close> model \<open>rules/matcher.ts\<close> and
  \<open>rules/actions.ts\<close>: evaluation, validation and merging of rules. \<open>Message\<close>, \<open>Mailbox\<close>, \<open>Thread\<close> model
  \<open>mail/message.ts\<close>, \<open>mail/mailbox.ts\<close>, \<open>mail/thread.ts\<close>; \<open>Forest\<close> is the store of tree nodes that the
  thread builder mutates, with the lemmas on acyclic parent links. \<open>Contacts\<close> and \<open>VCard\<close> model
  \<open>contacts/contact.ts\<close> and \<open>contacts/vcard.ts\<close>, \<open>Event\<close> and \<open>Recurrence\<close> the files \<open>calendar/event.ts\<close> and
  \<open>calendar/recurrence.ts\<close>. The theorems: validators accept exactly the well-formed requests, parsers
  undo printers on the values they are meant for, sorting and grouping are permutations and
  partitions, loops return, the thread tree holds every message once when replies are acyclic.

  \<^bold>\<open>The mail tables and their jobs\<close> (\<open>apps/worker\<close>, \<open>packages/common/src/mail.ts\<close>). \<open>MailStore\<close> is the state: the
  tables as lists of rows with the columns that the code uses, the jobs added and the IMAP commands
  sent; its invariant \<open>store_inv\<close> says that every summary row has the unread count and star of its
  messages. \<open>MailJobs\<close> models \<open>imap-flags.ts\<close>, \<open>imap-move.ts\<close> and \<open>imap-delete.ts\<close>, with refused IMAP commands
  and rolled-back transactions; \<open>RulesProcessor\<close> the rules on a stored message and their actions;
  \<open>ThreadRollup\<close> the summary of a thread and its upsert; \<open>RealTime\<close> the flags and expunge events of
  \<open>imap-idle-sync.ts\<close>. The locale \<open>rule_effect\<close> lifts an effect of one action to a whole run of the rules
  and is interpreted for the invariant, for the frame and for the listing.

  \<^bold>\<open>Mail coming in.\<close> \<open>BatchBuffers\<close> is the buffering of follow-up jobs in \<open>message-payload-parser.ts\<close> with its
  timers and flushes that interleave at each await; \<open>Ingest\<close> is \<open>parseAndStoreEmail\<close> of that file: the choice
  of the thread, the row, attachments, contacts and mailing lists. \<open>Folders\<close> models the discovery, creation
  and deletion of folders, \<open>ImapSync\<close> the synchronisation of a mailbox over windows of uids and
  \<open>deltaFetch\<close>, \<open>Backfill\<close> the daily backfill of old mail with its quotas and cursors. The loops that fetch
  messages only know their handler through a contract: the locale \<open>message_handler\<close> (the handler keeps an
  invariant) and its extension \<open>storing_handler\<close> (it also stores what it is given), interpreted on the
  handlers of the code. The theorems: a synchronisation ends, has handled everything up to the mark it
  stores, and keeps the tables well formed however it ends; a backfill completes after as many ticks as
  its cursor has windows.

  \<^bold>\<open>The user.\<close> \<open>WebActions\<close> models the actions of \<open>apps/web/lib/actions/mailbox.ts\<close> on threads, the pages of
  a mailbox and snoozing, with the tick of \<open>common-worker.ts\<close>; \<open>WebFolders\<close> the creation and deletion of
  folders from the client, with jobs that are tried again and cascading deletions; \<open>Subscriptions\<close> the
  lists that a thread belongs to and leaving them, together with what the ingestion stored. \<open>QueryParser\<close>
  models the search syntax of \<open>apps/web/lib/search/query-parser.ts\<close>, \<open>SmtpRouter\<close> the choice of the outgoing
  channel.

  \<^bold>\<open>The system.\<close> \<open>MailSystem\<close> puts the parts that share the mail tables together: \<open>run_job\<close> is the worker of
  \<open>smtp-worker.ts\<close>, \<open>mail_step\<close> a delivery, a run of rules, a queued job, an event of the server, an action
  of the user or a tick of the clock, in any order; every reachable store is well formed.

  \<^bold>\<open>Loops and bounds.\<close> Loops over lists are structural recursions; \<open>scan\<close>, the regular-expression
  matcher and the line unfolder of vCards have termination proofs by length. The loop of
  \<open>generateOccurrences\<close> may run forever on bad data (an interval of zero); it is a partial function
  with \<open>None\<close> for not returning, and \<open>generateOccurrences_total\<close> says when it returns. The recursion of
  \<open>sortChildren\<close> over the thread tree has fuel one more than the number of nodes, the depth of the
  call stack; running out is the stack overflow of the code, and \<open>buildThreadTree_total\<close> shows that it
  does not happen. The chain of parents of a folder (\<open>ensureParentChain\<close>) and the windows of a
  synchronisation (\<open>sync_windows\<close>) are partial functions in the same way, and are shown to return. A flush of
  the buffers has six calls left to make at most, one for each kind of job and its last step, which is the fuel of
  \<open>flush_run\<close>. The cascade of deletions (\<open>remove_tree\<close>) ends by the number of rows that are left. Numbers: times and counters are unbounded
  integers, which the code reaches only below 2 to the 53; sizes in the search syntax are computed in
  exact arithmetic; code units above 255 are outside the model.

  \<^bold>\<open>Not modelled.\<close> The Go services of the repository (another language); React components, pages and
  the admin and documentation sites (presentation); the server actions of \<open>apps/web\<close> other than those on
  mail, and of these the sending of drafts, scheduled drafts and the search service; providers, storage,
  Redis, BullMQ, Typesense, the MIME parser and the IMAP client (third-party services behind thin wrappers:
  of these the model keeps the commands sent, the jobs added and the answers as arguments); DAV
  synchronisation and calendar invitations, which rest on an iCalendar library, and migrations of the
  worker; the row-level security policies of the schema: the store of a user's action is the part of the
  tables that the user sees. The deduplication of search-refresh jobs by job id is not modelled: the model
  keeps each request.
\<close>

subsection \<open>From a rule to the move it asks for\<close>

lemma run_trash_action:
  assumes "rla_actionType act = ''trash''" "mx_id mailbox \<noteq> []"
  shows "run_action now m mailbox identity act st =
    (st\<lparr>st_jobs := st_jobs st @ [JobMove (row_threadId m) (mx_id mailbox) ''trash'' None (Some (row_id m)) (truthy (idt_smtpAccountId identity)),
        JobRefreshThread (row_threadId m)]\<rparr>, None)"
  using assms by (simp add: run_action_def moveToTrash_def add_job_def Let_def)

lemma jobs_irrelevant:
  "scope_messages (st\<lparr>st_jobs := js\<rparr>) = scope_messages st" "vacant (st\<lparr>st_jobs := js\<rparr>) = vacant st"
  "fits (st\<lparr>st_jobs := js\<rparr>) = fits st" "find_mailbox (st\<lparr>st_jobs := js\<rparr>) = find_mailbox st"
  "move_destination (st\<lparr>st_jobs := js\<rparr>) = move_destination st" "store_inv (st\<lparr>st_jobs := js\<rparr>) = store_inv st"
  using store_inv_cong [of "st\<lparr>st_jobs := js\<rparr>" st]
  by (simp_all add: fun_eq_iff scope_messages_def vacant_def fits_def find_mailbox_def move_destination_def)



end
